(* ===== verification/Dos_Prelude.thy ===== *)
theory Dos_Prelude
  imports Main "HOL-Library.Word"
begin

text \<open>
  Shared vocabulary of the development: the C integer types of the kernel as words, the byte order
  of its buffers, and intrusive doubly linked lists, which the frame allocator threads through free
  frames.  The theorem collections \<open>dll_simps\<close> and
  \<open>kernel_defs\<close> carry the component proofs.
\<close>

unbundle bit_operations_syntax

named_theorems dll_simps \<open>rewrite rules for intrusive doubly linked lists\<close>
named_theorems kernel_defs \<open>definitions of small kernel helpers, unfolded together\<close>

section \<open>C integer types\<close>

type_synonym u8 = "8 word"
type_synonym u16 = "16 word"
type_synonym u32 = "32 word"
type_synonym u64 = "64 word"

text \<open>A kernel call that returns a negative errno in a C \<open>long\<close> or \<open>int\<close>.\<close>

type_synonym errno = int

abbreviation EPERM :: errno where "EPERM \<equiv> -1"
abbreviation ENOENT :: errno where "ENOENT \<equiv> -2"
abbreviation EINTR :: errno where "EINTR \<equiv> -4"
abbreviation ENXIO :: errno where "ENXIO \<equiv> -6"
abbreviation E2BIG :: errno where "E2BIG \<equiv> -7"
abbreviation EBADF :: errno where "EBADF \<equiv> -9"
abbreviation EAGAIN :: errno where "EAGAIN \<equiv> -11"
abbreviation ENOMEM :: errno where "ENOMEM \<equiv> -12"
abbreviation EFAULT :: errno where "EFAULT \<equiv> -14"
abbreviation EEXIST :: errno where "EEXIST \<equiv> -17"
abbreviation ENODEV :: errno where "ENODEV \<equiv> -19"
abbreviation EINVAL :: errno where "EINVAL \<equiv> -22"
abbreviation EFBIG :: errno where "EFBIG \<equiv> -27"
abbreviation ENOSPC :: errno where "ENOSPC \<equiv> -28"
abbreviation EPIPE :: errno where "EPIPE \<equiv> -32"
abbreviation ENOLCK :: errno where "ENOLCK \<equiv> -37"

section \<open>Machine words\<close>

text \<open>Rounding down to a multiple of a power of two, and sums that do not wrap.\<close>

lemma unat_and_not_mask: "unat (x AND NOT (mask n) :: 'a::len word) = unat x div 2 ^ n * 2 ^ n"
proof -
  have "x AND NOT (mask n) = push_bit n (drop_bit n x)"
    by (rule bit_word_eqI) (auto simp: bit_simps)
  moreover have l: "unat x div 2 ^ n * 2 ^ n < 2 ^ LENGTH('a)"
    using unsigned_less [of x, where ?'a = nat] div_times_less_eq_dividend [of "unat x" "2 ^ n"] by linarith
  moreover have "unat (push_bit n (drop_bit n x)) = take_bit LENGTH('a) (unat x div 2 ^ n * 2 ^ n)"
    by (simp only: unsigned_push_bit_eq unsigned_drop_bit_eq)
      (simp add: push_bit_eq_mult drop_bit_eq_div take_bit_nat_eq_self unsigned_less)
  ultimately show ?thesis by (simp add: take_bit_nat_eq_self)
qed

lemma div_step_above: "0 < k \<Longrightarrow> n < n div k * k + k" for n k :: nat
  using dividend_less_div_times [of k n] by simp

lemma mod_shift_neq: "0 < i \<Longrightarrow> i < (c::nat) \<Longrightarrow> (t + i) mod c \<noteq> t mod c"
proof
  assume a: "0 < i" "i < c" "(t + i) mod c = t mod c"
  then have "c dvd i" using mod_eq_dvd_iff_nat [of t "t + i" c] by simp
  then show False using a by (auto dest: dvd_imp_le)
qed

lemma unat_and_mask: "unat (x AND mask n :: 'a::len word) = unat x mod 2 ^ n"
proof -
  have "unat x mod 2 ^ n < 2 ^ LENGTH('a)"
    using unsigned_less [of x, where ?'a = nat] mod_less_eq_dividend [of "unat x" "2 ^ n"] by linarith
  moreover have "x AND mask n = take_bit n x" by (simp add: take_bit_eq_mask)
  moreover have "unat (take_bit n x) = take_bit n (unat x)" by (simp only: unsigned_take_bit_eq)
  ultimately show ?thesis by (simp only: take_bit_eq_mod)
qed

text \<open>The signed reading of a word.\<close>

lemma sint_if:
  "sint (v :: 'a::len word) = (if uint v < 2 ^ (LENGTH('a) - 1) then uint v else uint v - 2 ^ LENGTH('a))"
proof -
  let ?h = "2 ^ (LENGTH('a) - 1) :: int"
  have l: "2 ^ LENGTH('a) = 2 * ?h" by (simp flip: power_Suc)
  have u: "uint v < 2 * ?h" using uint_lt2p [of v] l by simp
  have "sint v = (uint v + ?h) mod (2 * ?h) - ?h"
    unfolding l [symmetric]
    by (simp add: sint_uint signed_take_bit_eq_take_bit_shift take_bit_eq_mod)
  moreover have "(uint v + ?h) mod (2 * ?h) = uint v + ?h" if "uint v < ?h"
    using that by (intro mod_pos_pos_trivial) simp_all
  moreover have "(uint v + ?h) mod (2 * ?h) = uint v - ?h" if "\<not> uint v < ?h"
  proof -
    have "(uint v - ?h) mod (2 * ?h) = uint v - ?h" using that u by (intro mod_pos_pos_trivial) simp_all
    moreover have "uint v + ?h = (uint v - ?h) + 2 * ?h" by simp
    ultimately show ?thesis by (metis mod_add_self2)
  qed
  ultimately show ?thesis using l by simp
qed

lemma unat_of_nat_lt: "n < 2 ^ LENGTH('a) \<Longrightarrow> unat (of_nat n :: 'a::len word) = n"
  by (simp add: unsigned_of_nat take_bit_nat_eq_self)

lemma unat_add_lt: "unat x + unat y < 2 ^ LENGTH('a) \<Longrightarrow> unat (x + y :: 'a::len word) = unat x + unat y"
  by (simp add: unat_word_ariths)

lemma unat_sub_le: "y \<le> x \<Longrightarrow> unat (x - y :: 'a::len word) = unat x - unat y"
  by (simp add: unat_sub word_le_nat_alt)

section \<open>Lists\<close>

lemma sum_list_map_remove1_nat:
  "x \<in> set xs \<Longrightarrow> sum_list (map f xs) = f x + sum_list (map f (remove1 x xs))" for f :: "'a \<Rightarrow> nat"
  by (induction xs) auto

lemma remove1_split:
  "distinct (xs @ a # ys) \<Longrightarrow> remove1 a (xs @ a # ys) = xs @ ys"
  by (simp add: remove1_append)

lemma map_remove1_inj:
  "inj_on f (insert x (set xs)) \<Longrightarrow> map f (remove1 x xs) = remove1 (f x) (map f xs)"
proof (induction xs)
  case (Cons a xs)
  then have "inj_on f (insert x (set xs))"
    by (auto intro: inj_on_subset)
  moreover have "f x = f a \<longleftrightarrow> x = a"
    using Cons.prems by (auto simp: inj_on_def)
  ultimately show ?case
    using Cons.IH by auto
qed simp

section \<open>Intrusive doubly linked lists\<close>

text \<open>
  \<open>dll nx pv p x as\<close>: starting at address \<open>x\<close>, whose predecessor is \<open>p\<close>, the next links \<open>nx\<close> run
  through exactly the addresses \<open>as\<close> and end in the null address 0, and every prev link \<open>pv\<close> names
  the element before it.
\<close>

primrec dll :: "(nat \<Rightarrow> nat) \<Rightarrow> (nat \<Rightarrow> nat) \<Rightarrow> nat \<Rightarrow> nat \<Rightarrow> nat list \<Rightarrow> bool" where
  "dll nx pv p x [] \<longleftrightarrow> x = 0"
| "dll nx pv p x (a # as) \<longleftrightarrow> x = a \<and> a \<noteq> 0 \<and> pv a = p \<and> dll nx pv a (nx a) as"

lemma dll_null [simp, dll_simps]: "dll nx pv p 0 as \<longleftrightarrow> as = []"
  by (cases as) auto

lemma dll_nonnull: "x \<noteq> 0 \<Longrightarrow>
    dll nx pv p x as \<longleftrightarrow> (\<exists>bs. as = x # bs \<and> pv x = p \<and> dll nx pv x (nx x) bs)"
  by (cases as) auto

lemma dll_upd_other [simp, dll_simps]:
  "u \<notin> set as \<Longrightarrow> dll (nx(u := v)) pv p x as = dll nx pv p x as"
  by (induction as arbitrary: p x) auto

lemma dll_upd_other_prev [simp, dll_simps]:
  "u \<notin> set as \<Longrightarrow> dll nx (pv(u := v)) p x as = dll nx pv p x as"
  by (induction as arbitrary: p x) auto

lemma dll_set_nonnull: "dll nx pv p x as \<Longrightarrow> 0 \<notin> set as"
  by (induction as arbitrary: p x) auto

lemma dll_unique: "dll nx pv p x as \<Longrightarrow> dll nx pv q x bs \<Longrightarrow> as = bs"
proof (induction as arbitrary: p q x bs)
  case (Cons a as)
  then show ?case by (cases bs) auto
qed simp

lemma dll_suffix: "dll nx pv p x (as @ a # bs) \<Longrightarrow> dll nx pv (pv a) a (a # bs)"
  by (induction as arbitrary: p x) auto

lemma dll_distinct: "dll nx pv p x as \<Longrightarrow> distinct as"
proof (induction as arbitrary: p x)
  case (Cons a as)
  then have tail: "dll nx pv a (nx a) as" and d: "distinct as"
    by auto
  have "a \<notin> set as"
  proof
    assume "a \<in> set as"
    then obtain us vs where as: "as = us @ a # vs"
      by (meson split_list)
    with tail have "dll nx pv (pv a) a (a # vs)"
      using dll_suffix by metis
    then have "dll nx pv a (nx a) vs"
      by simp
    then have "as = vs"
      using tail dll_unique by metis
    with as show False by simp
  qed
  with d show ?case by simp
qed simp

text \<open>Pushing a fresh element: the new head points at the old one, whose prev link names it.\<close>

lemma dll_push:
  assumes "dll nx pv 0 h as" and "a \<noteq> 0" and "a \<notin> set as"
  shows "dll (nx(a := h)) (if h \<noteq> 0 then (pv(a := 0))(h := a) else pv(a := 0)) 0 a (a # as)"
proof (cases as)
  case Nil
  with assms show ?thesis by simp
next
  case (Cons b bs)
  with assms have h: "h = b" and b: "b \<noteq> 0" and ab: "a \<noteq> b" "a \<notin> set bs"
    and tl: "dll nx pv b (nx b) bs"
    by auto
  have "b \<notin> set bs"
    using dll_distinct [OF assms(1)] Cons by simp
  with Cons assms(2) h b ab tl show ?thesis
    by auto
qed

text \<open>
  Unlinking an element in the middle or at the head, as both allocators do: the predecessor's next
  link (or the head) takes the element's successor, whose prev link takes its predecessor.
\<close>

definition dll_unlink_next :: "(nat \<Rightarrow> nat) \<Rightarrow> (nat \<Rightarrow> nat) \<Rightarrow> nat \<Rightarrow> nat \<Rightarrow> nat" where
  "dll_unlink_next nx pv a = (if pv a \<noteq> 0 then nx(pv a := nx a) else nx)"

definition dll_unlink_prev :: "(nat \<Rightarrow> nat) \<Rightarrow> (nat \<Rightarrow> nat) \<Rightarrow> nat \<Rightarrow> nat \<Rightarrow> nat" where
  "dll_unlink_prev nx pv a = (if nx a \<noteq> 0 then pv(nx a := pv a) else pv)"

lemma dll_prev_null_iff:
  assumes "dll nx pv 0 h as" and "a \<in> set as"
  shows "pv a = 0 \<longleftrightarrow> h = a"
proof -
  have "pv a = 0 \<longleftrightarrow> h = a" if "dll nx pv p h as" "a \<in> set as" "p = 0" for p
    using that
  proof (cases as)
    case (Cons b bs)
    have "pv c \<noteq> 0" if "dll nx pv q y cs" "q \<noteq> 0" "c \<in> set cs" for q y c cs
      using that by (induction cs arbitrary: q y) auto
    then have "pv a \<noteq> 0" if "a \<in> set bs"
      using that Cons \<open>dll nx pv p h as\<close> by fastforce
    with Cons that show ?thesis
      using dll_distinct [OF that(1)] by auto
  qed simp
  with assms show ?thesis by blast
qed

lemma dll_unlink_seg:
  assumes "dll nx pv p x (as @ a # bs)" and "distinct (as @ a # bs)" and "p \<notin> set (as @ a # bs)"
    and "p = 0 \<or> as \<noteq> []"
  shows "dll (dll_unlink_next nx pv a) (dll_unlink_prev nx pv a) p
           (if as = [] then nx a else x) (as @ bs)"
  using assms
proof (induction as arbitrary: p x)
  case Nil
  then have a: "x = a" "a \<noteq> 0" "pv a = 0" "p = 0" and tl: "dll nx pv a (nx a) bs"
    by auto
  show ?case
  proof (cases bs)
    case Nil
    with a tl show ?thesis by simp
  next
    case (Cons b cs)
    with tl have b: "nx a = b" "b \<noteq> 0" "dll nx pv b (nx b) cs" by auto
    have "b \<notin> set cs" using Nil.prems(2) Cons by auto
    moreover have "dll_unlink_prev nx pv a = pv(b := 0)" "dll_unlink_next nx pv a = nx"
      using a b by (simp_all add: dll_unlink_next_def dll_unlink_prev_def)
    moreover have "dll nx (pv(b := 0)) 0 b (b # cs)"
      using b \<open>b \<notin> set cs\<close> by simp
    ultimately show ?thesis
      using a b Cons by (simp del: fun_upd_apply)
  qed
next
  case (Cons c cs)
  then have c: "x = c" "c \<noteq> 0" "pv c = p" and tl: "dll nx pv c (nx c) (cs @ a # bs)"
    by auto
  have dist: "distinct (cs @ a # bs)" "c \<notin> set (cs @ a # bs)" "p \<noteq> c"
    using Cons.prems by auto
  let ?nx = "dll_unlink_next nx pv a" and ?pv = "dll_unlink_prev nx pv a"
  have na: "nx a \<noteq> c"
  proof (cases bs)
    case Nil
    then have "nx a = 0" using dll_suffix [OF tl] by simp
    with c show ?thesis by simp
  next
    case (Cons b ds)
    then have "nx a = b" using dll_suffix [OF tl] by simp
    with dist Cons show ?thesis by auto
  qed
  show ?case
  proof (cases cs)
    case Nil
    with tl have a: "nx c = a" "a \<noteq> 0" "pv a = c" and tl2: "dll nx pv a (nx a) bs"
      by auto
    have nxc: "?nx c = nx a" and pvc: "?pv c = p"
      using a c na by (auto simp: dll_unlink_next_def dll_unlink_prev_def)
    have "dll ?nx ?pv c (nx a) bs"
    proof (cases bs)
      case Nil
      with tl2 show ?thesis by simp
    next
      case (Cons b ds)
      with tl2 have b: "nx a = b" "b \<noteq> 0" "dll nx pv b (nx b) ds" by auto
      have "b \<notin> set ds" "c \<notin> set ds" "c \<noteq> b" using dist Cons \<open>cs = []\<close> by auto
      moreover have "?pv = pv(b := c)" "?nx = nx(c := b)"
        using a b c by (simp_all add: dll_unlink_next_def dll_unlink_prev_def)
      ultimately show ?thesis
        using a b c Cons by simp
    qed
    with Nil c nxc pvc show ?thesis by simp
  next
    case (Cons d ds)
    have "dll ?nx ?pv c (if cs = [] then nx a else nx c) (cs @ bs)"
    proof (rule Cons.IH [OF tl dist(1)])
    qed (use dist Cons in auto)
    then have rest: "dll ?nx ?pv c (nx c) (cs @ bs)" using Cons by simp
    have "pv a \<noteq> c"
    proof -
      have "pv e \<in> set (u # us)" if "dll nx pv q y (u # us @ e # vs)" for q y u us e vs
        using that by (induction us arbitrary: q y u) auto
      then have "pv a \<in> set (d # ds)"
        using tl Cons by fastforce
      with dist Cons show ?thesis by auto
    qed
    then have "?nx c = nx c" "?pv c = p"
      using c na by (auto simp: dll_unlink_next_def dll_unlink_prev_def)
    with c rest show ?thesis by simp
  qed
qed

lemma dll_unlink:
  assumes "dll nx pv 0 h as" and "a \<in> set as"
  shows "dll (dll_unlink_next nx pv a) (dll_unlink_prev nx pv a) 0
           (if pv a = 0 then nx a else h) (remove1 a as)"
proof -
  obtain us vs where as: "as = us @ a # vs"
    using assms(2) by (meson split_list)
  have d: "distinct (us @ a # vs)"
    using dll_distinct [OF assms(1)] as by simp
  have "dll (dll_unlink_next nx pv a) (dll_unlink_prev nx pv a) 0
          (if us = [] then nx a else h) (us @ vs)"
  proof (rule dll_unlink_seg)
    show "dll nx pv 0 h (us @ a # vs)" using assms(1) as by simp
    show "0 \<notin> set (us @ a # vs)" using dll_set_nonnull [OF assms(1)] as by simp
  qed (use d in auto)
  moreover have "us = [] \<longleftrightarrow> pv a = 0"
  proof -
    have "h = a \<longleftrightarrow> us = []"
      using assms(1) d as by (cases us) auto
    then show ?thesis
      using dll_prev_null_iff [OF assms] by simp
  qed
  ultimately show ?thesis
    using remove1_split [OF d] as by simp
qed

text \<open>The links an unlink writes belong to the list itself, so other lists keep theirs.\<close>

lemma dll_neighbours:
  assumes "dll nx pv 0 h as" and "a \<in> set as"
  shows "nx a \<in> insert 0 (set as)" and "pv a \<in> insert 0 (set as)"
proof -
  have "nx a \<in> insert 0 (set as) \<and> pv a \<in> insert p (set as)" if "dll nx pv p h as" "a \<in> set as" for p
    using that
  proof (induction as arbitrary: p h)
    case (Cons b bs)
    then show ?case
    proof (cases "a = b")
      case True
      with Cons.prems show ?thesis by (cases bs) auto
    next
      case False
      with Cons.prems Cons.IH [of b "nx b"] show ?thesis by auto
    qed
  qed simp
  with assms show "nx a \<in> insert 0 (set as)" and "pv a \<in> insert 0 (set as)" by auto
qed

lemma dll_unlink_other:
  assumes "dll nx pv 0 h as" and "a \<in> set as" and "set as \<inter> set bs = {}" and "0 \<notin> set bs"
  shows "dll (dll_unlink_next nx pv a) (dll_unlink_prev nx pv a) p x bs = dll nx pv p x bs"
proof -
  have "nx a \<notin> set bs" "pv a \<notin> set bs"
    using dll_neighbours [OF assms(1,2)] assms(3,4) by auto
  then show ?thesis
    by (simp add: dll_unlink_next_def dll_unlink_prev_def)
qed

end
