(* ===== verification/Pmm.thy ===== *)
theory Pmm
  imports Dos_Prelude
begin

text \<open>
  The zoned buddy allocator of physical frames, \<open>kernel/mem/pmm.c\<close>: definitions only.

  The state is one record: the byte of state per frame (\<open>page_state\<close>), the managed span, the zone
  descriptors \<open>zones_n[node][zone]\<close> addressed by a pair, the affinity ranges, and the two link words
  the allocator stores inside a free frame (slot 0 the next block of the list, slot 1 the previous
  one, both physical addresses, 0 the end of the list).  Every function that holds a zone lock from
  its first to its last access is one atomic step here.  Frame numbers and physical addresses are
  natural numbers: a frame number is a \<open>uint32_t\<close> below \<open>pmm_nr_frames\<close> and its address fits in 44
  bits, so no sum of the allocator wraps; the counters, which the allocator adds to and subtracts
  from without a check, are kept at their width.  A frame that the kernel reaches through a
  temporary mapping (\<open>kmap_frame\<close>) and one it reaches directly are the same memory, so both branches
  of \<open>link_load_at\<close> and \<open>link_store_at\<close> read and write the same words; their diagnostic output is
  left out.
\<close>

section \<open>Sizes, zones and state\<close>

definition BUDDY_MAX_ORDER :: nat where "BUDDY_MAX_ORDER = 13"
definition PMM_FRAME_SIZE :: nat where "PMM_FRAME_SIZE = 4096"
definition PS_NONE :: u8 where "PS_NONE = 0xFF"
definition PS_USED :: u8 where "PS_USED = 0xFE"
definition ZONE_DMA :: nat where "ZONE_DMA = 0"
definition ZONE_DMA32 :: nat where "ZONE_DMA32 = 1"
definition ZONE_NORMAL :: nat where "ZONE_NORMAL = 2"
definition ZONE_HIGHMEM :: nat where "ZONE_HIGHMEM = 3"
definition NR_ZONES :: nat where "NR_ZONES = 4"
definition ZONE_DEFAULT :: int where "ZONE_DEFAULT = -1"
definition ZONE_DMA_FRAME_LIMIT :: nat where "ZONE_DMA_FRAME_LIMIT = 4096"
definition ZONE_DMA32_FRAME_LIMIT :: nat where "ZONE_DMA32_FRAME_LIMIT = 2 ^ 20"
definition PMM_MAX_NODES :: nat where "PMM_MAX_NODES = 8"
definition PMM_MAX_RANGES :: nat where "PMM_MAX_RANGES = 16"
definition BUDDY_FRAME_HARD_CAP :: nat where "BUDDY_FRAME_HARD_CAP = 2 ^ 26"
definition PMM_ALLOC_FAIL :: nat where "PMM_ALLOC_FAIL = 0"

lemmas pmm_consts = BUDDY_MAX_ORDER_def PMM_FRAME_SIZE_def PS_NONE_def PS_USED_def ZONE_DMA_def
  ZONE_DMA32_def ZONE_NORMAL_def ZONE_HIGHMEM_def NR_ZONES_def ZONE_DEFAULT_def
  ZONE_DMA_FRAME_LIMIT_def ZONE_DMA32_FRAME_LIMIT_def PMM_MAX_NODES_def PMM_MAX_RANGES_def
  BUDDY_FRAME_HARD_CAP_def PMM_ALLOC_FAIL_def

record zone =
  z_start :: nat
  z_end :: nat
  z_managed :: u32
  z_free :: u32
  z_lists :: "nat \<Rightarrow> nat"
  z_nr :: "nat \<Rightarrow> u32"
  z_node :: nat

record node_range =
  nrg_start :: nat
  nrg_end :: nat
  nrg_node :: nat

text \<open>A zone pointer \<open>&zones_n[node][zone]\<close>.\<close>

type_synonym zptr = "nat \<times> nat"

record pmm =
  pm_state :: "nat \<Rightarrow> u8"
  pm_nr_frames :: nat
  pm_base :: nat
  pm_direct_end :: nat
  pm_zones :: "zptr \<Rightarrow> zone"
  pm_next :: "nat \<Rightarrow> nat"
  pm_prev :: "nat \<Rightarrow> nat"
  pm_ranges :: "node_range list"
  pm_nr_nodes :: nat
  pm_numa_live :: bool
  pm_numa_committed :: bool
  pm_hit :: "nat \<Rightarrow> u32"
  pm_miss :: "nat \<Rightarrow> u32"
  pm_deferred_from :: nat
  pm_reserve :: int
  pm_low :: bool
  pm_refused :: u32

definition upd_zone :: "zptr \<Rightarrow> (zone \<Rightarrow> zone) \<Rightarrow> pmm \<Rightarrow> pmm" where
  "upd_zone zp f s = s\<lparr>pm_zones := (pm_zones s)(zp := f (pm_zones s zp))\<rparr>"

section \<open>Helpers\<close>

definition pfn_to_phys :: "nat \<Rightarrow> nat" where
  "pfn_to_phys pfn = push_bit 12 pfn"

definition phys_to_pfn :: "nat \<Rightarrow> nat" where
  "phys_to_pfn p = take_bit 32 (drop_bit 12 p)"

definition zone_of_pfn :: "pmm \<Rightarrow> nat \<Rightarrow> nat option" where
  "zone_of_pfn s pfn =
     (if pfn \<ge> pm_nr_frames s \<or> pfn < pm_base s then None
      else if pfn \<ge> pm_direct_end s then Some ZONE_HIGHMEM
      else if pfn < ZONE_DMA_FRAME_LIMIT then Some ZONE_DMA
      else if pfn < ZONE_DMA32_FRAME_LIMIT then Some ZONE_DMA32
      else Some ZONE_NORMAL)"

fun range_node :: "node_range list \<Rightarrow> nat \<Rightarrow> nat" where
  "range_node [] pfn = 0"
| "range_node (r # rs) pfn =
     (if pfn \<ge> nrg_start r \<and> pfn < nrg_end r then nrg_node r else range_node rs pfn)"

definition node_of_pfn :: "pmm \<Rightarrow> nat \<Rightarrow> nat" where
  "node_of_pfn s pfn = (if \<not> pm_numa_live s then 0 else range_node (pm_ranges s) pfn)"

definition zone_for_pfn :: "pmm \<Rightarrow> nat \<Rightarrow> zptr option" where
  "zone_for_pfn s pfn =
     (case zone_of_pfn s pfn of None \<Rightarrow> None | Some zi \<Rightarrow> Some (node_of_pfn s pfn, zi))"

text \<open>The loop of \<open>ceil_log2\<close>, \<open>while (v < n) { v <<= 1; k++; }\<close>, with \<open>v\<close> a \<open>uint32_t\<close> that the
  shift can drive to 0; \<open>None\<close> is a loop that never ends.\<close>

partial_function (option) ceil_log2_loop :: "u32 \<Rightarrow> u32 \<Rightarrow> nat \<Rightarrow> nat option" where
  "ceil_log2_loop n v k = (if v < n then ceil_log2_loop n (push_bit 1 v) (Suc k) else Some k)"

definition ceil_log2 :: "u32 \<Rightarrow> nat option" where
  "ceil_log2 n = (if n \<le> 1 then Some 0 else ceil_log2_loop n 1 0)"

section \<open>The intrusive free lists\<close>

definition link_load_at :: "pmm \<Rightarrow> nat \<Rightarrow> nat \<Rightarrow> nat" where
  "link_load_at s phys slot = (if slot = 0 then pm_next s phys else pm_prev s phys)"

definition link_store_at :: "pmm \<Rightarrow> nat \<Rightarrow> nat \<Rightarrow> nat \<Rightarrow> pmm" where
  "link_store_at s phys slot v =
     (if slot = 0 then s\<lparr>pm_next := (pm_next s)(phys := v)\<rparr>
      else s\<lparr>pm_prev := (pm_prev s)(phys := v)\<rparr>)"

definition zone_push :: "pmm \<Rightarrow> zptr \<Rightarrow> nat \<Rightarrow> nat \<Rightarrow> pmm" where
  "zone_push s zp pfn order =
     (let phys = pfn_to_phys pfn;
          head = z_lists (pm_zones s zp) order;
          s1 = link_store_at s phys 0 head;
          s2 = link_store_at s1 phys 1 0;
          s3 = (if head \<noteq> 0 then link_store_at s2 head 1 phys else s2);
          s4 = upd_zone zp (\<lambda>z. z\<lparr>z_lists := (z_lists z)(order := phys),
                                  z_nr := (z_nr z)(order := z_nr z order + 1)\<rparr>) s3
      in s4\<lparr>pm_state := (pm_state s4)(pfn := of_nat order)\<rparr>)"

definition zone_remove :: "pmm \<Rightarrow> zptr \<Rightarrow> nat \<Rightarrow> nat \<Rightarrow> bool \<times> pmm" where
  "zone_remove s zp pfn order =
     (let target = pfn_to_phys pfn;
          nx = link_load_at s target 0;
          pv = link_load_at s target 1
      in if pv = 0 \<and> z_lists (pm_zones s zp) order \<noteq> target then (False, s)
         else let s1 = (if pv \<noteq> 0 then link_store_at s pv 0 nx
                        else upd_zone zp (\<lambda>z. z\<lparr>z_lists := (z_lists z)(order := nx)\<rparr>) s);
                  s2 = (if nx \<noteq> 0 then link_store_at s1 nx 1 pv else s1)
              in (True, upd_zone zp (\<lambda>z. z\<lparr>z_nr := (z_nr z)(order := z_nr z order - 1)\<rparr>) s2))"

definition zone_pop :: "pmm \<Rightarrow> zptr \<Rightarrow> nat \<Rightarrow> nat \<times> pmm" where
  "zone_pop s zp order =
     (let head = z_lists (pm_zones s zp) order
      in if head = 0 then (0, s)
         else let nx = link_load_at s head 0;
                  s1 = upd_zone zp (\<lambda>z. z\<lparr>z_lists := (z_lists z)(order := nx)\<rparr>) s;
                  s2 = (if nx \<noteq> 0 then link_store_at s1 nx 1 0 else s1)
              in (phys_to_pfn head,
                  upd_zone zp (\<lambda>z. z\<lparr>z_nr := (z_nr z)(order := z_nr z order - 1)\<rparr>) s2))"

section \<open>Boot: carving and seeding\<close>

definition carve_out_range :: "pmm \<Rightarrow> nat \<Rightarrow> nat \<Rightarrow> pmm" where
  "carve_out_range s start end =
     (let st = start div PMM_FRAME_SIZE;
          e = (end + PMM_FRAME_SIZE - 1) div PMM_FRAME_SIZE;
          e' = min e (pm_nr_frames s);
          st' = max st (pm_base s)
      in s\<lparr>pm_state := fold (\<lambda>i ps. ps(i := PS_NONE)) [st'..<e'] (pm_state s)\<rparr>)"

definition seed_mark_available :: "pmm \<Rightarrow> nat \<Rightarrow> pmm" where
  "seed_mark_available s pfn =
     (if pfn \<ge> pm_nr_frames s \<or> pfn < pm_base s then s
      else if pm_state s pfn = PS_NONE then s\<lparr>pm_state := (pm_state s)(pfn := PS_USED)\<rparr>
      else s)"

text \<open>The end of the run of usable frames of one zone and one node that starts at \<open>pfn\<close>.\<close>

function seed_run_end :: "pmm \<Rightarrow> zptr \<Rightarrow> nat \<Rightarrow> nat \<Rightarrow> nat" where
  "seed_run_end s zp lim r =
     (if r < z_end (pm_zones s zp) \<and> r < lim \<and> pm_state s r = PS_USED
         \<and> node_of_pfn s r = z_node (pm_zones s zp)
      then seed_run_end s zp lim (Suc r) else r)"
  by pat_completeness auto
termination
  by (relation "measure (\<lambda>(s, zp, lim, r). lim - r)") auto

text \<open>The largest order that is aligned at \<open>pfn\<close> and fits before \<open>run_end\<close>.\<close>

fun seed_order :: "nat \<Rightarrow> nat \<Rightarrow> nat \<Rightarrow> nat" where
  "seed_order pfn run_end 0 = 0"
| "seed_order pfn run_end (Suc k) =
     (if pfn AND (2 ^ Suc k - 1) = 0 \<and> pfn + 2 ^ Suc k \<le> run_end then Suc k
      else seed_order pfn run_end k)"

definition seed_block :: "pmm \<Rightarrow> zptr \<Rightarrow> nat \<Rightarrow> nat \<Rightarrow> pmm" where
  "seed_block s zp pfn order =
     upd_zone zp (\<lambda>z. z\<lparr>z_free := z_free z + 2 ^ order, z_managed := z_managed z + 2 ^ order\<rparr>)
       (zone_push s zp pfn order)"

function seed_run :: "pmm \<Rightarrow> zptr \<Rightarrow> nat \<Rightarrow> nat \<Rightarrow> nat \<Rightarrow> pmm \<times> nat \<times> nat" where
  "seed_run s zp pfn run_end freed =
     (if pfn < run_end then
        (let order = seed_order pfn run_end BUDDY_MAX_ORDER
         in seed_run (seed_block s zp pfn order) zp (pfn + 2 ^ order) run_end (freed + 2 ^ order))
      else (s, pfn, freed))"
  by pat_completeness auto
termination
  by (relation "measure (\<lambda>(s, zp, pfn, run_end, freed). run_end - pfn)")
    (auto intro!: diff_less_mono2)

text \<open>
  The outer loop of \<open>seed_range\<close>.  It advances only when the run it finds is not empty, so it is an
  option-valued loop: \<open>None\<close> would be a boot that never ends.
\<close>

partial_function (option) seed_range_loop :: "pmm \<Rightarrow> nat \<Rightarrow> nat \<Rightarrow> nat \<Rightarrow> (pmm \<times> nat) option" where
  "seed_range_loop s pfn lim freed =
     (if pfn < lim then
        (if pm_state s pfn \<noteq> PS_USED then seed_range_loop s (Suc pfn) lim freed
         else (case zone_for_pfn s pfn of
                 None \<Rightarrow> seed_range_loop s (Suc pfn) lim freed
               | Some zp \<Rightarrow>
                   (case seed_run s zp pfn (seed_run_end s zp lim pfn) freed of
                      (s', pfn', freed') \<Rightarrow> seed_range_loop s' pfn' lim freed')))
      else Some (s, freed))"

definition seed_range :: "pmm \<Rightarrow> nat \<Rightarrow> nat \<Rightarrow> (pmm \<times> nat) option" where
  "seed_range s from lim = seed_range_loop s from lim 0"

definition pmm_seed_deferred :: "pmm \<Rightarrow> pmm option" where
  "pmm_seed_deferred s =
     (if pm_deferred_from s \<ge> pm_nr_frames s then Some s
      else (case seed_range s (pm_deferred_from s) (pm_nr_frames s) of
              None \<Rightarrow> None
            | Some (s', n) \<Rightarrow> Some (s'\<lparr>pm_deferred_from := pm_nr_frames s'\<rparr>)))"

section \<open>Allocation and release inside one zone\<close>

text \<open>The smallest non-empty order at or above the requested one; \<open>BUDDY_MAX_ORDER + 1\<close> when
  every list is empty.\<close>

function first_order :: "zone \<Rightarrow> nat \<Rightarrow> nat" where
  "first_order z k =
     (if k \<le> BUDDY_MAX_ORDER \<and> z_lists z k = 0 then first_order z (Suc k) else k)"
  by pat_completeness auto
termination
  by (relation "measure (\<lambda>(z, k). Suc BUDDY_MAX_ORDER - k)") auto

fun split_down :: "pmm \<Rightarrow> zptr \<Rightarrow> nat \<Rightarrow> nat \<Rightarrow> nat \<Rightarrow> pmm" where
  "split_down s zp pfn order 0 = s"
| "split_down s zp pfn order (Suc k) =
     (if Suc k > order then split_down (zone_push s zp (pfn + 2 ^ k) k) zp pfn order k else s)"

definition mark_used :: "pmm \<Rightarrow> nat \<Rightarrow> nat \<Rightarrow> pmm" where
  "mark_used s pfn span =
     s\<lparr>pm_state := fold (\<lambda>i ps. ps(pfn + i := PS_USED)) [0..<span] (pm_state s)\<rparr>"

definition buddy_alloc_in_zone :: "pmm \<Rightarrow> zptr \<Rightarrow> int \<Rightarrow> nat \<times> pmm" where
  "buddy_alloc_in_zone s zp order =
     (if order < 0 \<or> order > int BUDDY_MAX_ORDER then (0, s)
      else let ord = nat order;
               k = first_order (pm_zones s zp) ord
           in if k > BUDDY_MAX_ORDER then (0, s)
              else let (pfn, s1) = zone_pop s zp k;
                       s2 = split_down s1 zp pfn ord k;
                       s3 = mark_used s2 pfn (2 ^ ord);
                       s4 = upd_zone zp (\<lambda>z. z\<lparr>z_free := z_free z - 2 ^ ord\<rparr>) s3
                   in (pfn, s4))"

function buddy_merge :: "pmm \<Rightarrow> zptr \<Rightarrow> nat \<Rightarrow> nat \<Rightarrow> pmm \<times> nat \<times> nat" where
  "buddy_merge s zp pfn order =
     (if order < BUDDY_MAX_ORDER then
        (let b = pfn XOR 2 ^ order; z = pm_zones s zp
         in if b \<ge> pm_nr_frames s \<or> b < pm_base s then (s, pfn, order)
            else if b < z_start z \<or> b \<ge> z_end z then (s, pfn, order)
            else if pm_numa_live s \<and> node_of_pfn s b \<noteq> z_node z then (s, pfn, order)
            else if pm_state s b \<noteq> of_nat order then (s, pfn, order)
            else (case zone_remove s zp b order of
                    (False, s') \<Rightarrow> (s', pfn, order)
                  | (True, s') \<Rightarrow> buddy_merge s' zp (if b < pfn then b else pfn) (Suc order)))
      else (s, pfn, order))"
  by pat_completeness auto
termination
  by (relation "measure (\<lambda>(s, zp, pfn, order). BUDDY_MAX_ORDER - order)") auto

definition buddy_free_in_zone :: "pmm \<Rightarrow> zptr \<Rightarrow> nat \<Rightarrow> int \<Rightarrow> pmm" where
  "buddy_free_in_zone s zp pfn order =
     (if order < 0 \<or> order > int BUDDY_MAX_ORDER then s
      else let ord = nat order;
               s1 = upd_zone zp (\<lambda>z. z\<lparr>z_free := z_free z + 2 ^ ord\<rparr>) s;
               (s2, p, k) = buddy_merge s1 zp pfn ord
           in zone_push s2 zp p k)"

section \<open>The public interface\<close>

text \<open>
  What other components answer during a call: whether fault injection fails this allocation
  (\<open>alloc_fail_injected\<close>), the NUMA node of the running CPU, the configured reserve in KiB
  (\<open>config_get_long\<close>) and whether the page cache still holds a frame (\<open>pcache_owns_frame\<close>).
\<close>

record pmm_env =
  env_fail_injected :: bool
  env_numa_node :: int
  env_reserve_kb :: int
  env_pcache_owns :: "nat \<Rightarrow> bool"

text \<open>
  The scan of \<open>page_alloc_below\<close> along one free list.  The walk follows the links for at most
  \<open>fuel\<close> blocks; a list holds at most \<open>pmm_nr_frames\<close> blocks, which is the fuel its caller gives.
\<close>

primrec below_walk :: "nat \<Rightarrow> pmm \<Rightarrow> zptr \<Rightarrow> nat \<Rightarrow> nat \<Rightarrow> nat \<Rightarrow> nat \<Rightarrow> (nat \<times> pmm) option" where
  "below_walk 0 s zp order k limit cur = None"
| "below_walk (Suc fuel) s zp order k limit cur =
     (if cur = 0 then None
      else if cur + 4096 * 2 ^ order - 1 > limit
        then below_walk fuel s zp order k limit (link_load_at s cur 0)
      else (case zone_remove s zp (phys_to_pfn cur) k of
              (False, s') \<Rightarrow> below_walk fuel s' zp order k limit (link_load_at s' cur 0)
            | (True, s') \<Rightarrow> Some (cur, split_down s' zp (phys_to_pfn cur) order k)))"

fun below_orders :: "pmm \<Rightarrow> zptr \<Rightarrow> nat \<Rightarrow> nat \<Rightarrow> nat list \<Rightarrow> (nat \<times> pmm) option" where
  "below_orders s zp order limit [] = None"
| "below_orders s zp order limit (k # ks) =
     (case below_walk (Suc (pm_nr_frames s)) s zp order k limit (z_lists (pm_zones s zp) k) of
        None \<Rightarrow> below_orders s zp order limit ks
      | Some r \<Rightarrow> Some r)"

fun below_zones :: "pmm \<Rightarrow> nat \<Rightarrow> nat \<Rightarrow> zptr list \<Rightarrow> nat \<times> pmm" where
  "below_zones s order limit [] = (PMM_ALLOC_FAIL, s)"
| "below_zones s order limit (zp # zps) =
     (case below_orders s zp order limit [order..<Suc BUDDY_MAX_ORDER] of
        None \<Rightarrow> below_zones s order limit zps
      | Some r \<Rightarrow> r)"

definition page_alloc_below :: "pmm \<Rightarrow> int \<Rightarrow> nat \<Rightarrow> nat \<times> pmm" where
  "page_alloc_below s order limit =
     (if order < 0 \<or> order > int BUDDY_MAX_ORDER then (PMM_ALLOC_FAIL, s)
      else below_zones s (nat order) limit
             [(zn mod pm_nr_nodes s, [ZONE_DMA, ZONE_DMA32, ZONE_NORMAL] ! (zn div pm_nr_nodes s)).
                zn \<leftarrow> [0..<3 * pm_nr_nodes s]])"

definition pmm_local_node :: "pmm \<Rightarrow> pmm_env \<Rightarrow> int" where
  "pmm_local_node s env =
     (if pm_nr_nodes s \<le> 1 then 0
      else let n = env_numa_node env in if n \<ge> 0 \<and> n < int (pm_nr_nodes s) then n else 0)"

definition zone_try_order :: "int \<Rightarrow> nat list" where
  "zone_try_order zone_hint =
     (if zone_hint = int ZONE_HIGHMEM then [ZONE_HIGHMEM, ZONE_NORMAL, ZONE_DMA32, ZONE_DMA]
      else if zone_hint = int ZONE_DMA then [ZONE_DMA]
      else if zone_hint = int ZONE_DMA32 then [ZONE_DMA32, ZONE_DMA]
      else [ZONE_NORMAL, ZONE_DMA32, ZONE_DMA])"

definition alloc_candidates :: "nat \<Rightarrow> nat \<Rightarrow> nat list \<Rightarrow> zptr list" where
  "alloc_candidates nr_nodes node tries =
     [(if k = 0 then node else if k \<le> node then k - 1 else k, zi).
        pass \<leftarrow> [0, 1 :: nat], k \<leftarrow> [0..<nr_nodes], zi \<leftarrow> tries, (zi = ZONE_DMA) = (pass = 1)]"

fun try_zones :: "pmm \<Rightarrow> int \<Rightarrow> nat \<Rightarrow> zptr list \<Rightarrow> nat \<times> pmm" where
  "try_zones s order node [] = (PMM_ALLOC_FAIL, s)"
| "try_zones s order node (zp # zps) =
     (case buddy_alloc_in_zone s zp order of
        (pfn, s') \<Rightarrow>
          if pfn = 0 then try_zones s' order node zps
          else (pfn_to_phys pfn,
                if pm_nr_nodes s' > 1 then
                  (if fst zp = node then s'\<lparr>pm_hit := (pm_hit s')(node := pm_hit s' node + 1)\<rparr>
                   else s'\<lparr>pm_miss := (pm_miss s')(node := pm_miss s' node + 1)\<rparr>)
                else s'))"

definition page_alloc_node :: "pmm \<Rightarrow> int \<Rightarrow> int \<Rightarrow> int \<Rightarrow> nat \<times> pmm" where
  "page_alloc_node s order zone_hint node =
     (let nd = (if node < 0 \<or> node \<ge> int (pm_nr_nodes s) then 0 else nat node)
      in if order < 0 \<or> order > int BUDDY_MAX_ORDER then (PMM_ALLOC_FAIL, s)
         else try_zones s order nd
                (alloc_candidates (pm_nr_nodes s) nd (zone_try_order zone_hint)))"

definition page_alloc :: "pmm_env \<Rightarrow> pmm \<Rightarrow> int \<Rightarrow> int \<Rightarrow> nat \<times> pmm" where
  "page_alloc env s order zone_hint =
     (if env_fail_injected env then (PMM_ALLOC_FAIL, s)
      else page_alloc_node s order zone_hint (pmm_local_node s env))"

definition page_free :: "pmm \<Rightarrow> nat \<Rightarrow> int \<Rightarrow> pmm" where
  "page_free s phys order =
     (if phys = 0 then s
      else if phys AND (PMM_FRAME_SIZE - 1) \<noteq> 0 then s
      else let pfn = phys_to_pfn phys
           in (case zone_for_pfn s pfn of
                 None \<Rightarrow> s
               | Some zp \<Rightarrow> buddy_free_in_zone s zp pfn order))"

definition pmm_alloc_frame :: "pmm_env \<Rightarrow> pmm \<Rightarrow> nat \<times> pmm" where
  "pmm_alloc_frame env s = page_alloc env s 0 ZONE_DEFAULT"

definition pmm_alloc_frame_dma32 :: "pmm_env \<Rightarrow> pmm \<Rightarrow> nat \<times> pmm" where
  "pmm_alloc_frame_dma32 env s = page_alloc env s 0 (int ZONE_DMA32)"

definition pmm_free_frame :: "pmm_env \<Rightarrow> pmm \<Rightarrow> nat \<Rightarrow> pmm" where
  "pmm_free_frame env s addr = (if env_pcache_owns env addr then s else page_free s addr 0)"

text \<open>The contiguous interface; \<open>None\<close> is a call that does not return (see \<open>ceil_log2\<close>).\<close>

definition pmm_alloc_contiguous :: "pmm_env \<Rightarrow> pmm \<Rightarrow> u32 \<Rightarrow> (nat \<times> pmm) option" where
  "pmm_alloc_contiguous env s n =
     (if n = 0 then Some (PMM_ALLOC_FAIL, s)
      else if n = 1 then Some (page_alloc env s 0 ZONE_DEFAULT)
      else (case ceil_log2 n of
              None \<Rightarrow> None
            | Some order \<Rightarrow>
                Some (if order > BUDDY_MAX_ORDER then (PMM_ALLOC_FAIL, s)
                      else page_alloc env s (int order) ZONE_DEFAULT)))"

definition pmm_alloc_contiguous_dma :: "pmm_env \<Rightarrow> pmm \<Rightarrow> u32 \<Rightarrow> int \<Rightarrow> (nat \<times> pmm) option" where
  "pmm_alloc_contiguous_dma env s n addr_bits =
     (if n = 0 then Some (PMM_ALLOC_FAIL, s)
      else (case ceil_log2 n of
              None \<Rightarrow> None
            | Some order \<Rightarrow>
                Some (if order > BUDDY_MAX_ORDER then (PMM_ALLOC_FAIL, s)
                      else page_alloc env s (int order)
                             (if addr_bits > 32 then int ZONE_NORMAL else int ZONE_DMA32))))"

definition pmm_alloc_contiguous_dma32 :: "pmm_env \<Rightarrow> pmm \<Rightarrow> u32 \<Rightarrow> (nat \<times> pmm) option" where
  "pmm_alloc_contiguous_dma32 env s n =
     (if n = 0 then Some (PMM_ALLOC_FAIL, s)
      else (case ceil_log2 n of
              None \<Rightarrow> None
            | Some order \<Rightarrow>
                Some (if order > BUDDY_MAX_ORDER then (PMM_ALLOC_FAIL, s)
                      else page_alloc env s (int order) (int ZONE_DMA32))))"

definition pmm_free_contiguous :: "pmm \<Rightarrow> nat \<Rightarrow> u32 \<Rightarrow> pmm option" where
  "pmm_free_contiguous s addr n =
     (if addr = PMM_ALLOC_FAIL \<or> n = 0 then Some s
      else (case ceil_log2 n of
              None \<Rightarrow> None
            | Some order \<Rightarrow>
                Some (if order > BUDDY_MAX_ORDER then s else page_free s addr (int order))))"

section \<open>Statistics and the reserve\<close>

definition sum_zones :: "pmm \<Rightarrow> bool \<Rightarrow> u32" where
  "sum_zones s free =
     fold (\<lambda>nd t. fold (\<lambda>zi t. t + (if free then z_free (pm_zones s (nd, zi))
                                       else z_managed (pm_zones s (nd, zi)))) [0..<NR_ZONES] t)
       [0..<pm_nr_nodes s] 0"

definition pmm_managed_frames :: "pmm \<Rightarrow> u32" where "pmm_managed_frames s = sum_zones s False"
definition pmm_free_frames :: "pmm \<Rightarrow> u32" where "pmm_free_frames s = sum_zones s True"
definition pmm_used_frames :: "pmm \<Rightarrow> u32" where
  "pmm_used_frames s = pmm_managed_frames s - pmm_free_frames s"

text \<open>\<open>reserve_frames\<close> caches the configured value; a negative cache means "not read yet".  The
  quotient is narrowed to a C \<open>int\<close>.\<close>

definition reserve_frames :: "pmm_env \<Rightarrow> pmm \<Rightarrow> int \<times> pmm" where
  "reserve_frames env s =
     (if pm_reserve s < 0 then
        (let kb = max 0 (env_reserve_kb env);
             r = sint (word_of_int (kb div 4) :: u32)
         in (r, s\<lparr>pm_reserve := r\<rparr>))
      else (pm_reserve s, s))"

definition reserve_allows :: "pmm_env \<Rightarrow> pmm \<Rightarrow> u32 \<Rightarrow> bool \<times> pmm" where
  "reserve_allows env s n =
     (let fr = pmm_free_frames s;
          (ri, s1) = reserve_frames env s;
          r = word_of_int ri :: u32
      in if fr \<ge> r + n then
           (True, if pm_low s1 \<and> fr > r + r div 4 + 64 then s1\<lparr>pm_low := False\<rparr> else s1)
         else (False, s1\<lparr>pm_refused := pm_refused s1 + 1, pm_low := True\<rparr>))"

definition pmm_reserve_changed :: "pmm \<Rightarrow> pmm" where
  "pmm_reserve_changed s = s\<lparr>pm_reserve := -1\<rparr>"

definition pmm_alloc_frame_user :: "pmm_env \<Rightarrow> pmm \<Rightarrow> nat \<times> pmm" where
  "pmm_alloc_frame_user env s =
     (case reserve_allows env s 1 of
        (False, s1) \<Rightarrow> (PMM_ALLOC_FAIL, s1)
      | (True, s1) \<Rightarrow> page_alloc env s1 0 (int ZONE_HIGHMEM))"

definition pmm_alloc_frame_user_low :: "pmm_env \<Rightarrow> pmm \<Rightarrow> nat \<times> pmm" where
  "pmm_alloc_frame_user_low env s =
     (case reserve_allows env s 1 of
        (False, s1) \<Rightarrow> (PMM_ALLOC_FAIL, s1)
      | (True, s1) \<Rightarrow> page_alloc env s1 0 ZONE_DEFAULT)"

definition pmm_frame_is_managed :: "pmm \<Rightarrow> nat \<Rightarrow> bool" where
  "pmm_frame_is_managed s phys =
     (let pfn = phys_to_pfn phys
      in pfn \<ge> pm_base s \<and> pfn < pm_nr_frames s \<and> pm_state s pfn \<noteq> PS_NONE)"

section \<open>NUMA: recording ranges and re-homing free blocks\<close>

definition pmm_numa_add_range :: "pmm \<Rightarrow> nat \<Rightarrow> nat \<Rightarrow> int \<Rightarrow> int \<times> pmm" where
  "pmm_numa_add_range s base len node =
     (if pm_numa_committed s \<or> node < 0 \<or> node \<ge> int PMM_MAX_NODES \<or> len = 0 then (-1, s)
      else if length (pm_ranges s) = PMM_MAX_RANGES then (-1, s)
      else let st = base div PMM_FRAME_SIZE;
               e = (base + len) mod 2 ^ 64 div PMM_FRAME_SIZE
           in if st \<ge> pm_nr_frames s then (0, s)
              else let e' = min e (pm_nr_frames s)
                   in if e' \<le> st then (0, s)
                      else (0, s\<lparr>pm_ranges := pm_ranges s @
                                   [\<lparr>nrg_start = st, nrg_end = e', nrg_node = nat node\<rparr>]\<rparr>))"

definition block_node :: "pmm \<Rightarrow> nat \<Rightarrow> nat \<Rightarrow> nat option" where
  "block_node s pfn order =
     (let e = pfn + 2 ^ order
      in if \<exists>r \<in> set (pm_ranges s). nrg_start r > pfn \<and> nrg_start r < e
                                 \<or> nrg_end r > pfn \<and> nrg_end r < e
         then None else Some (node_of_pfn s pfn))"

text \<open>A block that straddles a boundary is halved.  A single frame never straddles one, so the
  first equation's empty case is not reached.\<close>

fun rehome_block :: "pmm \<Rightarrow> nat \<Rightarrow> nat \<Rightarrow> nat \<Rightarrow> pmm" where
  "rehome_block s zi pfn order =
     (case block_node s pfn order of
        None \<Rightarrow>
          (case order of
             0 \<Rightarrow> s
           | Suc k \<Rightarrow> rehome_block (rehome_block s zi pfn k) zi (pfn + 2 ^ k) k)
      | Some nd \<Rightarrow>
          upd_zone (nd, zi) (\<lambda>z. z\<lparr>z_free := z_free z + 2 ^ order\<rparr>)
            (zone_push s (nd, zi) pfn order))"

primrec rehome_chain :: "nat \<Rightarrow> pmm \<Rightarrow> nat \<Rightarrow> nat \<Rightarrow> nat \<Rightarrow> pmm" where
  "rehome_chain 0 s zi k cur = s"
| "rehome_chain (Suc fuel) s zi k cur =
     (if cur = 0 then s
      else let nx = link_load_at s cur 0
           in rehome_chain fuel (rehome_block s zi (phys_to_pfn cur) k) zi k nx)"

definition rehome_zone :: "nat \<Rightarrow> nat \<Rightarrow> pmm \<Rightarrow> pmm" where
  "rehome_zone topn zi s =
     (let heads = z_lists (pm_zones s (0, zi));
          s1 = upd_zone (0, zi) (\<lambda>z. z\<lparr>z_lists := \<lambda>k. if k \<le> BUDDY_MAX_ORDER then 0 else z_lists z k,
                 z_nr := \<lambda>k. if k \<le> BUDDY_MAX_ORDER then 0 else z_nr z k, z_free := 0\<rparr>) s;
          s2 = s1\<lparr>pm_nr_nodes := topn + 1\<rparr>
      in fold (\<lambda>k s. rehome_chain (Suc (pm_nr_frames s)) s zi k (heads k))
           [0..<Suc BUDDY_MAX_ORDER] s2)"

definition recount_managed :: "pmm \<Rightarrow> pmm" where
  "recount_managed s =
     (let s1 = fold (\<lambda>nd s. fold (\<lambda>zi s. upd_zone (nd, zi) (\<lambda>z. z\<lparr>z_managed := 0\<rparr>) s)
                                    [0..<NR_ZONES] s) [0..<pm_nr_nodes s] s
      in fold (\<lambda>pfn s. if pm_state s pfn = PS_NONE then s
                        else (case zone_for_pfn s pfn of
                                None \<Rightarrow> s
                              | Some zp \<Rightarrow> upd_zone zp (\<lambda>z. z\<lparr>z_managed := z_managed z + 1\<rparr>) s))
           [pm_base s1..<pm_nr_frames s1] s1)"

definition pmm_numa_commit :: "pmm \<Rightarrow> pmm" where
  "pmm_numa_commit s =
     (if pm_numa_committed s then s
      else let s1 = s\<lparr>pm_numa_committed := True\<rparr>;
               topn = fold (\<lambda>r t. if nrg_node r > t then nrg_node r else t) (pm_ranges s1) 0
           in if pm_ranges s1 = [] \<or> topn = 0 then s1\<lparr>pm_ranges := []\<rparr>
              else recount_managed
                     (fold (rehome_zone topn) [0..<NR_ZONES] (s1\<lparr>pm_numa_live := True\<rparr>)))"

section \<open>The free-list validator\<close>

text \<open>
  \<open>pmm_validate\<close> walks every free list and reports the first anomaly; the walk is bounded by
  \<open>nr_at_order + 4\<close> blocks.  The model returns whether it reports the lists consistent; \<open>fuel\<close> is
  the number of blocks the guard still admits.
\<close>

primrec validate_walk :: "nat \<Rightarrow> pmm \<Rightarrow> zptr \<Rightarrow> nat \<Rightarrow> nat \<Rightarrow> nat \<Rightarrow> nat \<Rightarrow> bool" where
  "validate_walk 0 s zp k cur prevnode walked =
     (if cur = 0 then (of_nat walked :: u32) = z_nr (pm_zones s zp) k else False)"
| "validate_walk (Suc fuel) s zp k cur prevnode walked =
     (if cur = 0 then (of_nat walked :: u32) = z_nr (pm_zones s zp) k
      else if cur AND (PMM_FRAME_SIZE - 1) \<noteq> 0 then False
      else let pfn = phys_to_pfn cur
           in if pfn \<ge> pm_nr_frames s \<or> pfn < pm_base s then False
              else if node_of_pfn s pfn \<noteq> z_node (pm_zones s zp) then False
              else if pm_state s pfn \<noteq> of_nat k then False
              else if link_load_at s cur 1 \<noteq> prevnode then False
              else validate_walk fuel s zp k (link_load_at s cur 0) cur (Suc walked))"

definition pmm_validate :: "pmm \<Rightarrow> bool" where
  "pmm_validate s =
     list_all (\<lambda>zn. let zp = (zn div NR_ZONES, zn mod NR_ZONES); z = pm_zones s zp
                    in list_all (\<lambda>k. validate_walk (unat (z_nr z k + 4)) s zp k (z_lists z k) 0 0)
                         [0..<Suc BUDDY_MAX_ORDER])
       [0..<NR_ZONES * pm_nr_nodes s]"

declare seed_run_end.simps [simp del] seed_run.simps [simp del] first_order.simps [simp del]
  buddy_merge.simps [simp del] rehome_block.simps [simp del]

end
