(* ===== verification/Pmm_Inv.thy ===== *)
theory Pmm_Inv
  imports Pmm
begin

text \<open>
  The invariant of the frame allocator and its preservation by the list operations of
  \<open>kernel/mem/pmm.c\<close>.

  \<open>L :: zptr \<times> nat \<Rightarrow> nat list\<close> is the abstract view of the free lists: for a zone and an order, the
  frame numbers of the free blocks in list order.  \<open>pmm_core s L H\<close> relates it to the memory: the
  intrusive links spell exactly \<open>L\<close>, every block is aligned, lies inside its zone and carries its
  order in \<open>page_state\<close>, no two blocks share a frame, and every frame outside the blocks is marked
  used or absent.  \<open>H\<close> is the set of frames in transit inside one critical section: taken off a
  list and not yet marked, or being released and not yet listed.
\<close>

section \<open>Blocks and buddies\<close>

definition blk :: "nat \<Rightarrow> nat \<Rightarrow> nat set" where
  "blk p k = {p..<p + 2 ^ k}"

lemma blk_self [simp]: "p \<in> blk p k"
  by (simp add: blk_def)

lemma blk_0 [simp]: "blk p 0 = {p}"
  by (auto simp: blk_def)

lemma finite_blk [simp]: "finite (blk p k)"
  by (simp add: blk_def)

lemma card_blk [simp]: "card (blk p k) = 2 ^ k"
  by (simp add: blk_def)

lemma blk_Suc: "blk p (Suc k) = blk p k \<union> blk (p + 2 ^ k) k"
  by (auto simp: blk_def)

lemma blk_halves_disjoint: "blk p k \<inter> blk (p + 2 ^ k) k = {}"
  by (auto simp: blk_def)

lemma aligned_iff: "2 ^ k dvd (p :: nat) \<Longrightarrow> f \<in> blk p k \<longleftrightarrow> f div 2 ^ k = p div 2 ^ k"
proof -
  assume "2 ^ k dvd p"
  then obtain q where p: "p = 2 ^ k * q" ..
  have "q \<le> f div 2 ^ k \<longleftrightarrow> q * 2 ^ k \<le> f" and "f div 2 ^ k < q + 1 \<longleftrightarrow> f < (q + 1) * 2 ^ k"
    by (rule less_eq_div_iff_mult_less_eq, simp) (rule div_less_iff_less_mult, simp)
  moreover have "f \<in> blk p k \<longleftrightarrow> q * 2 ^ k \<le> f \<and> f < (q + 1) * 2 ^ k"
    by (auto simp: blk_def p algebra_simps)
  ultimately have "f \<in> blk p k \<longleftrightarrow> f div 2 ^ k = q"
    by linarith
  then show ?thesis by (simp add: p)
qed

text \<open>Aligned blocks are nested or disjoint.\<close>

lemma aligned_nested:
  assumes "2 ^ k dvd p" and "2 ^ j dvd q" and "k \<le> j" and "blk p k \<inter> blk q j \<noteq> {}"
  shows "blk p k \<subseteq> blk q j"
proof
  fix f assume "f \<in> blk p k"
  then have f: "f div 2 ^ k = p div 2 ^ k"
    using aligned_iff [OF assms(1)] by simp
  obtain g where g: "g \<in> blk p k" "g \<in> blk q j"
    using assms(4) by blast
  have gk: "g div 2 ^ k = p div 2 ^ k" and gj: "g div 2 ^ j = q div 2 ^ j"
    using g aligned_iff assms(1,2) by blast+
  have "(2::nat) ^ j = 2 ^ k * 2 ^ (j - k)"
    using assms(3) by (simp flip: power_add)
  then have "f div 2 ^ j = g div 2 ^ j"
    using f gk by (simp add: div_mult2_eq)
  then show "f \<in> blk q j"
    using aligned_iff [OF assms(2)] gj by simp
qed

text \<open>The buddy of a block, \<open>pfn ^ (1 << order)\<close>.\<close>

definition buddy :: "nat \<Rightarrow> nat \<Rightarrow> nat" where
  "buddy p k = p XOR 2 ^ k"

lemma buddy_eq:
  assumes "2 ^ k dvd p"
  shows "buddy p k = (if even (p div 2 ^ k) then p + 2 ^ k else p - 2 ^ k)"
proof -
  obtain q where p: "p = 2 ^ k * q"
    using assms ..
  have "buddy p k = push_bit k (q XOR 1)"
    unfolding push_bit_xor by (simp add: buddy_def p push_bit_eq_mult mult.commute)
  also have "q XOR 1 = (if even q then q + 1 else q - 1)"
    by (simp only: xor_one_eq) auto
  also have "push_bit k \<dots> = (if even q then p + 2 ^ k else p - 2 ^ k)"
    by (auto simp: push_bit_eq_mult p algebra_simps diff_mult_distrib2)
  finally show ?thesis by (simp add: p)
qed

lemma buddy_aligned: "2 ^ k dvd p \<Longrightarrow> 2 ^ k dvd buddy p k"
  by (auto simp: buddy_eq intro: dvd_diff_nat)

lemma odd_div_ge: "odd (p div 2 ^ k) \<Longrightarrow> 2 ^ k \<le> (p :: nat)"
  by (metis div_less even_zero linorder_not_le)

lemma buddy_union:
  assumes "2 ^ k dvd p"
  shows "blk p k \<union> blk (buddy p k) k = blk (min (buddy p k) p) (Suc k)"
    and "blk p k \<inter> blk (buddy p k) k = {}"
    and "2 ^ Suc k dvd min (buddy p k) p"
proof -
  obtain q where p: "p = 2 ^ k * q"
    using assms ..
  show "blk p k \<union> blk (buddy p k) k = blk (min (buddy p k) p) (Suc k)"
    using odd_div_ge [of p k] by (auto simp: buddy_eq [OF assms] blk_def)
  show "blk p k \<inter> blk (buddy p k) k = {}"
    using odd_div_ge [of p k] by (auto simp: buddy_eq [OF assms] blk_def)
  show "2 ^ Suc k dvd min (buddy p k) p"
  proof (cases "even q")
    case True
    then obtain r where "q = 2 * r" ..
    then have "min (buddy p k) p = 2 ^ Suc k * r"
      using buddy_eq [OF assms] by (simp add: p)
    then show ?thesis by simp
  next
    case False
    then obtain r where "q = 2 * r + 1" by (rule oddE)
    then have "p - 2 ^ k = 2 ^ Suc k * r" "min (buddy p k) p = p - 2 ^ k"
      using buddy_eq [OF assms] by (simp_all add: p algebra_simps)
    then show ?thesis by simp
  qed
qed

lemma buddy_min_dvd: "2 ^ Suc k dvd p \<Longrightarrow> buddy p k = p + 2 ^ k"
proof -
  assume a: "2 ^ Suc k dvd p"
  then obtain r where p: "p = 2 ^ Suc k * r" ..
  have "2 ^ k dvd p" using a by (metis dvd_trans le_imp_power_dvd le_SucI order_refl)
  moreover have "p div 2 ^ k = 2 * r" by (simp add: p)
  ultimately show ?thesis by (simp add: buddy_eq)
qed

lemma buddy_buddy: "buddy (buddy p k) k = p"
  by (simp add: buddy_def xor.assoc)

section \<open>Addresses\<close>

lemma pfn_to_phys_mult: "pfn_to_phys p = 4096 * p"
  by (simp add: pfn_to_phys_def push_bit_eq_mult)

lemma pfn_to_phys_0_iff [simp]: "pfn_to_phys p = 0 \<longleftrightarrow> p = 0"
  by (simp add: pfn_to_phys_mult)

lemma pfn_to_phys_pos [simp]: "0 < pfn_to_phys p \<longleftrightarrow> 0 < p"
  by (simp add: pfn_to_phys_mult)

lemma pfn_to_phys_inj [simp]: "pfn_to_phys p = pfn_to_phys q \<longleftrightarrow> p = q"
  by (simp add: pfn_to_phys_mult)

lemma inj_pfn_to_phys: "inj_on pfn_to_phys A"
  by (simp add: inj_on_def)

lemma phys_to_pfn_to_phys: "p < 2 ^ 32 \<Longrightarrow> phys_to_pfn (pfn_to_phys p) = p"
  by (simp add: phys_to_pfn_def pfn_to_phys_mult drop_bit_eq_div take_bit_nat_eq_self)

lemma pfn_to_phys_aligned: "pfn_to_phys p AND 4095 = 0"
proof -
  have "pfn_to_phys p AND 4095 = take_bit 12 (pfn_to_phys p)"
    by (simp add: take_bit_eq_mask mask_eq_exp_minus_1)
  then show ?thesis by (simp add: pfn_to_phys_def take_bit_push_bit)
qed

section \<open>What no operation changes\<close>

text \<open>The managed span, the affinity ranges and the zone bounds: fixed while the allocator serves
  requests.\<close>

definition pm_static ::
    "pmm \<Rightarrow> nat \<times> nat \<times> nat \<times> node_range list \<times> bool \<times> nat \<times> (zptr \<Rightarrow> nat \<times> nat \<times> nat)" where
  "pm_static s = (pm_nr_frames s, pm_base s, pm_direct_end s, pm_ranges s, pm_numa_live s,
     pm_nr_nodes s, \<lambda>zp. (z_start (pm_zones s zp), z_end (pm_zones s zp), z_node (pm_zones s zp)))"

lemma pm_staticD:
  assumes "pm_static s = pm_static t"
  shows "pm_nr_frames s = pm_nr_frames t" and "pm_base s = pm_base t"
    and "pm_direct_end s = pm_direct_end t" and "pm_ranges s = pm_ranges t"
    and "pm_numa_live s = pm_numa_live t" and "pm_nr_nodes s = pm_nr_nodes t"
    and "z_start (pm_zones s zp) = z_start (pm_zones t zp)"
    and "z_end (pm_zones s zp) = z_end (pm_zones t zp)"
    and "z_node (pm_zones s zp) = z_node (pm_zones t zp)"
  using assms by (cases zp; simp add: pm_static_def fun_eq_iff)+

lemma pm_static_node_of_pfn:
  "pm_static s = pm_static t \<Longrightarrow> node_of_pfn s = node_of_pfn t"
  by (auto simp: fun_eq_iff node_of_pfn_def dest: pm_staticD)

lemma pm_static_zone_for_pfn:
  "pm_static s = pm_static t \<Longrightarrow> zone_for_pfn s = zone_for_pfn t"
  using pm_staticD(1-3) [of s t] pm_static_node_of_pfn [of s t]
  by (auto simp: fun_eq_iff zone_for_pfn_def zone_of_pfn_def)

lemma pm_static_simps [simp]:
  "pm_static (s\<lparr>pm_state := ps\<rparr>) = pm_static s"
  "pm_static (s\<lparr>pm_next := nx\<rparr>) = pm_static s"
  "pm_static (s\<lparr>pm_prev := pv\<rparr>) = pm_static s"
  "pm_static (s\<lparr>pm_hit := h\<rparr>) = pm_static s"
  "pm_static (s\<lparr>pm_miss := h\<rparr>) = pm_static s"
  "pm_static (s\<lparr>pm_reserve := r\<rparr>) = pm_static s"
  "pm_static (s\<lparr>pm_low := b\<rparr>) = pm_static s"
  "pm_static (s\<lparr>pm_refused := c\<rparr>) = pm_static s"
  by (simp_all add: pm_static_def)

lemma pm_static_upd_zone [simp]:
  "(\<And>z. z_start (f z) = z_start z) \<Longrightarrow> (\<And>z. z_end (f z) = z_end z) \<Longrightarrow>
   (\<And>z. z_node (f z) = z_node z) \<Longrightarrow> pm_static (upd_zone zp f s) = pm_static s"
  by (auto simp: pm_static_def fun_eq_iff upd_zone_def)

lemma upd_zone_simps [simp]:
  "pm_state (upd_zone zp f s) = pm_state s"
  "pm_next (upd_zone zp f s) = pm_next s"
  "pm_prev (upd_zone zp f s) = pm_prev s"
  "pm_zones (upd_zone zp f s) = (pm_zones s)(zp := f (pm_zones s zp))"
  by (simp_all add: upd_zone_def)

lemma link_store_simps [simp]:
  "pm_state (link_store_at s a k v) = pm_state s"
  "pm_zones (link_store_at s a k v) = pm_zones s"
  "pm_next (link_store_at s a k v) = (if k = 0 then (pm_next s)(a := v) else pm_next s)"
  "pm_prev (link_store_at s a k v) = (if k = 0 then pm_prev s else (pm_prev s)(a := v))"
  by (simp_all add: link_store_at_def)

lemma pm_static_link_store [simp]: "pm_static (link_store_at s a k v) = pm_static s"
  by (simp add: link_store_at_def)

lemma pm_static_zone_push [simp]: "pm_static (zone_push s zp p k) = pm_static s"
  by (simp add: zone_push_def Let_def)

lemma pm_static_zone_remove [simp]: "pm_static (snd (zone_remove s zp p k)) = pm_static s"
  by (simp add: zone_remove_def Let_def)

lemma pm_static_zone_pop [simp]: "pm_static (snd (zone_pop s zp k)) = pm_static s"
  by (simp add: zone_pop_def Let_def)

lemma pm_static_mark_used [simp]: "pm_static (mark_used s p n) = pm_static s"
  by (simp add: mark_used_def)

lemma pm_static_split_down [simp]: "pm_static (split_down s zp p k j) = pm_static s"
  by (induction j arbitrary: s) auto

text \<open>The zone descriptors agree with \<open>zone_of_pfn\<close>: the bounds of a zone hold exactly the managed
  frames of that type, and \<open>zones_n[nd]\<close> belongs to node \<open>nd\<close>.\<close>

definition zones_wf :: "pmm \<Rightarrow> bool" where
  "zones_wf s \<longleftrightarrow> pm_nr_frames s < 2 ^ 32 - 2 ^ 13 \<and> pm_nr_nodes s \<le> PMM_MAX_NODES \<and> 0 < pm_nr_nodes s \<and>
     (\<forall>nd zi. z_node (pm_zones s (nd, zi)) = nd) \<and>
     (\<forall>nd zi f. zi < NR_ZONES \<longrightarrow> pm_base s \<le> f \<longrightarrow> f < pm_nr_frames s \<longrightarrow>
        (z_start (pm_zones s (nd, zi)) \<le> f \<and> f < z_end (pm_zones s (nd, zi)))
          \<longleftrightarrow> zone_of_pfn s f = Some zi) \<and>
     (\<forall>f. pm_numa_live s \<longrightarrow> node_of_pfn s f < pm_nr_nodes s)"

lemma zones_wf_static: "pm_static s = pm_static t \<Longrightarrow> zones_wf s = zones_wf t"
  using pm_staticD [of s t] pm_static_node_of_pfn [of s t]
  by (auto simp: zones_wf_def zone_of_pfn_def)

lemma zone_of_pfn_less: "zone_of_pfn s f = Some zi \<Longrightarrow> zi < NR_ZONES \<and> pm_base s \<le> f \<and> f < pm_nr_frames s"
  by (auto simp: zone_of_pfn_def pmm_consts split: if_splits)

lemma zone_for_pfn_Some: "zone_for_pfn s f = Some (nd, zi) \<longleftrightarrow> zone_of_pfn s f = Some zi \<and> nd = node_of_pfn s f"
  by (auto simp: zone_for_pfn_def split: option.splits)

section \<open>The core invariant\<close>

declare split_paired_All [simp del] split_paired_Ex [simp del]

type_synonym flists = "zptr \<times> nat \<Rightarrow> nat list"

definition fl_push :: "flists \<Rightarrow> zptr \<Rightarrow> nat \<Rightarrow> nat \<Rightarrow> flists" where
  "fl_push L zp k p = L((zp, k) := p # L (zp, k))"

definition fl_take :: "flists \<Rightarrow> zptr \<Rightarrow> nat \<Rightarrow> nat \<Rightarrow> flists" where
  "fl_take L zp k p = L((zp, k) := remove1 p (L (zp, k)))"

lemma fl_apply [simp]:
  "fl_push L zp k p (zp', j) = (if zp' = zp \<and> j = k then p # L (zp, k) else L (zp', j))"
  "fl_take L zp k p (zp', j) = (if zp' = zp \<and> j = k then remove1 p (L (zp, k)) else L (zp', j))"
  by (auto simp: fl_push_def fl_take_def)

definition free_set :: "flists \<Rightarrow> nat set" where
  "free_set L = {f. \<exists>zp k p. p \<in> set (L (zp, k)) \<and> f \<in> blk p k}"

definition lists_rel :: "pmm \<Rightarrow> flists \<Rightarrow> bool" where
  "lists_rel s L \<longleftrightarrow> (\<forall>zp k.
     dll (pm_next s) (pm_prev s) 0 (z_lists (pm_zones s zp) k) (map pfn_to_phys (L (zp, k))) \<and>
     z_nr (pm_zones s zp) k = of_nat (length (L (zp, k))))"

definition block_ok :: "pmm \<Rightarrow> zptr \<Rightarrow> nat \<Rightarrow> nat \<Rightarrow> bool" where
  "block_ok s zp p k \<longleftrightarrow> k \<le> BUDDY_MAX_ORDER \<and> 0 < p \<and> 2 ^ k dvd p \<and>
     (\<forall>f \<in> blk p k. zone_for_pfn s f = Some zp)"

definition blocks_ok :: "pmm \<Rightarrow> flists \<Rightarrow> bool" where
  "blocks_ok s L \<longleftrightarrow> (\<forall>zp k p. p \<in> set (L (zp, k)) \<longrightarrow> block_ok s zp p k \<and> pm_state s p = of_nat k)"

definition blocks_disj :: "flists \<Rightarrow> bool" where
  "blocks_disj L \<longleftrightarrow> (\<forall>zp zp' k k' p p' f. p \<in> set (L (zp, k)) \<longrightarrow> p' \<in> set (L (zp', k')) \<longrightarrow>
     f \<in> blk p k \<longrightarrow> f \<in> blk p' k' \<longrightarrow> zp = zp' \<and> k = k' \<and> p = p')"

definition pmm_core :: "pmm \<Rightarrow> flists \<Rightarrow> nat set \<Rightarrow> bool" where
  "pmm_core s L H \<longleftrightarrow> zones_wf s \<and> lists_rel s L \<and> blocks_ok s L \<and> blocks_disj L \<and>
     H \<inter> free_set L = {} \<and>
     (\<forall>f. f \<notin> free_set L \<union> H \<longrightarrow> pm_state s f = PS_USED \<or> pm_state s f = PS_NONE)"

text \<open>No two free buddies of one size: coalescing is complete.\<close>

definition coalesced :: "flists \<Rightarrow> bool" where
  "coalesced L \<longleftrightarrow> (\<forall>zp k p. k < BUDDY_MAX_ORDER \<longrightarrow> p \<in> set (L (zp, k)) \<longrightarrow> buddy p k \<notin> set (L (zp, k)))"

text \<open>The number of free frames of a zone, from its lists.\<close>

definition zone_count :: "flists \<Rightarrow> zptr \<Rightarrow> nat" where
  "zone_count L zp = (\<Sum>k \<le> BUDDY_MAX_ORDER. length (L (zp, k)) * 2 ^ k)"

definition counts_ok :: "pmm \<Rightarrow> flists \<Rightarrow> bool" where
  "counts_ok s L \<longleftrightarrow> (\<forall>zp. z_free (pm_zones s zp) = of_nat (zone_count L zp))"

text \<open>The invariant between calls: nothing is in transit, counters and coalescing are exact.\<close>

definition pmm_inv :: "pmm \<Rightarrow> flists \<Rightarrow> bool" where
  "pmm_inv s L \<longleftrightarrow> pmm_core s L {} \<and> counts_ok s L \<and> coalesced L"

lemma free_setI: "p \<in> set (L (zp, k)) \<Longrightarrow> f \<in> blk p k \<Longrightarrow> f \<in> free_set L"
  by (force simp: free_set_def)

lemma free_setE:
  assumes "f \<in> free_set L"
  obtains zp k p where "p \<in> set (L (zp, k))" and "f \<in> blk p k"
  using assms by (force simp: free_set_def)

lemma free_set_push: "free_set (fl_push L zp k p) = free_set L \<union> blk p k"
proof -
  have "(\<exists>q. q \<in> set (fl_push L zp k p (zp', j)) \<and> f \<in> blk q j) \<longleftrightarrow>
     (zp' = zp \<and> j = k \<and> f \<in> blk p k) \<or> (\<exists>q. q \<in> set (L (zp', j)) \<and> f \<in> blk q j)" for zp' j f
    by auto
  then show ?thesis by (auto simp: free_set_def)
qed

lemma blocks_disjD:
  "blocks_disj L \<Longrightarrow> p \<in> set (L (zp, k)) \<Longrightarrow> p' \<in> set (L (zp', k')) \<Longrightarrow>
   f \<in> blk p k \<Longrightarrow> f \<in> blk p' k' \<Longrightarrow> zp = zp' \<and> k = k' \<and> p = p'"
  unfolding blocks_disj_def by blast

lemma lists_disjoint:
  "blocks_disj L \<Longrightarrow> (zp, k) \<noteq> (zp', k') \<Longrightarrow> set (L (zp, k)) \<inter> set (L (zp', k')) = {}"
  using blocks_disjD blk_self by fast

lemma lists_relD:
  assumes "lists_rel s L"
  shows "dll (pm_next s) (pm_prev s) 0 (z_lists (pm_zones s zp) k) (map pfn_to_phys (L (zp, k)))"
    and "z_nr (pm_zones s zp) k = of_nat (length (L (zp, k)))"
  using assms by (auto simp: lists_rel_def)

lemma lists_rel_distinct: "lists_rel s L \<Longrightarrow> distinct (L (zp, k))"
  using dll_distinct [OF lists_relD(1)] by (metis distinct_map)

lemma block_ok_static: "pm_static s = pm_static t \<Longrightarrow> block_ok s = block_ok t"
  using pm_static_zone_for_pfn [of s t] by (auto simp: fun_eq_iff block_ok_def)

lemma block_ok_bounds:
  assumes "zones_wf s" and "block_ok s zp p k"
  shows "p < 2 ^ 32" and "p < pm_nr_frames s" and "pm_base s \<le> p"
proof -
  have "zone_for_pfn s p = Some zp"
    using assms(2) by (simp add: block_ok_def)
  then have "pm_base s \<le> p \<and> p < pm_nr_frames s"
    using zone_of_pfn_less by (cases zp) (auto simp: zone_for_pfn_Some)
  then show "p < pm_nr_frames s" and "pm_base s \<le> p" by auto
  with assms(1) show "p < 2 ^ 32" by (simp add: zones_wf_def)
qed

lemma pmm_coreD:
  assumes "pmm_core s L H"
  shows "zones_wf s" and "lists_rel s L" and "blocks_disj L" and "H \<inter> free_set L = {}"
    and "p \<in> set (L (zp, k)) \<Longrightarrow> block_ok s zp p k"
    and "p \<in> set (L (zp, k)) \<Longrightarrow> pm_state s p = of_nat k"
    and "f \<notin> free_set L \<Longrightarrow> f \<notin> H \<Longrightarrow> pm_state s f = PS_USED \<or> pm_state s f = PS_NONE"
  using assms by (auto simp: pmm_core_def blocks_ok_def)

subsection \<open>Pushing a block\<close>

lemma zone_push_fields:
  "pm_next (zone_push s zp p k) = (pm_next s)(pfn_to_phys p := z_lists (pm_zones s zp) k)"
  "pm_prev (zone_push s zp p k) =
     (if z_lists (pm_zones s zp) k \<noteq> 0
      then ((pm_prev s)(pfn_to_phys p := 0))(z_lists (pm_zones s zp) k := pfn_to_phys p)
      else (pm_prev s)(pfn_to_phys p := 0))"
  "pm_state (zone_push s zp p k) = (pm_state s)(p := of_nat k)"
  "z_lists (pm_zones (zone_push s zp p k) zp') =
     (if zp' = zp then (z_lists (pm_zones s zp))(k := pfn_to_phys p) else z_lists (pm_zones s zp'))"
  "z_nr (pm_zones (zone_push s zp p k) zp') =
     (if zp' = zp then (z_nr (pm_zones s zp))(k := z_nr (pm_zones s zp) k + 1) else z_nr (pm_zones s zp'))"
  "z_free (pm_zones (zone_push s zp p k) zp') = z_free (pm_zones s zp')"
  "z_managed (pm_zones (zone_push s zp p k) zp') = z_managed (pm_zones s zp')"
  by (simp_all add: zone_push_def Let_def)

lemma lists_rel_push:
  assumes rel: "lists_rel s L" and disj: "blocks_disj L" and p: "0 < p" "p \<notin> free_set L"
  shows "lists_rel (zone_push s zp p k) (fl_push L zp k p)"
proof -
  have fresh: "pfn_to_phys p \<notin> set (map pfn_to_phys (L j))" for j
    using p(2) free_setI blk_self by (metis (no_types, lifting) imageE list.set_map pfn_to_phys_inj prod.collapse)
  let ?h = "z_lists (pm_zones s zp) k"
  have head: "?h \<noteq> 0 \<Longrightarrow> ?h \<in> set (map pfn_to_phys (L (zp, k)))"
    using lists_relD(1) [OF rel, of zp k] by (auto simp: dll_nonnull)
  have other: "?h \<noteq> 0 \<Longrightarrow> ?h \<notin> set (map pfn_to_phys (L (zp', k')))" if "(zp', k') \<noteq> (zp, k)" for zp' k'
  proof
    assume "?h \<noteq> 0" "?h \<in> set (map pfn_to_phys (L (zp', k')))"
    then obtain a b where "a \<in> set (L (zp, k))" "b \<in> set (L (zp', k'))" "pfn_to_phys a = pfn_to_phys b"
      using head by auto
    then show False using lists_disjoint [OF disj that] by auto
  qed
  show ?thesis
    unfolding lists_rel_def
  proof (intro allI conjI)
    fix zp' k'
    show "dll (pm_next (zone_push s zp p k)) (pm_prev (zone_push s zp p k)) 0
       (z_lists (pm_zones (zone_push s zp p k) zp') k')
       (map pfn_to_phys (fl_push L zp k p (zp', k')))"
    proof (cases "(zp', k') = (zp, k)")
      case True
      then show ?thesis
        using dll_push [OF lists_relD(1) [OF rel, of zp k] _ fresh] p(1)
        by (auto simp: zone_push_fields simp del: dll.simps)
    next
      case False
      then show ?thesis
        using lists_relD(1) [OF rel, of zp' k'] fresh [of "(zp', k')"] other [OF False]
        by (auto simp: zone_push_fields simp del: set_map)
    qed
    show "z_nr (pm_zones (zone_push s zp p k) zp') k' =
       of_nat (length (fl_push L zp k p (zp', k')))"
      using lists_relD(2) [OF rel] by (auto simp: zone_push_fields)
  qed
qed

lemma pmm_core_push:
  assumes core: "pmm_core s L H" and ok: "block_ok s zp p k" and sub: "blk p k \<subseteq> H"
  shows "pmm_core (zone_push s zp p k) (fl_push L zp k p) (H - blk p k)"
proof -
  let ?s = "zone_push s zp p k" and ?L = "fl_push L zp k p"
  note D = pmm_coreD [OF core]
  have p: "0 < p" "p \<notin> free_set L"
    using ok subsetD [OF sub blk_self] D(4) by (auto simp: block_ok_def)
  have fresh: "p \<noteq> q" if "q \<in> set (L (zp', j))" for zp' j q
    using that p(2) free_setI blk_self by metis
  have st: "pm_static ?s = pm_static s" by simp
  show ?thesis
    unfolding pmm_core_def
  proof (intro conjI)
    show "zones_wf ?s" using D(1) zones_wf_static [OF st] by simp
    show "lists_rel ?s ?L" using lists_rel_push [OF D(2,3) p] .
    show "blocks_ok ?s ?L"
      unfolding blocks_ok_def block_ok_static [OF st] zone_push_fields
    proof (intro allI impI)
      fix zp' j q
      assume "q \<in> set (?L (zp', j))"
      then consider "q = p" "zp' = zp" "j = k" | "q \<in> set (L (zp', j))" "q \<noteq> p"
        using fresh by (metis fl_apply(1) set_ConsD)
      then show "block_ok s zp' q j \<and> ((pm_state s)(p := of_nat k)) q = of_nat j"
        using ok D(5,6) by cases auto
    qed
    show "blocks_disj ?L"
    proof -
      have "f \<notin> blk p k" if "q \<in> set (L (zp', j))" "f \<in> blk q j" for zp' j q f
        using that sub D(4) free_setI by blast
      moreover have "r \<in> set (?L (zp', j)) \<Longrightarrow> r \<in> set (L (zp', j)) \<or> r = p \<and> zp' = zp \<and> j = k" for r zp' j
        by (auto split: if_splits)
      ultimately show ?thesis
        using D(3) unfolding blocks_disj_def by metis
    qed
    show "(H - blk p k) \<inter> free_set ?L = {}" using D(4) by (auto simp: free_set_push)
    show "\<forall>f. f \<notin> free_set ?L \<union> (H - blk p k) \<longrightarrow> pm_state ?s f = PS_USED \<or> pm_state ?s f = PS_NONE"
      using D(7) blk_self [of p k] by (auto simp: free_set_push zone_push_fields)
  qed
qed

subsection \<open>Taking a block off its list\<close>

lemma zone_remove_fields:
  assumes "lists_rel s L" and "p \<in> set (L (zp, k))"
  defines "a \<equiv> pfn_to_phys p" and "t \<equiv> snd (zone_remove s zp p k)"
  shows "fst (zone_remove s zp p k)"
    and "pm_next t = dll_unlink_next (pm_next s) (pm_prev s) a"
    and "pm_prev t = dll_unlink_prev (pm_next s) (pm_prev s) a"
    and "z_lists (pm_zones t zp') = (if zp' = zp
           then (z_lists (pm_zones s zp))(k := if pm_prev s a = 0 then pm_next s a else z_lists (pm_zones s zp) k)
           else z_lists (pm_zones s zp'))"
    and "z_nr (pm_zones t zp') = (if zp' = zp then (z_nr (pm_zones s zp))(k := z_nr (pm_zones s zp) k - 1)
           else z_nr (pm_zones s zp'))"
    and "pm_state t = pm_state s" and "z_free (pm_zones t zp') = z_free (pm_zones s zp')"
    and "z_managed (pm_zones t zp') = z_managed (pm_zones s zp')"
proof -
  have "pm_prev s a = 0 \<longleftrightarrow> z_lists (pm_zones s zp) k = a"
    using dll_prev_null_iff [OF lists_relD(1) [OF assms(1)]] assms(2) by (simp add: a_def)
  then show "fst (zone_remove s zp p k)"
    and "pm_next t = dll_unlink_next (pm_next s) (pm_prev s) a"
    and "pm_prev t = dll_unlink_prev (pm_next s) (pm_prev s) a"
    and "z_lists (pm_zones t zp') = (if zp' = zp
           then (z_lists (pm_zones s zp))(k := if pm_prev s a = 0 then pm_next s a else z_lists (pm_zones s zp) k)
           else z_lists (pm_zones s zp'))"
    and "z_nr (pm_zones t zp') = (if zp' = zp then (z_nr (pm_zones s zp))(k := z_nr (pm_zones s zp) k - 1)
           else z_nr (pm_zones s zp'))"
    and "pm_state t = pm_state s" and "z_free (pm_zones t zp') = z_free (pm_zones s zp')"
    and "z_managed (pm_zones t zp') = z_managed (pm_zones s zp')"
    by (auto simp: t_def zone_remove_def Let_def link_load_at_def dll_unlink_next_def dll_unlink_prev_def
        simp flip: a_def)
qed

lemma lists_rel_remove:
  assumes rel: "lists_rel s L" and disj: "blocks_disj L" and p: "p \<in> set (L (zp, k))"
  shows "lists_rel (snd (zone_remove s zp p k)) (fl_take L zp k p)"
    (is "lists_rel ?t ?L")
  unfolding lists_rel_def
proof (intro allI conjI)
  fix zp' k'
  note F = zone_remove_fields [where L = L, OF rel p]
  note here = lists_relD(1) [OF rel, of zp k]
  have a: "pfn_to_phys p \<in> set (map pfn_to_phys (L (zp, k)))" using p by simp
  show "dll (pm_next ?t) (pm_prev ?t) 0 (z_lists (pm_zones ?t zp') k') (map pfn_to_phys (?L (zp', k')))"
  proof (cases "(zp', k') = (zp, k)")
    case True
    then show ?thesis
      using dll_unlink [OF here a] map_remove1_inj [OF inj_pfn_to_phys, of p "L (zp, k)"]
      by (simp add: F)
  next
    case False
    have "set (map pfn_to_phys (L (zp, k))) \<inter> set (map pfn_to_phys (L (zp', k'))) = {}"
      using lists_disjoint [OF disj, of zp k zp' k'] False by auto
    from dll_unlink_other [OF here a this] show ?thesis
      using lists_relD(1) [OF rel, of zp' k'] dll_set_nonnull [OF lists_relD(1) [OF rel, of zp' k']] False
      by (auto simp: F)
  qed
  show "z_nr (pm_zones ?t zp') k' = of_nat (length (?L (zp', k')))"
  proof (cases "(zp', k') = (zp, k)")
    case True
    have "length (L (zp, k)) = Suc (length (remove1 p (L (zp, k))))"
      using p by (simp add: length_remove1) (metis Suc_pred length_pos_if_in_set)
    with True show ?thesis using lists_relD(2) [OF rel, of zp k] by (simp add: F)
  next
    case False
    then show ?thesis using lists_relD(2) [OF rel, of zp' k'] by (auto simp: F)
  qed
qed

lemma free_set_remove:
  assumes disj: "blocks_disj L" and dist: "distinct (L (zp, k))" and p: "p \<in> set (L (zp, k))"
  shows "free_set (fl_take L zp k p) = free_set L - blk p k"
proof -
  let ?L = "fl_take L zp k p"
  have iff: "q \<in> set (?L (zp', j)) \<longleftrightarrow> q \<in> set (L (zp', j)) \<and> \<not> (zp' = zp \<and> j = k \<and> q = p)" for q zp' j
    using dist by auto
  have "f \<in> free_set ?L \<longleftrightarrow> f \<in> free_set L \<and> f \<notin> blk p k" for f
  proof
    assume "f \<in> free_set ?L"
    then obtain zp' j q where q: "q \<in> set (?L (zp', j))" "f \<in> blk q j" by (rule free_setE)
    then have "f \<notin> blk p k"
      using blocks_disjD [OF disj, of q zp' j p zp k f] p unfolding iff by blast
    with q show "f \<in> free_set L \<and> f \<notin> blk p k"
      unfolding iff using free_setI by blast
  next
    assume a: "f \<in> free_set L \<and> f \<notin> blk p k"
    then obtain zp' j q where q: "q \<in> set (L (zp', j))" "f \<in> blk q j" by (blast elim: free_setE)
    with a have "q \<in> set (?L (zp', j))" unfolding iff by blast
    with q show "f \<in> free_set ?L" by (blast intro: free_setI)
  qed
  then show ?thesis by blast
qed

lemma pmm_core_remove:
  assumes core: "pmm_core s L H" and p: "p \<in> set (L (zp, k))"
  shows "pmm_core (snd (zone_remove s zp p k)) (fl_take L zp k p) (H \<union> blk p k)"
    (is "pmm_core ?t ?L _")
proof -
  note D = pmm_coreD [OF core]
  note F = zone_remove_fields [where L = L, OF D(2) p]
  note fs = free_set_remove [OF D(3) lists_rel_distinct [OF D(2)] p]
  have st: "pm_static ?t = pm_static s" by simp
  have sub: "q \<in> set (?L (zp', j)) \<Longrightarrow> q \<in> set (L (zp', j))" for q zp' j
    by (auto split: if_splits dest: subsetD [OF set_remove1_subset])
  have blkp: "blk p k \<subseteq> free_set L" using p free_setI by blast
  show ?thesis
    unfolding pmm_core_def
  proof (intro conjI)
    show "zones_wf ?t" using D(1) zones_wf_static [OF st] by simp
    show "lists_rel ?t ?L" using lists_rel_remove [OF D(2,3) p] .
    show "blocks_ok ?t ?L"
      unfolding blocks_ok_def F(6) block_ok_static [OF st] using D(5,6) sub by blast
    show "blocks_disj ?L"
      using D(3) sub unfolding blocks_disj_def by blast
    show "(H \<union> blk p k) \<inter> free_set ?L = {}" using D(4) unfolding fs by blast
    show "\<forall>f. f \<notin> free_set ?L \<union> (H \<union> blk p k) \<longrightarrow> pm_state ?t f = PS_USED \<or> pm_state ?t f = PS_NONE"
      using D(7) unfolding fs F(6) by blast
  qed
qed

lemma zone_pop_remove:
  assumes core: "pmm_core s L H" and L: "L (zp, k) = p # ps"
  shows "zone_pop s zp k = (p, snd (zone_remove s zp p k))"
proof -
  note D = pmm_coreD [OF core]
  have "block_ok s zp p k" using D(5) L by simp
  then have "p < 2 ^ 32" "0 < p"
    using block_ok_bounds(1) [OF D(1)] by (blast, simp add: block_ok_def)
  moreover have "z_lists (pm_zones s zp) k = pfn_to_phys p" "pm_prev s (pfn_to_phys p) = 0"
    using lists_relD(1) [OF D(2), of zp k] L by simp_all
  ultimately show ?thesis
    by (simp add: zone_pop_def zone_remove_def Let_def link_load_at_def phys_to_pfn_to_phys)
qed

subsection \<open>Marking and counters\<close>

lemma mark_used_state:
  "pm_state (mark_used s p n) f = (if p \<le> f \<and> f < p + n then PS_USED else pm_state s f)"
proof -
  have "fold (\<lambda>i ps. ps(p + i := PS_USED)) [0..<n] st f = (if p \<le> f \<and> f < p + n then PS_USED else st f)" for st
    by (induction n) auto
  then show ?thesis by (simp add: mark_used_def)
qed

lemma mark_used_fields [simp]:
  "pm_next (mark_used s p n) = pm_next s" "pm_prev (mark_used s p n) = pm_prev s"
  "pm_zones (mark_used s p n) = pm_zones s"
  by (simp_all add: mark_used_def)

text \<open>Updates that leave links, lists and frame states alone keep the core relation.\<close>

lemma pmm_core_cong:
  assumes "pmm_core s L H" and "pm_static t = pm_static s" and "pm_next t = pm_next s"
    and "pm_prev t = pm_prev s" and "pm_state t = pm_state s"
    and "\<And>zp. z_lists (pm_zones t zp) = z_lists (pm_zones s zp)"
    and "\<And>zp. z_nr (pm_zones t zp) = z_nr (pm_zones s zp)"
  shows "pmm_core t L H"
  using assms(1) zones_wf_static [OF assms(2)] block_ok_static [OF assms(2)]
  by (simp add: pmm_core_def lists_rel_def blocks_ok_def assms(3-7))

lemma pmm_core_mark_used:
  assumes core: "pmm_core s L H" and sub: "blk p k \<subseteq> H"
  shows "pmm_core (mark_used s p (2 ^ k)) L (H - blk p k)"
proof -
  note D = pmm_coreD [OF core]
  let ?t = "mark_used s p (2 ^ k)"
  have st: "pm_static ?t = pm_static s" by simp
  have stt: "pm_state ?t f = (if f \<in> blk p k then PS_USED else pm_state s f)" for f
    by (simp add: mark_used_state blk_def)
  have out: "q \<notin> blk p k" if "q \<in> set (L (zp, j))" for q zp j
    using that free_setI [of q L zp j q] D(4) sub by auto
  show ?thesis
    unfolding pmm_core_def
    using D(1-4,7) zones_wf_static [OF st] block_ok_static [OF st] D(5,6) out
    by (auto simp: lists_rel_def blocks_ok_def stt)
qed

end
