(* ===== verification/Pmm_Buddy.thy ===== *)
theory Pmm_Buddy
  imports Pmm_Inv
begin

text \<open>
  Allocation and release inside one zone (\<open>buddy_alloc_in_zone\<close>, \<open>buddy_free_in_zone\<close> of
  \<open>kernel/mem/pmm.c\<close>) keep the invariant and change the set of free frames by exactly the block
  handed out or taken back.
\<close>

section \<open>Counters and coalescing of the abstract lists\<close>

lemma zone_count_upd:
  "k \<le> BUDDY_MAX_ORDER \<Longrightarrow>
   zone_count (L((zp, k) := xs)) zp' + (if zp' = zp then length (L (zp, k)) * 2 ^ k else 0) =
   zone_count L zp' + (if zp' = zp then length xs * 2 ^ k else 0)"
proof -
  assume k: "k \<le> BUDDY_MAX_ORDER"
  have split: "zone_count M zp = length (M (zp, k)) * 2 ^ k +
      (\<Sum>j \<in> {..BUDDY_MAX_ORDER} - {k}. length (M (zp, j)) * 2 ^ j)" for M
    unfolding zone_count_def using k by (intro sum.remove) auto
  show ?thesis
  proof (cases "zp' = zp")
    case True
    moreover have "(\<Sum>j \<in> {..BUDDY_MAX_ORDER} - {k}. length ((L((zp, k) := xs)) (zp, j)) * 2 ^ j) =
        (\<Sum>j \<in> {..BUDDY_MAX_ORDER} - {k}. length (L (zp, j)) * 2 ^ j)"
      by (intro sum.cong) auto
    ultimately show ?thesis
      using split [of L] split [of "L((zp, k) := xs)"] by simp
  next
    case False
    then show ?thesis by (simp add: zone_count_def)
  qed
qed

lemma zone_count_push:
  "k \<le> BUDDY_MAX_ORDER \<Longrightarrow>
   zone_count (fl_push L zp k p) zp' = zone_count L zp' + (if zp' = zp then 2 ^ k else 0)"
  using zone_count_upd [of k L zp "p # L (zp, k)" zp'] by (auto simp: fl_push_def split: if_splits)

lemma zone_count_remove:
  "k \<le> BUDDY_MAX_ORDER \<Longrightarrow> p \<in> set (L (zp, k)) \<Longrightarrow>
   zone_count (fl_take L zp k p) zp' + (if zp' = zp then 2 ^ k else 0) = zone_count L zp'"
proof -
  assume k: "k \<le> BUDDY_MAX_ORDER" and p: "p \<in> set (L (zp, k))"
  have "length (L (zp, k)) = Suc (length (remove1 p (L (zp, k))))"
    using p by (simp add: length_remove1) (metis Suc_pred length_pos_if_in_set)
  then have "length (L (zp, k)) * 2 ^ k = 2 ^ k + length (remove1 p (L (zp, k))) * 2 ^ k"
    by simp
  then show ?thesis
    using zone_count_upd [OF k, of L zp "remove1 p (L (zp, k))" zp'] by (auto simp: fl_take_def split: if_splits)
qed

lemma coalesced_push:
  assumes "coalesced L" and "2 ^ k dvd p" and "k < BUDDY_MAX_ORDER \<Longrightarrow> buddy p k \<notin> set (L (zp, k))"
  shows "coalesced (fl_push L zp k p)"
proof -
  have "buddy p k \<noteq> p"
    using buddy_union(2) [OF assms(2)] by (metis blk_self disjoint_iff)
  moreover have "buddy q k = p \<Longrightarrow> q = buddy p k" for q
    using buddy_buddy by metis
  ultimately show ?thesis
    using assms(1,3) unfolding coalesced_def by auto
qed

lemma coalesced_remove:
  "coalesced L \<Longrightarrow> coalesced (fl_take L zp k p)"
  unfolding coalesced_def by (auto dest: subsetD [OF set_remove1_subset])

lemma pmm_core_widen:
  "pmm_core s L H \<Longrightarrow> H' \<inter> free_set L = {} \<Longrightarrow> H \<subseteq> H' \<Longrightarrow> pmm_core s L H'"
  unfolding pmm_core_def by blast

lemma blk_mono: "j \<le> k \<Longrightarrow> blk p j \<subseteq> blk p k"
  by (auto simp: blk_def intro: less_le_trans power_increasing)

lemma block_ok_sub:
  "block_ok s zp p k \<Longrightarrow> j \<le> k \<Longrightarrow> block_ok s zp p j"
  using blk_mono [of j k p] by (auto simp: block_ok_def intro: power_le_dvd)

lemma block_ok_upper:
  assumes "block_ok s zp p (Suc k)"
  shows "block_ok s zp (p + 2 ^ k) k"
proof -
  have "2 ^ k dvd p"
    using assms by (auto simp: block_ok_def intro: power_le_dvd)
  then show ?thesis
    using assms by (auto simp: block_ok_def blk_Suc)
qed

section \<open>Splitting a block\<close>

fun split_lists :: "flists \<Rightarrow> zptr \<Rightarrow> nat \<Rightarrow> nat \<Rightarrow> nat \<Rightarrow> flists" where
  "split_lists L zp p ord 0 = L"
| "split_lists L zp p ord (Suc k) =
     (if Suc k > ord then split_lists (fl_push L zp k (p + 2 ^ k)) zp p ord k else L)"

lemma split_down_core:
  assumes "pmm_core s L H" and "block_ok s zp p k" and "blk p k \<subseteq> H" and "ord \<le> k"
  shows "pmm_core (split_down s zp p ord k) (split_lists L zp p ord k) (H - (blk p k - blk p ord))"
  using assms
proof (induction k arbitrary: s L H)
  case (Suc k)
  let ?q = "p + 2 ^ k"
  let ?s = "zone_push s zp ?q k" and ?L = "fl_push L zp k ?q"
  show ?case
  proof (cases "ord = Suc k")
    case True
    with Suc.prems show ?thesis by simp
  next
    case False
    have core: "pmm_core ?s ?L (H - blk ?q k)"
      using Suc.prems blk_Suc by (intro pmm_core_push block_ok_upper) auto
    have ok: "block_ok ?s zp p k"
      using block_ok_static [of ?s s] block_ok_sub [OF Suc.prems(2)] by simp
    have "blk p k \<subseteq> H - blk ?q k"
      using Suc.prems(3) blk_halves_disjoint [of p k] by (auto simp: blk_Suc)
    from Suc.IH [OF core ok this] False Suc.prems(4)
    have "pmm_core (split_down ?s zp p ord k) (split_lists ?L zp p ord k)
            (H - blk ?q k - (blk p k - blk p ord))" by simp
    moreover have "blk p ord \<subseteq> blk p k"
      using False Suc.prems(4) by (intro blk_mono) simp
    then have "H - blk ?q k - (blk p k - blk p ord) = H - (blk p (Suc k) - blk p ord)"
      using blk_halves_disjoint [of p k] by (auto simp: blk_Suc)
    ultimately show ?thesis using False Suc.prems(4) by simp
  qed
qed simp

lemma split_lists_free_set:
  "ord \<le> k \<Longrightarrow> free_set (split_lists L zp p ord k) = free_set L \<union> (blk p k - blk p ord)"
proof (induction k arbitrary: L)
  case (Suc k)
  show ?case
  proof (cases "ord = Suc k")
    case False
    have "blk p ord \<subseteq> blk p k"
      using False Suc.prems by (intro blk_mono) simp
    then show ?thesis
      using Suc False blk_halves_disjoint [of p k] by (auto simp: free_set_push blk_Suc)
  qed simp
qed simp

lemma split_lists_count:
  "ord \<le> k \<Longrightarrow> k \<le> BUDDY_MAX_ORDER \<Longrightarrow>
   zone_count (split_lists L zp p ord k) zp' + (if zp' = zp then 2 ^ ord else 0) =
   zone_count L zp' + (if zp' = zp then 2 ^ k else 0)"
proof (induction k arbitrary: L)
  case (Suc k)
  show ?case
  proof (cases "ord = Suc k")
    case False
    then show ?thesis
      using Suc.IH [of "fl_push L zp k (p + 2 ^ k)"] Suc.prems
        zone_count_push [of k L zp "p + 2 ^ k" zp'] by (auto split: if_splits)
  qed simp
qed simp

lemma split_lists_coalesced:
  "coalesced L \<Longrightarrow> 2 ^ k dvd p \<Longrightarrow> p \<notin> free_set L \<Longrightarrow> coalesced (split_lists L zp p ord k)"
proof (induction k arbitrary: L)
  case (Suc k)
  let ?q = "p + 2 ^ k"
  have d: "2 ^ k dvd p" using Suc.prems(2) by (auto intro: power_le_dvd)
  have "buddy ?q k = p"
    using buddy_min_dvd [OF Suc.prems(2)] buddy_buddy by metis
  then have "coalesced (fl_push L zp k ?q)"
    using Suc.prems d free_setI [of p L zp k p] by (intro coalesced_push) auto
  moreover have "p \<notin> free_set (fl_push L zp k ?q)"
    using Suc.prems(3) by (simp add: free_set_push) (simp add: blk_def)
  ultimately show ?case using Suc.IH Suc.prems(1) d by simp
qed simp

lemma split_down_counters [simp]:
  "z_free (pm_zones (split_down s zp p ord k) zp') = z_free (pm_zones s zp')"
  "z_managed (pm_zones (split_down s zp p ord k) zp') = z_managed (pm_zones s zp')"
  by (induction k arbitrary: s) (auto simp: zone_push_fields)

section \<open>Allocation\<close>

lemma first_order_least:
  "k \<le> first_order z k \<and> (\<forall>j. k \<le> j \<longrightarrow> j < first_order z k \<longrightarrow> z_lists z j = 0) \<and>
   (first_order z k \<le> BUDDY_MAX_ORDER \<longrightarrow> z_lists z (first_order z k) \<noteq> 0)"
proof (induction z k rule: first_order.induct)
  case (1 z k)
  show ?case
  proof (cases "k \<le> BUDDY_MAX_ORDER \<and> z_lists z k = 0")
    case True
    then have "first_order z k = first_order z (Suc k)" by (subst first_order.simps) simp
    with 1 [OF True] True show ?thesis by (metis Suc_leD le_antisym not_less_eq_eq)
  next
    case False
    then have "first_order z k = k" by (subst first_order.simps) (simp only: if_False)
    with False show ?thesis by auto
  qed
qed

lemma list_empty_iff: "lists_rel s L \<Longrightarrow> z_lists (pm_zones s zp) k = 0 \<longleftrightarrow> L (zp, k) = []"
  using lists_relD(1) [of s L zp k] by (cases "L (zp, k)") auto

lemma counts_ok_shrink:
  assumes "counts_ok s L" and "\<And>zp'. z_free (pm_zones t zp') = z_free (pm_zones s zp') - (if zp' = zp then 2 ^ k else 0)"
    and "\<And>zp'. zone_count L' zp' + (if zp' = zp then 2 ^ k else 0) = zone_count L zp'"
  shows "counts_ok t L'"
  unfolding counts_ok_def
proof
  fix zp'
  have "of_nat (zone_count L zp') = (of_nat (zone_count L' zp') + (if zp' = zp then 2 ^ k else 0) :: u32)"
    unfolding assms(3) [symmetric] by simp
  with assms(1,2) show "z_free (pm_zones t zp') = of_nat (zone_count L' zp')"
    by (simp add: counts_ok_def)
qed

definition alloc_lists :: "flists \<Rightarrow> zptr \<Rightarrow> nat \<Rightarrow> nat \<Rightarrow> nat \<Rightarrow> flists" where
  "alloc_lists L zp p ord k = split_lists (fl_take L zp k p) zp p ord k"

lemma alloc_lists_ok:
  assumes inv: "pmm_inv s L" and L: "L (zp, k) = p # ps" and k: "ord \<le> k"
  shows "free_set (alloc_lists L zp p ord k) = free_set L - blk p ord"
    and "coalesced (alloc_lists L zp p ord k)"
    and "zone_count (alloc_lists L zp p ord k) zp' + (if zp' = zp then 2 ^ ord else 0) = zone_count L zp'"
    and "blk p k \<subseteq> free_set L" and "block_ok s zp p k"
proof -
  have core: "pmm_core s L {}" and coal: "coalesced L" using inv by (auto simp: pmm_inv_def)
  note D = pmm_coreD [OF core]
  have p: "p \<in> set (L (zp, k))" by (simp add: L)
  show ok: "block_ok s zp p k" and sub: "blk p k \<subseteq> free_set L"
    using D(5) [OF p] free_setI [where L = L, OF p] by auto
  note fs = free_set_remove [OF D(3) lists_rel_distinct [OF D(2)] p]
  show "free_set (alloc_lists L zp p ord k) = free_set L - blk p ord"
    using fs sub blk_mono [OF k, of p] by (auto simp: alloc_lists_def split_lists_free_set [OF k])
  show "coalesced (alloc_lists L zp p ord k)"
    unfolding alloc_lists_def using ok fs blk_self [of p k]
    by (intro split_lists_coalesced coalesced_remove coal) (auto simp: block_ok_def)
  show "zone_count (alloc_lists L zp p ord k) zp' + (if zp' = zp then 2 ^ ord else 0) = zone_count L zp'"
    using split_lists_count [OF k, of "fl_take L zp k p" zp p zp'] zone_count_remove [of k p L zp zp'] p ok
    by (auto simp: alloc_lists_def block_ok_def split: if_splits)
qed

lemma buddy_alloc_take:
  assumes inv: "pmm_inv s L" and ord: "ord \<le> BUDDY_MAX_ORDER"
    and k: "first_order (pm_zones s zp) ord = k" "k \<le> BUDDY_MAX_ORDER" and L: "L (zp, k) = p # ps"
  shows "\<exists>s'. buddy_alloc_in_zone s zp (int ord) = (p, s') \<and> pmm_inv s' (alloc_lists L zp p ord k) \<and>
           pm_static s' = pm_static s"
proof -
  have core: "pmm_core s L {}" and cnt: "counts_ok s L" using inv by (auto simp: pmm_inv_def)
  note D = pmm_coreD [OF core]
  have ok: "ord \<le> k" using first_order_least [of ord "pm_zones s zp"] k by auto
  note A = alloc_lists_ok [OF inv L ok]
  have p: "p \<in> set (L (zp, k))" by (simp add: L)
  define s1 where "s1 = snd (zone_remove s zp p k)"
  define s2 where "s2 = split_down s1 zp p ord k"
  define s3 where "s3 = mark_used s2 p (2 ^ ord)"
  define s4 where "s4 = upd_zone zp (\<lambda>z. z\<lparr>z_free := z_free z - 2 ^ ord\<rparr>) s3"
  have run: "buddy_alloc_in_zone s zp (int ord) = (p, s4)"
    using ord k zone_pop_remove [OF core L]
    by (simp add: buddy_alloc_in_zone_def Let_def s1_def s2_def s3_def s4_def)
  have st: "pm_static s1 = pm_static s" "pm_static s4 = pm_static s"
    by (simp_all add: s1_def s2_def s3_def s4_def)
  have c1: "pmm_core s1 (fl_take L zp k p) (blk p k)"
    using pmm_core_remove [OF core p] by (simp add: s1_def)
  have c2: "pmm_core s2 (alloc_lists L zp p ord k) (blk p ord)"
    unfolding s2_def alloc_lists_def
    using split_down_core [OF c1 _ subset_refl ok] block_ok_static [OF st(1)] A(5) blk_mono [OF ok, of p]
    by (simp add: double_diff)
  have c3: "pmm_core s3 (alloc_lists L zp p ord k) {}"
    using pmm_core_mark_used [OF c2 subset_refl] by (simp add: s3_def)
  have c4: "pmm_core s4 (alloc_lists L zp p ord k) {}"
    by (rule pmm_core_cong [OF c3]) (simp_all add: s4_def)
  have zf: "z_free (pm_zones s4 zp') = z_free (pm_zones s zp') - (if zp' = zp then 2 ^ ord else 0)" for zp'
    using zone_remove_fields(7) [where L = L, OF D(2) p] by (simp add: s1_def s2_def s3_def s4_def)
  have "counts_ok s4 (alloc_lists L zp p ord k)"
    by (rule counts_ok_shrink [OF cnt zf A(3)])
  with c4 A(2) run st(2) show ?thesis by (auto simp: pmm_inv_def)
qed

lemma buddy_alloc_cases:
  assumes inv: "pmm_inv s L" and ord: "ord \<le> BUDDY_MAX_ORDER"
  obtains (fail) "buddy_alloc_in_zone s zp (int ord) = (0, s)"
      "\<And>k. ord \<le> k \<Longrightarrow> k \<le> BUDDY_MAX_ORDER \<Longrightarrow> L (zp, k) = []"
    | (got) p s' L' where "buddy_alloc_in_zone s zp (int ord) = (p, s')" "pmm_inv s' L'"
      "pm_static s' = pm_static s" "block_ok s zp p ord" "blk p ord \<subseteq> free_set L"
      "free_set L' = free_set L - blk p ord"
proof -
  let ?k = "first_order (pm_zones s zp) ord"
  have rel: "lists_rel s L" using inv by (simp add: pmm_inv_def pmm_core_def)
  note F = first_order_least [of ord "pm_zones s zp"]
  show ?thesis
  proof (cases "?k \<le> BUDDY_MAX_ORDER")
    case True
    with F obtain p ps where L: "L (zp, ?k) = p # ps"
      using list_empty_iff [OF rel, of zp ?k] by (cases "L (zp, ?k)") auto
    from F have k: "ord \<le> ?k" by simp
    note A = alloc_lists_ok [OF inv L k]
    show ?thesis
      using buddy_alloc_take [OF inv ord refl True L] got A(1,4) block_ok_sub [OF A(5) k]
        blk_mono [OF k, of p] by blast
  next
    case False
    have "L (zp, k) = []" if "ord \<le> k" "k \<le> BUDDY_MAX_ORDER" for k
      using F False that list_empty_iff [OF rel, of zp k] by auto
    moreover have "buddy_alloc_in_zone s zp (int ord) = (0, s)"
      using ord False by (simp add: buddy_alloc_in_zone_def Let_def)
    ultimately show ?thesis using fail by blast
  qed
qed

section \<open>Release and coalescing\<close>

lemma of_nat_u8_inj: "i \<le> BUDDY_MAX_ORDER \<Longrightarrow> j \<le> BUDDY_MAX_ORDER \<Longrightarrow> (of_nat i :: u8) = of_nat j \<longleftrightarrow> i = j"
proof -
  assume "i \<le> BUDDY_MAX_ORDER" "j \<le> BUDDY_MAX_ORDER"
  then have "i < 256" "j < 256" by (auto simp: pmm_consts)
  then show ?thesis by (auto simp: word_unat_eq_iff unat_of_nat)
qed

lemma of_nat_u8_state: "i \<le> BUDDY_MAX_ORDER \<Longrightarrow> (of_nat i :: u8) \<noteq> PS_USED \<and> (of_nat i :: u8) \<noteq> PS_NONE"
proof -
  assume "i \<le> BUDDY_MAX_ORDER"
  then have "i < 254" by (simp add: pmm_consts)
  then show ?thesis by (auto simp: word_unat_eq_iff unat_of_nat pmm_consts)
qed

text \<open>A frame that carries an order and whose buddy is in transit heads a free block of that order:
  a stale order inside a larger free block would put the buddy into that block too.\<close>

lemma state_order_head:
  assumes core: "pmm_core s L (blk p k)" and k: "k < BUDDY_MAX_ORDER" and p: "2 ^ k dvd p"
    and st: "pm_state s (buddy p k) = of_nat k"
  shows "\<exists>zp. buddy p k \<in> set (L (zp, k))"
proof -
  note D = pmm_coreD [OF core]
  let ?b = "buddy p k"
  have b: "2 ^ k dvd ?b" "?b \<notin> blk p k"
    using buddy_aligned [OF p] buddy_union(2) [OF p] blk_self by blast+
  have "?b \<in> free_set L"
    using D(7) [of ?b] b(2) st of_nat_u8_state [of k] k by auto
  then obtain zp j q where q: "q \<in> set (L (zp, j))" "?b \<in> blk q j" by (rule free_setE)
  have ok: "block_ok s zp q j" and stq: "pm_state s q = of_nat j" using D(5,6) [OF q(1)] by auto
  then have qd: "2 ^ j dvd q" and j: "j \<le> BUDDY_MAX_ORDER" by (auto simp: block_ok_def)
  have "\<not> k < j"
  proof
    assume "k < j"
    have "?b \<in> blk (min ?b p) (Suc k)"
      unfolding buddy_union(1) [OF p, symmetric] by simp
    then have "blk (min ?b p) (Suc k) \<subseteq> blk q j"
      using aligned_nested [OF buddy_union(3) [OF p] qd] q(2) Suc_leI [OF \<open>k < j\<close>] by blast
    then have "p \<in> blk q j" using buddy_union(1) [OF p] blk_self [of p k] by blast
    then show False using free_setI [where L = L, OF q(1)] D(4) blk_self [of p k] by blast
  qed
  then have "q = ?b"
    using aligned_iff [OF qd, of ?b] aligned_iff [OF dvd_trans [OF le_imp_power_dvd b(1)], of j q]
      q(2) qd by (metis aligned_iff dvd_div_mult_self dvd_trans le_imp_power_dvd not_le b(1))
  with stq st k j have "j = k" using of_nat_u8_inj [of j k] by simp
  with q(1) \<open>q = ?b\<close> show ?thesis by blast
qed

lemma buddy_in_zone:
  assumes core: "pmm_core s L H" and ok: "block_ok s zp p k" and b: "b \<in> set (L (zp', k'))"
    and bounds: "z_start (pm_zones s zp) \<le> b" "b < z_end (pm_zones s zp)"
    and node: "pm_numa_live s \<Longrightarrow> node_of_pfn s b = z_node (pm_zones s zp)"
  shows "zp' = zp"
proof -
  note D = pmm_coreD [OF core]
  obtain nd zi where zp: "zp = (nd, zi)" by force
  have p: "zone_of_pfn s p = Some zi" "nd = node_of_pfn s p"
    using ok blk_self [of p k] by (auto simp: block_ok_def zp zone_for_pfn_Some)
  have b': "zone_for_pfn s b = Some zp'" using D(5) [OF b] by (simp add: block_ok_def)
  then obtain zi' where zi': "zone_of_pfn s b = Some zi'" "zp' = (node_of_pfn s b, zi')"
    by (cases zp') (auto simp: zone_for_pfn_Some)
  have "zone_of_pfn s b = Some zi"
    using D(1) bounds zone_of_pfn_less [OF zi'(1)] zone_of_pfn_less [OF p(1)]
    unfolding zones_wf_def zp by blast
  moreover have "node_of_pfn s b = nd"
    using node D(1) p(2) by (cases "pm_numa_live s") (auto simp: zp zones_wf_def node_of_pfn_def)
  ultimately show ?thesis using zi' zp by simp
qed

lemma buddy_merge_stop:
  assumes core: "pmm_core s L (blk p k)" and ok: "block_ok s zp p k"
    and no: "k < BUDDY_MAX_ORDER \<Longrightarrow> buddy p k \<notin> set (L (zp, k))"
  shows "buddy_merge s zp p k = (s, p, k)"
proof (cases "k < BUDDY_MAX_ORDER \<and> z_start (pm_zones s zp) \<le> buddy p k \<and> buddy p k < z_end (pm_zones s zp) \<and>
    (pm_numa_live s \<longrightarrow> node_of_pfn s (buddy p k) = z_node (pm_zones s zp)) \<and> pm_state s (buddy p k) = of_nat k")
  case True
  then obtain zp' where "buddy p k \<in> set (L (zp', k))"
    using state_order_head [OF core] ok by (auto simp: block_ok_def)
  then show ?thesis
    using buddy_in_zone [OF core ok, of "buddy p k" zp' k] True no by blast
next
  case False
  then show ?thesis
    by (subst buddy_merge.simps) (auto simp: Let_def simp flip: buddy_def)
qed

lemma buddy_merge_step:
  assumes core: "pmm_core s L H" and ok: "block_ok s zp p k" and k: "k < BUDDY_MAX_ORDER"
    and b: "buddy p k \<in> set (L (zp, k))"
  shows "buddy_merge s zp p k = buddy_merge (snd (zone_remove s zp (buddy p k) k)) zp (min (buddy p k) p) (Suc k)"
proof -
  note D = pmm_coreD [OF core]
  obtain nd zi where zp: "zp = (nd, zi)" by force
  have bz: "zone_of_pfn s (buddy p k) = Some zi" "nd = node_of_pfn s (buddy p k)"
    using D(5) [OF b] blk_self [of "buddy p k" k] by (auto simp: block_ok_def zp zone_for_pfn_Some)
  have bounds: "pm_base s \<le> buddy p k" "buddy p k < pm_nr_frames s" "zi < NR_ZONES"
    using zone_of_pfn_less [OF bz(1)] by auto
  have "z_start (pm_zones s zp) \<le> buddy p k \<and> buddy p k < z_end (pm_zones s zp)"
    using D(1) bounds bz(1) unfolding zones_wf_def zp by blast
  moreover have "node_of_pfn s (buddy p k) = z_node (pm_zones s zp)"
    using D(1) bz(2) by (simp add: zones_wf_def zp)
  moreover obtain t where "zone_remove s zp (buddy p k) k = (True, t)"
    using zone_remove_fields(1) [where L = L, OF D(2) b] by (metis (full_types) prod.collapse)
  moreover have "(if buddy p k < p then buddy p k else p) = min (buddy p k) p" by auto
  ultimately show ?thesis
    using k bounds D(6) [OF b]
    by (subst buddy_merge.simps) (auto simp: Let_def simp flip: buddy_def)
qed

lemma block_ok_merge:
  assumes "block_ok s zp p k" and "block_ok s zp (buddy p k) k" and "k < BUDDY_MAX_ORDER"
  shows "block_ok s zp (min (buddy p k) p) (Suc k)"
proof -
  have p: "2 ^ k dvd p" using assms(1) by (simp add: block_ok_def)
  show ?thesis
    using assms buddy_union(3) [OF p] unfolding block_ok_def buddy_union(1) [OF p, symmetric] by auto
qed

text \<open>What the coalescing loop leaves: one larger block in transit, its frames the released ones and
  those of the buddies it took off the lists.\<close>

definition merge_result :: "pmm \<Rightarrow> flists \<Rightarrow> zptr \<Rightarrow> nat \<Rightarrow> nat \<Rightarrow> pmm \<times> nat \<times> nat \<Rightarrow> flists \<Rightarrow> bool" where
  "merge_result s L zp p k r L' \<longleftrightarrow> (case r of (s', p', k') \<Rightarrow>
     pmm_core s' L' (blk p' k') \<and> block_ok s zp p' k' \<and> pm_static s' = pm_static s \<and>
     (k' < BUDDY_MAX_ORDER \<longrightarrow> buddy p' k' \<notin> set (L' (zp, k'))) \<and>
     free_set L' \<union> blk p' k' = free_set L \<union> blk p k \<and>
     (coalesced L \<longrightarrow> coalesced L') \<and>
     (\<forall>zp'. zone_count L' zp' + (if zp' = zp then 2 ^ k' else 0) = zone_count L zp' + (if zp' = zp then 2 ^ k else 0)) \<and>
     (\<forall>zp'. z_free (pm_zones s' zp') = z_free (pm_zones s zp')) \<and>
     (\<forall>zp'. z_managed (pm_zones s' zp') = z_managed (pm_zones s zp')))"

lemma buddy_merge_ok:
  assumes "pmm_core s L (blk p k)" and "block_ok s zp p k"
  shows "\<exists>L'. merge_result s L zp p k (buddy_merge s zp p k) L'"
  using assms
proof (induction "BUDDY_MAX_ORDER - k" arbitrary: s L p k)
  case 0
  then have "k = BUDDY_MAX_ORDER" by (simp add: block_ok_def)
  with 0 have "merge_result s L zp p k (buddy_merge s zp p k) L"
    using buddy_merge_stop [OF 0(2,3)] by (simp add: merge_result_def)
  then show ?case by blast
next
  case (Suc n)
  have k: "k < BUDDY_MAX_ORDER" using Suc.hyps(2) by simp
  have p: "2 ^ k dvd p" using Suc.prems(2) by (simp add: block_ok_def)
  let ?b = "buddy p k"
  show ?case
  proof (cases "?b \<in> set (L (zp, k))")
    case False
    then have "merge_result s L zp p k (buddy_merge s zp p k) L"
      using buddy_merge_stop [OF Suc.prems] Suc.prems by (simp add: merge_result_def)
    then show ?thesis by blast
  next
    case True
    note D = pmm_coreD [OF Suc.prems(1)]
    let ?t = "snd (zone_remove s zp ?b k)" and ?q = "min ?b p" and ?L = "fl_take L zp k ?b"
    note F = zone_remove_fields [where L = L, OF D(2) True]
    have st: "pm_static ?t = pm_static s" by simp
    have "pmm_core ?t ?L (blk ?q (Suc k))"
      using pmm_core_remove [OF Suc.prems(1) True] by (simp add: buddy_union(1) [OF p])
    moreover have "block_ok ?t zp ?q (Suc k)"
      using block_ok_merge [OF Suc.prems(2) D(5) [OF True] k] block_ok_static [OF st] by simp
    moreover have "n = BUDDY_MAX_ORDER - Suc k" using Suc.hyps(2) by simp
    ultimately obtain L' where L': "merge_result ?t ?L zp ?q (Suc k) (buddy_merge ?t zp ?q (Suc k)) L'"
      using Suc.hyps(1) by blast
    have fs: "free_set ?L \<union> blk ?q (Suc k) = free_set L \<union> blk p k"
      using free_set_remove [OF D(3) lists_rel_distinct [OF D(2)] True] free_setI [where L = L, OF True]
      unfolding buddy_union(1) [OF p, symmetric] by auto
    have cnt: "zone_count ?L zp' + (if zp' = zp then 2 ^ Suc k else 0) =
        zone_count L zp' + (if zp' = zp then 2 ^ k else 0)" for zp'
      using zone_count_remove [of k ?b L zp zp'] True k by (auto split: if_splits)
    have "merge_result s L zp p k (buddy_merge ?t zp ?q (Suc k)) L'"
      using L' fs cnt coalesced_remove [of L zp k ?b] F(7,8) block_ok_static [OF st] st
      unfolding merge_result_def by (simp split: prod.splits split del: if_split)
    then show ?thesis unfolding buddy_merge_step [OF Suc.prems k True] by blast
  qed
qed

text \<open>Releasing a block that is not free.\<close>

lemma buddy_free_ok:
  assumes inv: "pmm_inv s L" and ok: "block_ok s zp p k" and used: "blk p k \<inter> free_set L = {}"
  shows "\<exists>L'. pmm_inv (buddy_free_in_zone s zp p (int k)) L' \<and> free_set L' = free_set L \<union> blk p k \<and>
    pm_static (buddy_free_in_zone s zp p (int k)) = pm_static s"
proof -
  define s1 where "s1 = upd_zone zp (\<lambda>z. z\<lparr>z_free := z_free z + 2 ^ k\<rparr>) s"
  have st1: "pm_static s1 = pm_static s" by (simp add: s1_def)
  have core: "pmm_core s L {}" and cnt: "counts_ok s L" and coal: "coalesced L"
    using inv by (auto simp: pmm_inv_def)
  have "pmm_core s1 L {}" by (rule pmm_core_cong [OF core]) (simp_all add: s1_def)
  then have c1: "pmm_core s1 L (blk p k)" using used by (rule pmm_core_widen) simp
  have ok1: "block_ok s1 zp p k" using ok block_ok_static [OF st1] by simp
  obtain s2 q j L' where run: "buddy_merge s1 zp p k = (s2, q, j)"
    and M: "merge_result s1 L zp p k (s2, q, j) L'"
    using buddy_merge_ok [OF c1 ok1] by (metis prod_cases3)
  let ?s = "zone_push s2 zp q j" and ?L = "fl_push L' zp j q"
  have "k \<le> BUDDY_MAX_ORDER" using ok by (simp add: block_ok_def)
  then have res: "buddy_free_in_zone s zp p (int k) = ?s"
    by (simp add: buddy_free_in_zone_def Let_def run s1_def [symmetric])
  have c2: "pmm_core s2 L' (blk q j)" and st2: "pm_static s2 = pm_static s1"
    and ok2: "block_ok s2 zp q j" and j: "j \<le> BUDDY_MAX_ORDER" and jd: "2 ^ j dvd q"
    using M block_ok_static [of s2 s1] by (auto simp: merge_result_def block_ok_def)
  have "pmm_core ?s ?L {}"
    using pmm_core_push [OF c2 ok2 subset_refl] by simp
  moreover have "coalesced ?L"
    using M coal jd by (intro coalesced_push) (auto simp: merge_result_def)
  moreover have "counts_ok ?s ?L"
    unfolding counts_ok_def
  proof
    fix zp'
    have "zone_count ?L zp' = zone_count L zp' + (if zp' = zp then 2 ^ k else 0)"
      using M zone_count_push [OF j, of L' zp q zp'] by (simp add: merge_result_def)
    then show "z_free (pm_zones ?s zp') = of_nat (zone_count ?L zp')"
      using M cnt by (simp add: merge_result_def zone_push_fields counts_ok_def s1_def)
  qed
  moreover have "free_set ?L = free_set L \<union> blk p k"
    using M by (simp add: merge_result_def free_set_push)
  ultimately show ?thesis
    unfolding res using st1 st2 by (auto simp: pmm_inv_def)
qed

end
