(* ===== verification/Pmm_Api.thy ===== *)
theory Pmm_Api
  imports Pmm_Buddy
begin

text \<open>
  The public interface of the frame allocator: the zone search of \<open>page_alloc_node\<close>, the wrappers
  over it, \<open>page_free\<close>, and the free-list validator.  The abstract view is the set of free frames
  \<open>free_frames s\<close>; every call changes it by exactly the block it hands out or takes back.
\<close>

section \<open>The abstract view\<close>

definition pmm_ok :: "pmm \<Rightarrow> bool" where
  "pmm_ok s \<longleftrightarrow> (\<exists>L. pmm_inv s L)"

definition free_frames :: "pmm \<Rightarrow> nat set" where
  "free_frames s = {f. \<exists>L. pmm_inv s L \<and> f \<in> free_set L}"

text \<open>The links determine the lists.\<close>

lemma pmm_inv_unique: "pmm_inv s L \<Longrightarrow> pmm_inv s L' \<Longrightarrow> L = L'"
proof
  fix x :: "zptr \<times> nat"
  assume "pmm_inv s L" "pmm_inv s L'"
  then have "lists_rel s L" "lists_rel s L'" by (auto simp: pmm_inv_def pmm_core_def)
  then have "map pfn_to_phys (L x) = map pfn_to_phys (L' x)"
    using dll_unique [OF lists_relD(1) [of s L "fst x" "snd x"] lists_relD(1) [of s L' "fst x" "snd x"]] by simp
  then show "L x = L' x" using inj_pfn_to_phys by (metis inj_map_eq_map)
qed

lemma free_frames_eq: "pmm_inv s L \<Longrightarrow> free_frames s = free_set L"
  using pmm_inv_unique by (auto simp: free_frames_def)

lemma pmm_inv_cong:
  assumes "pmm_inv s L" and "pm_static t = pm_static s" and "pm_next t = pm_next s"
    and "pm_prev t = pm_prev s" and "pm_state t = pm_state s" and "pm_zones t = pm_zones s"
  shows "pmm_inv t L"
  using assms pmm_core_cong [of s L "{}" t] by (auto simp: pmm_inv_def counts_ok_def)

text \<open>A block of \<open>2 ^ ord\<close> frames at \<open>p\<close>, aligned to its size and inside zone \<open>zp\<close>, was free and is
  now taken; nothing else changed hands.\<close>

definition took :: "pmm \<Rightarrow> nat \<Rightarrow> zptr \<Rightarrow> nat \<Rightarrow> pmm \<Rightarrow> bool" where
  "took s ord zp p s' \<longleftrightarrow> pmm_ok s' \<and> pm_static s' = pm_static s \<and> block_ok s zp p ord \<and>
     blk p ord \<subseteq> free_frames s \<and> free_frames s' = free_frames s - blk p ord"

text \<open>A zone has no free block that could serve the order.\<close>

definition zone_exhausted :: "pmm \<Rightarrow> zptr \<Rightarrow> nat \<Rightarrow> bool" where
  "zone_exhausted s zp ord \<longleftrightarrow> (\<forall>k. ord \<le> k \<longrightarrow> k \<le> BUDDY_MAX_ORDER \<longrightarrow> z_lists (pm_zones s zp) k = 0)"

text \<open>Exhausted means that no aligned run of that size is free: the lists are fully coalesced, so a
  run of free frames of size \<open>2 ^ ord\<close> lies inside one block of at least that order.\<close>

lemma aligned_eq: "2 ^ k dvd p \<Longrightarrow> 2 ^ k dvd q \<Longrightarrow> p \<in> blk q k \<Longrightarrow> p = q"
  using aligned_iff [of k q p] by (metis dvd_div_mult_self)

lemma free_run_in_block:
  assumes inv: "pmm_inv s L" and ord: "ord \<le> BUDDY_MAX_ORDER" and p: "2 ^ ord dvd p"
    and sub: "blk p ord \<subseteq> free_set L" and z: "\<And>f. f \<in> blk p ord \<Longrightarrow> zone_for_pfn s f = Some zp"
  shows "\<exists>k q. ord \<le> k \<and> q \<in> set (L (zp, k)) \<and> blk p ord \<subseteq> blk q k"
  using ord p sub z
proof (induction ord arbitrary: p)
  case 0
  then obtain zp' k q where q: "q \<in> set (L (zp', k))" "p \<in> blk q k" by (auto elim: free_setE)
  then have "zone_for_pfn s p = Some zp'"
    using inv by (auto simp: pmm_inv_def pmm_core_def blocks_ok_def block_ok_def)
  with 0 q show ?case by auto
next
  case (Suc n)
  note D = pmm_coreD [of s L "{}"]
  have core: "pmm_core s L {}" and coal: "coalesced L" using inv by (auto simp: pmm_inv_def)
  let ?q = "p + 2 ^ n"
  have d: "2 ^ n dvd p" using Suc.prems(2) by (auto intro: power_le_dvd)
  then have d2: "2 ^ n dvd ?q" by simp
  have low: "\<exists>k r. n \<le> k \<and> r \<in> set (L (zp, k)) \<and> blk p n \<subseteq> blk r k"
    using Suc.prems(1,3,4) d by (intro Suc.IH) (auto simp: blk_Suc)
  have high: "\<exists>k r. n \<le> k \<and> r \<in> set (L (zp, k)) \<and> blk ?q n \<subseteq> blk r k"
    using Suc.prems(1,3,4) d2 by (intro Suc.IH) (auto simp: blk_Suc)
  from low high obtain k r k' r' where
    r: "n \<le> k" "r \<in> set (L (zp, k))" "blk p n \<subseteq> blk r k" and
    r': "n \<le> k'" "r' \<in> set (L (zp, k'))" "blk ?q n \<subseteq> blk r' k'" by blast
  have rd: "2 ^ k dvd r" "2 ^ k' dvd r'"
    using pmm_coreD(5) [OF core r(2)] pmm_coreD(5) [OF core r'(2)] by (auto simp: block_ok_def)
  have ne: "blk p (Suc n) \<inter> blk r k \<noteq> {}" "blk p (Suc n) \<inter> blk r' k' \<noteq> {}"
    using r(3) r'(3) blk_self [of p n] blk_self [of ?q n] unfolding blk_Suc by blast+
  show ?case
  proof (cases "Suc n \<le> k \<or> Suc n \<le> k'")
    case True
    then show ?thesis
      using aligned_nested [OF Suc.prems(2) rd(1) _ ne(1)] aligned_nested [OF Suc.prems(2) rd(2) _ ne(2)]
        r(2) r'(2) by blast
  next
    case False
    then have k: "k = n" "k' = n" using r(1) r'(1) by auto
    have "r = p" "r' = ?q"
      using aligned_eq [OF d, of r] aligned_eq [OF d2, of r'] rd k subsetD [OF r(3) blk_self]
        subsetD [OF r'(3) blk_self] by auto
    then show ?thesis
      using coal r(2) r'(2) k Suc_le_lessD [OF Suc.prems(1)] buddy_min_dvd [OF Suc.prems(2)]
      unfolding coalesced_def by metis
  qed
qed

section \<open>The zone search\<close>

lemma took_alloc:
  assumes "pmm_ok s" and "ord \<le> BUDDY_MAX_ORDER"
  obtains "buddy_alloc_in_zone s zp (int ord) = (0, s)" "zone_exhausted s zp ord"
    | p s' where "buddy_alloc_in_zone s zp (int ord) = (p, s')" "0 < p" "took s ord zp p s'"
proof -
  obtain L where L: "pmm_inv s L" using assms(1) by (auto simp: pmm_ok_def)
  then have rel: "lists_rel s L" by (simp add: pmm_inv_def pmm_core_def)
  show ?thesis
  proof (cases rule: buddy_alloc_cases [OF L assms(2), of zp])
    case 1
    then show ?thesis using that(1) list_empty_iff [OF rel] by (auto simp: zone_exhausted_def)
  next
    case (2 p s' L')
    then have "took s ord zp p s'" "0 < p"
      using free_frames_eq [OF L] free_frames_eq [OF 2(2)]
      by (auto simp: took_def pmm_ok_def block_ok_def)
    then show ?thesis using that(2) 2(1) by blast
  qed
qed

lemma took_cong:
  assumes "took s ord zp p s'" and "pm_static t = pm_static s'" and "pm_next t = pm_next s'"
    and "pm_prev t = pm_prev s'" and "pm_state t = pm_state s'" and "pm_zones t = pm_zones s'"
  shows "took s ord zp p t"
proof -
  obtain L where L: "pmm_inv s' L" using assms(1) by (auto simp: took_def pmm_ok_def)
  have "pmm_inv t L" by (rule pmm_inv_cong [OF L assms(2-6)])
  then show ?thesis
    using assms(1,2) free_frames_eq [OF L] free_frames_eq [of t L] by (auto simp: took_def pmm_ok_def)
qed

lemma try_zones_result:
  assumes "pmm_ok s" and "ord \<le> BUDDY_MAX_ORDER"
  shows "try_zones s (int ord) node zps = (0, s) \<and> (\<forall>zp \<in> set zps. zone_exhausted s zp ord) \<or>
    (\<exists>us zp vs p s'. zps = us @ zp # vs \<and> try_zones s (int ord) node zps = (pfn_to_phys p, s') \<and>
       (\<forall>u \<in> set us. zone_exhausted s u ord) \<and> took s ord zp p s')"
proof (induction zps)
  case Nil
  then show ?case by (simp add: pmm_consts)
next
  case (Cons zp zps)
  show ?case
  proof (cases rule: took_alloc [OF assms, of zp])
    case 1
    then have eq: "try_zones s (int ord) node (zp # zps) = try_zones s (int ord) node zps" by simp
    from Cons.IH show ?thesis
    proof
      assume "try_zones s (int ord) node zps = (0, s) \<and> (\<forall>zp \<in> set zps. zone_exhausted s zp ord)"
      with eq 1(2) show ?thesis by simp
    next
      assume "\<exists>us zq vs p s'. zps = us @ zq # vs \<and> try_zones s (int ord) node zps = (pfn_to_phys p, s') \<and>
        (\<forall>u \<in> set us. zone_exhausted s u ord) \<and> took s ord zq p s'"
      then obtain us zq vs p s' where "zp # zps = (zp # us) @ zq # vs"
        "try_zones s (int ord) node (zp # zps) = (pfn_to_phys p, s')"
        "\<forall>u \<in> set (zp # us). zone_exhausted s u ord" "took s ord zq p s'"
        using eq 1(2) by auto
      then show ?thesis by blast
    qed
  next
    case (2 p s')
    then obtain t where "try_zones s (int ord) node (zp # zps) = (pfn_to_phys p, t)" "took s ord zp p t"
      using took_cong [OF 2(3)] by fastforce
    then have "zp # zps = [] @ zp # zps \<and> try_zones s (int ord) node (zp # zps) = (pfn_to_phys p, t) \<and>
       (\<forall>u \<in> set []. zone_exhausted s u ord) \<and> took s ord zp p t" by simp
    then show ?thesis by blast
  qed
qed

text \<open>The order of the search: every node and every allowed zone once, the DMA zone last.\<close>

lemma set_alloc_candidates:
  assumes "nd < n"
  shows "set (alloc_candidates n nd tries) = {..<n} \<times> set tries"
proof -
  have "(\<lambda>k. if k = 0 then nd else if k \<le> nd then k - 1 else k) ` {0..<n} = {..<n}" (is "?f ` _ = _")
  proof
    show "?f ` {0..<n} \<subseteq> {..<n}" using assms by auto
    show "{..<n} \<subseteq> ?f ` {0..<n}"
    proof
      fix m assume "m \<in> {..<n}"
      then have m: "m < n" by simp
      consider "m = nd" | "m < nd" | "nd < m" by linarith
      then show "m \<in> ?f ` {0..<n}"
      proof cases
        case 1
        then show ?thesis using m by (intro image_eqI [of _ _ 0]) auto
      next
        case 2
        then show ?thesis using assms by (intro image_eqI [of _ _ "Suc m"]) auto
      next
        case 3
        then show ?thesis using m by (intro image_eqI [of _ _ m]) auto
      qed
    qed
  qed
  moreover have "(a, zi) \<in> set (alloc_candidates n nd tries) \<longleftrightarrow> a \<in> ?f ` {0..<n} \<and> zi \<in> set tries" for a zi
    by (auto simp: alloc_candidates_def)
  ultimately show ?thesis by auto
qed

lemma alloc_candidates_dma_last:
  "\<exists>us vs. alloc_candidates n nd tries = us @ vs \<and> (\<forall>zp \<in> set us. snd zp \<noteq> ZONE_DMA) \<and>
     (\<forall>zp \<in> set vs. snd zp = ZONE_DMA)"
proof -
  define c where "c b = concat (map (\<lambda>k. concat (map (\<lambda>zi. if (zi = ZONE_DMA) = b
      then [(if k = 0 then nd else if k \<le> nd then k - 1 else k, zi)] else []) tries)) [0..<n])" for b
  have "alloc_candidates n nd tries = c False @ c True"
    by (simp add: alloc_candidates_def c_def)
  moreover have "\<forall>zp \<in> set (c False). snd zp \<noteq> ZONE_DMA" "\<forall>zp \<in> set (c True). snd zp = ZONE_DMA"
    by (auto simp: c_def split: if_splits)
  ultimately show ?thesis by blast
qed

lemma pmm_ok_zones_wf: "pmm_ok s \<Longrightarrow> zones_wf s"
  by (auto simp: pmm_ok_def pmm_inv_def pmm_core_def)

text \<open>What a search over the zones allowed by a hint may return.\<close>

definition alloc_outcome :: "pmm \<Rightarrow> nat \<Rightarrow> int \<Rightarrow> nat \<times> pmm \<Rightarrow> bool" where
  "alloc_outcome s ord hint r \<longleftrightarrow>
     r = (0, s) \<and> (\<forall>nd < pm_nr_nodes s. \<forall>zi \<in> set (zone_try_order hint). zone_exhausted s (nd, zi) ord) \<or>
     (\<exists>nd zi p s'. r = (pfn_to_phys p, s') \<and> nd < pm_nr_nodes s \<and> zi \<in> set (zone_try_order hint) \<and>
        took s ord (nd, zi) p s' \<and>
        (zi = ZONE_DMA \<longrightarrow> (\<forall>n < pm_nr_nodes s. \<forall>z \<in> set (zone_try_order hint).
           z \<noteq> ZONE_DMA \<longrightarrow> zone_exhausted s (n, z) ord)))"

lemma page_alloc_node_outcome:
  assumes ok: "pmm_ok s" and ord: "ord \<le> BUDDY_MAX_ORDER"
  shows "alloc_outcome s ord hint (page_alloc_node s (int ord) hint node)"
proof -
  define nd where "nd = (if node < 0 \<or> node \<ge> int (pm_nr_nodes s) then 0 else nat node)"
  have "0 < pm_nr_nodes s" using pmm_ok_zones_wf [OF ok] by (simp add: zones_wf_def)
  then have nd: "nd < pm_nr_nodes s" by (auto simp: nd_def)
  let ?c = "alloc_candidates (pm_nr_nodes s) nd (zone_try_order hint)"
  have run: "page_alloc_node s (int ord) hint node = try_zones s (int ord) nd ?c"
    using ord by (simp add: page_alloc_node_def nd_def Let_def)
  note set = set_alloc_candidates [OF nd, of "zone_try_order hint"]
  obtain us vs where c: "?c = us @ vs" "\<forall>zp \<in> set us. snd zp \<noteq> ZONE_DMA" "\<forall>zp \<in> set vs. snd zp = ZONE_DMA"
    using alloc_candidates_dma_last by blast
  from try_zones_result [OF ok ord, of nd ?c] show ?thesis
  proof
    assume "try_zones s (int ord) nd ?c = (0, s) \<and> (\<forall>zp \<in> set ?c. zone_exhausted s zp ord)"
    then show ?thesis unfolding run set by (auto simp: alloc_outcome_def)
  next
    assume "\<exists>xs zp ys p s'. ?c = xs @ zp # ys \<and> try_zones s (int ord) nd ?c = (pfn_to_phys p, s') \<and>
       (\<forall>u \<in> set xs. zone_exhausted s u ord) \<and> took s ord zp p s'"
    then obtain xs zp ys p s' where x: "?c = xs @ zp # ys" "try_zones s (int ord) nd ?c = (pfn_to_phys p, s')"
       "\<forall>u \<in> set xs. zone_exhausted s u ord" "took s ord zp p s'" by blast
    have zp: "zp \<in> {..<pm_nr_nodes s} \<times> set (zone_try_order hint)" using x(1) set by auto
    have "zone_exhausted s u ord" if "snd zp = ZONE_DMA" "u \<in> set ?c" "snd u \<noteq> ZONE_DMA" for u
    proof -
      have "u \<in> set us" using that c by auto
      moreover have "set us \<subseteq> set xs"
      proof -
        from c(1) x(1) have "us @ vs = xs @ zp # ys" by simp
        then obtain w where "us = xs @ w \<and> w @ vs = zp # ys \<or> us @ w = xs"
          unfolding append_eq_append_conv2 by blast
        then show ?thesis using c(2) that(1) by (cases w) auto
      qed
      ultimately show ?thesis using x(3) by blast
    qed
    then have "snd zp = ZONE_DMA \<longrightarrow> (\<forall>n < pm_nr_nodes s. \<forall>z \<in> set (zone_try_order hint).
           z \<noteq> ZONE_DMA \<longrightarrow> zone_exhausted s (n, z) ord)" unfolding set by auto
    then show ?thesis
      unfolding run x(2) alloc_outcome_def using zp x(4) by (cases zp) auto
  qed
qed

lemma page_alloc_outcome:
  assumes "pmm_ok s" and "ord \<le> BUDDY_MAX_ORDER" and "\<not> env_fail_injected env"
  shows "alloc_outcome s ord hint (page_alloc env s (int ord) hint)"
  using assms page_alloc_node_outcome by (simp add: page_alloc_def)

lemma took_pos: "took s ord zp p s' \<Longrightarrow> 0 < p"
  by (auto simp: took_def block_ok_def)

lemma page_alloc_took:
  assumes ok: "pmm_ok s" and run: "page_alloc env s order hint = (a, s')" and a: "a \<noteq> 0"
  obtains nd zi p where "a = pfn_to_phys p" "nd < pm_nr_nodes s" "zi \<in> set (zone_try_order hint)"
    "took s (nat order) (nd, zi) p s'" "0 \<le> order" "order \<le> int BUDDY_MAX_ORDER"
proof -
  have inj: "\<not> env_fail_injected env" and o: "0 \<le> order" "order \<le> int BUDDY_MAX_ORDER"
    using run a by (auto simp: page_alloc_def page_alloc_node_def Let_def pmm_consts split: if_splits)
  then have "alloc_outcome s (nat order) hint (a, s')"
    using page_alloc_outcome [OF ok, of "nat order" env hint] run by auto
  then show ?thesis using that a o by (auto simp: alloc_outcome_def)
qed

section \<open>Release\<close>

lemma page_free_ok:
  assumes ok: "pmm_ok s" and b: "block_ok s zp p k" and used: "blk p k \<inter> free_frames s = {}"
  shows "pmm_ok (page_free s (pfn_to_phys p) (int k))"
    and "free_frames (page_free s (pfn_to_phys p) (int k)) = free_frames s \<union> blk p k"
    and "pm_static (page_free s (pfn_to_phys p) (int k)) = pm_static s"
proof -
  obtain L where L: "pmm_inv s L" using ok by (auto simp: pmm_ok_def)
  have p: "0 < p" "p < 2 ^ 32" "zone_for_pfn s p = Some zp"
    using b block_ok_bounds(1) [OF pmm_ok_zones_wf [OF ok] b] by (auto simp: block_ok_def)
  then have run: "page_free s (pfn_to_phys p) (int k) = buddy_free_in_zone s zp p (int k)"
    using pfn_to_phys_aligned by (simp add: page_free_def phys_to_pfn_to_phys pmm_consts)
  obtain L' where L': "pmm_inv (buddy_free_in_zone s zp p (int k)) L'" "free_set L' = free_set L \<union> blk p k"
      "pm_static (buddy_free_in_zone s zp p (int k)) = pm_static s"
    using buddy_free_ok [OF L b] used free_frames_eq [OF L] by auto
  show "pmm_ok (page_free s (pfn_to_phys p) (int k))"
    and "free_frames (page_free s (pfn_to_phys p) (int k)) = free_frames s \<union> blk p k"
    and "pm_static (page_free s (pfn_to_phys p) (int k)) = pm_static s"
    unfolding run using L' free_frames_eq [OF L] free_frames_eq [OF L'(1)] by (auto simp: pmm_ok_def)
qed

end
