(* ===== verification/Pmm_Spec.thy ===== *)
theory Pmm_Spec
  imports Pmm_Api
begin

text \<open>
  What the frame allocator promises its clients: exact counters, the validator's verdict, the size
  computation of the contiguous interface, the address limits of the DMA interface, and the contract
  \<open>frame_source\<close>, interpreted on the buddy allocator.
\<close>

section \<open>Exact counters\<close>

lemma zone_frames_eq:
  assumes core: "pmm_core s L H"
  shows "{f \<in> free_set L. zone_for_pfn s f = Some zp} = (\<Union>k \<in> {..BUDDY_MAX_ORDER}. \<Union>p \<in> set (L (zp, k)). blk p k)"
proof -
  note D = pmm_coreD [OF core]
  have z: "zone_for_pfn s f = Some zp'" "k \<le> BUDDY_MAX_ORDER"
    if "p \<in> set (L (zp', k))" "f \<in> blk p k" for p f zp' k
    using D(5) [OF that(1)] that(2) by (auto simp: block_ok_def)
  show ?thesis
  proof (intro equalityI subsetI)
    fix f assume "f \<in> {f \<in> free_set L. zone_for_pfn s f = Some zp}"
    then obtain zp' k p where "p \<in> set (L (zp', k))" "f \<in> blk p k" "zone_for_pfn s f = Some zp"
      by (blast elim: free_setE)
    with z [of p zp' k f] show "f \<in> (\<Union>k \<in> {..BUDDY_MAX_ORDER}. \<Union>p \<in> set (L (zp, k)). blk p k)"
      by auto
  next
    fix f assume "f \<in> (\<Union>k \<in> {..BUDDY_MAX_ORDER}. \<Union>p \<in> set (L (zp, k)). blk p k)"
    then show "f \<in> {f \<in> free_set L. zone_for_pfn s f = Some zp}"
      by (blast intro: free_setI z(1))
  qed
qed

lemma zone_count_card:
  assumes core: "pmm_core s L H"
  shows "zone_count L zp = card {f \<in> free_set L. zone_for_pfn s f = Some zp}"
proof -
  note D = pmm_coreD [OF core]
  have 1: "card (\<Union>p \<in> set (L (zp, k)). blk p k) = length (L (zp, k)) * 2 ^ k" for k
  proof -
    have "card (\<Union>p \<in> set (L (zp, k)). blk p k) = (\<Sum>p \<in> set (L (zp, k)). card (blk p k))"
      by (intro card_UN_disjoint) (simp_all, blast dest: blocks_disjD [OF D(3)])
    then show ?thesis
      using distinct_card [OF lists_rel_distinct [OF D(2), of zp k]] by simp
  qed
  have "card (\<Union>k \<in> {..BUDDY_MAX_ORDER}. \<Union>p \<in> set (L (zp, k)). blk p k) =
      (\<Sum>k \<in> {..BUDDY_MAX_ORDER}. card (\<Union>p \<in> set (L (zp, k)). blk p k))"
    by (intro card_UN_disjoint) (simp_all, blast dest: blocks_disjD [OF D(3)])
  then show ?thesis by (simp add: zone_frames_eq [OF core] 1 zone_count_def)
qed

lemma free_set_bounds:
  assumes "pmm_core s L H"
  shows "free_set L \<subseteq> {pm_base s..<pm_nr_frames s}"
proof
  fix f assume "f \<in> free_set L"
  then obtain zp k p where "p \<in> set (L (zp, k))" "f \<in> blk p k" by (rule free_setE)
  then have "zone_for_pfn s f = Some zp"
    using pmm_coreD(5) [OF assms, of p zp k] by (simp add: block_ok_def)
  then show "f \<in> {pm_base s..<pm_nr_frames s}"
    by (cases zp) (auto simp: zone_for_pfn_Some dest: zone_of_pfn_less)
qed

lemma finite_free_set: "pmm_core s L H \<Longrightarrow> finite (free_set L)"
  by (rule finite_subset [OF free_set_bounds]) auto

lemma sum_zones_eq:
  "sum_zones s free = (\<Sum>nd < pm_nr_nodes s. \<Sum>zi < NR_ZONES.
     if free then z_free (pm_zones s (nd, zi)) else z_managed (pm_zones s (nd, zi)))"
proof -
  have 1: "fold (\<lambda>zi t. t + g zi) [0..<m] a = a + sum g {..<m}" for g :: "nat \<Rightarrow> u32" and m a
    by (induction m) (auto simp: ac_simps)
  have "fold (\<lambda>nd t. t + h nd) [0..<m] a = a + sum h {..<m}" for h :: "nat \<Rightarrow> u32" and m a
    by (rule 1)
  then show ?thesis unfolding sum_zones_def 1 by simp
qed

lemma free_set_partition:
  assumes core: "pmm_core s L H"
  shows "card (free_set L) = (\<Sum>nd < pm_nr_nodes s. \<Sum>zi < NR_ZONES. zone_count L (nd, zi))"
proof -
  let ?Z = "{..<pm_nr_nodes s} \<times> {..<NR_ZONES}"
  note D = pmm_coreD [OF core]
  have node: "node_of_pfn s f < pm_nr_nodes s" for f
    using D(1) by (cases "pm_numa_live s") (auto simp: zones_wf_def node_of_pfn_def)
  have cover: "free_set L = (\<Union>zp \<in> ?Z. {f \<in> free_set L. zone_for_pfn s f = Some zp})"
  proof (intro equalityI subsetI)
    fix f assume f: "f \<in> free_set L"
    then obtain zp k p where "p \<in> set (L (zp, k))" "f \<in> blk p k" by (rule free_setE)
    then have z: "zone_for_pfn s f = Some zp" using D(5) [of p zp k] by (simp add: block_ok_def)
    then have "zp \<in> ?Z" using node by (cases zp) (auto simp: zone_for_pfn_Some dest: zone_of_pfn_less)
    with f z show "f \<in> (\<Union>zp \<in> ?Z. {f \<in> free_set L. zone_for_pfn s f = Some zp})" by blast
  qed blast
  have "card (free_set L) = (\<Sum>zp \<in> ?Z. card {f \<in> free_set L. zone_for_pfn s f = Some zp})"
    using finite_free_set [OF core] by (subst cover, intro card_UN_disjoint) auto
  also have "\<dots> = (\<Sum>zp \<in> ?Z. zone_count L zp)"
    by (simp add: zone_count_card [OF core])
  finally show ?thesis by (simp add: sum.cartesian_product)
qed

lemma pmm_free_frames_card:
  assumes ok: "pmm_ok s"
  shows "unat (pmm_free_frames s) = card (free_frames s)"
proof -
  obtain L where L: "pmm_inv s L" using ok by (auto simp: pmm_ok_def)
  then have core: "pmm_core s L {}" and cnt: "counts_ok s L" by (auto simp: pmm_inv_def)
  have "card (free_set L) \<le> card {pm_base s..<pm_nr_frames s}"
    using free_set_bounds [OF core] by (intro card_mono) auto
  also have "\<dots> < 2 ^ 32" using pmm_coreD(1) [OF core] by (auto simp: zones_wf_def)
  finally have lt: "card (free_set L) < 2 ^ 32" .
  have "pmm_free_frames s = of_nat (card (free_set L))"
    using cnt by (simp add: pmm_free_frames_def sum_zones_eq counts_ok_def free_set_partition [OF core])
  then show ?thesis
    using lt free_frames_eq [OF L] by (simp add: unat_of_nat)
qed

section \<open>The validator\<close>

lemma validate_walk_ok:
  assumes core: "pmm_core s L H" and zp: "zp = (nd, zi)"
    and d: "dll (pm_next s) (pm_prev s) pv cur (map pfn_to_phys ps)"
    and sub: "set ps \<subseteq> set (L (zp, k))" and fuel: "length ps \<le> fuel"
    and n: "(of_nat (w + length ps) :: u32) = z_nr (pm_zones s zp) k"
  shows "validate_walk fuel s zp k cur pv w"
  using d sub fuel n
proof (induction ps arbitrary: fuel cur pv w)
  case Nil
  then show ?case by (cases fuel) auto
next
  case (Cons p ps)
  note D = pmm_coreD [OF core]
  obtain m where m: "fuel = Suc m" using Cons.prems(3) by (cases fuel) auto
  have p: "p \<in> set (L (zp, k))" using Cons.prems(2) by simp
  have ok: "block_ok s zp p k" and st: "pm_state s p = of_nat k" using D(5,6) [OF p] by auto
  note B = block_ok_bounds [OF D(1) ok]
  have z: "z_node (pm_zones s zp) = node_of_pfn s p"
    using ok D(1) blk_self [of p k] by (auto simp: block_ok_def zp zones_wf_def zone_for_pfn_Some)
  have "validate_walk m s zp k (pm_next s (pfn_to_phys p)) (pfn_to_phys p) (Suc w)"
    using Cons.prems m by (intro Cons.IH) auto
  then show ?case
    using Cons.prems(1) B st z pfn_to_phys_aligned
    by (auto simp: m Let_def link_load_at_def phys_to_pfn_to_phys pmm_consts)
qed

lemma list_length_bound:
  assumes core: "pmm_core s L H"
  shows "length (L (zp, k)) < 2 ^ 32 - 2 ^ 13"
proof -
  note D = pmm_coreD [OF core]
  have "set (L (zp, k)) \<subseteq> {..<pm_nr_frames s}"
    using block_ok_bounds(2) [OF D(1) D(5)] by (meson lessThan_iff subsetI)
  then have "card (set (L (zp, k))) \<le> card {..<pm_nr_frames s}" by (intro card_mono) auto
  then show ?thesis
    using distinct_card [OF lists_rel_distinct [OF D(2), of zp k]] D(1) by (simp add: zones_wf_def)
qed

lemma pmm_validate_ok: "pmm_ok s \<Longrightarrow> pmm_validate s"
proof -
  assume "pmm_ok s"
  then obtain L where core: "pmm_core s L {}" by (auto simp: pmm_ok_def pmm_inv_def)
  note D = pmm_coreD [OF core]
  have "validate_walk (unat (z_nr (pm_zones s zp) k + 4)) s zp k (z_lists (pm_zones s zp) k) 0 0" for zp k
  proof -
    obtain nd zi where zp: "zp = (nd, zi)" by force
    have b: "length (L (zp, k)) + 4 < 2 ^ 32" using list_length_bound [OF core, of zp k] by simp
    have "unat (z_nr (pm_zones s zp) k + 4) = length (L (zp, k)) + 4"
    proof -
      have "z_nr (pm_zones s zp) k + 4 = of_nat (length (L (zp, k)) + 4)"
        using lists_relD(2) [OF D(2), of zp k] by simp
      then show ?thesis using b by (simp only: unat_of_nat) simp
    qed
    then show ?thesis
      using validate_walk_ok [OF core zp lists_relD(1) [OF D(2), of zp k] subset_refl, of _ 0]
        lists_relD(2) [OF D(2), of zp k] by simp
  qed
  then show "pmm_validate s" by (simp add: pmm_validate_def Let_def list_all_iff)
qed

lemma unat_pow2: "k < 32 \<Longrightarrow> unat (2 ^ k :: u32) = 2 ^ k"
proof -
  assume "k < 32"
  then have "unat (of_nat (2 ^ k) :: u32) = 2 ^ k"
    using power_strict_increasing [of k 32 "2::nat"] by (simp only: unat_of_nat) simp
  then show ?thesis by simp
qed

section \<open>The size computation of the contiguous interface\<close>

lemma ceil_log2_loop_ok:
  assumes "n \<le> 2 ^ 31" and "k \<le> 31"
  shows "\<exists>j \<ge> k. ceil_log2_loop n (2 ^ k) k = Some j \<and> unat n \<le> 2 ^ j \<and> (\<forall>i \<ge> k. unat n \<le> 2 ^ i \<longrightarrow> j \<le> i)"
  using assms(2)
proof (induction "31 - k" arbitrary: k)
  case 0
  then have "k = 31" by simp
  moreover have "\<not> 2 ^ 31 < n" "unat n \<le> 2 ^ 31"
    using assms(1) by (simp_all add: not_less word_le_nat_alt)
  ultimately show ?case by (subst ceil_log2_loop.simps) auto
next
  case (Suc m)
  have pow: "unat (2 ^ k :: u32) = 2 ^ k" using Suc.hyps(2) by (intro unat_pow2) simp
  show ?case
  proof (cases "2 ^ k < n")
    case True
    have sh: "push_bit 1 (2 ^ k :: u32) = 2 ^ Suc k" by (simp add: push_bit_eq_mult)
    have "ceil_log2_loop n (2 ^ k) k = ceil_log2_loop n (2 ^ Suc k) (Suc k)"
      using True sh by (subst ceil_log2_loop.simps) (simp only: if_True)
    moreover have "\<not> unat n \<le> 2 ^ k" using True pow by (simp add: word_less_nat_alt)
    ultimately show ?thesis
      using Suc.hyps(1) [of "Suc k"] Suc.hyps(2) by (metis Suc_diff_Suc Suc_leD Suc_leI diff_Suc_Suc le_antisym not_less_eq_eq zero_less_Suc zero_less_diff nat.inject)
  next
    case False
    then have "ceil_log2_loop n (2 ^ k) k = Some k" by (subst ceil_log2_loop.simps) simp
    moreover have "unat n \<le> 2 ^ k" using False pow by (simp add: word_less_nat_alt)
    ultimately show ?thesis by auto
  qed
qed

lemma ceil_log2_least:
  assumes "n \<le> 2 ^ 31"
  shows "\<exists>k. ceil_log2 n = Some k \<and> unat n \<le> 2 ^ k \<and> (\<forall>j. unat n \<le> 2 ^ j \<longrightarrow> k \<le> j)"
proof (cases "n \<le> 1")
  case True
  then have "unat n \<le> 1" by (simp add: word_le_nat_alt)
  with True show ?thesis by (auto simp: ceil_log2_def)
next
  case False
  then show ?thesis using ceil_log2_loop_ok [OF assms, of 0] by (simp add: ceil_log2_def)
qed

lemma ceil_log2_loop_zero: "ceil_log2_loop n v k = Some y \<Longrightarrow> \<not> (v = 0 \<and> 0 < n)"
proof (rule ceil_log2_loop.raw_induct [of "\<lambda>n v k y. \<not> (v = 0 \<and> 0 < n)" n v k y])
  fix f :: "u32 \<Rightarrow> u32 \<Rightarrow> nat \<Rightarrow> nat option" and n v k y
  assume IH: "\<And>n v k y. f n v k = Some y \<Longrightarrow> \<not> (v = 0 \<and> 0 < n)"
    and "(if v < n then f n (push_bit 1 v) (Suc k) else Some k) = Some y"
  then show "\<not> (v = 0 \<and> 0 < n)" using IH [of n "push_bit 1 v" "Suc k" y] by auto
qed

lemma ceil_log2_loop_big:
  assumes "2 ^ 31 < n" and "k \<le> 31"
  shows "ceil_log2_loop n (2 ^ k) k = None"
  using assms(2)
proof (induction "31 - k" arbitrary: k)
  case 0
  then have k: "k = 31" by simp
  have z: "push_bit 1 (2 ^ 31 :: u32) = 0" by (simp add: push_bit_eq_mult)
  have "ceil_log2_loop n 0 32 = None"
    using ceil_log2_loop_zero [of n 0 32] assms(1) by (cases "ceil_log2_loop n 0 32") (auto simp: word_gt_0)
  moreover have "ceil_log2_loop n (2 ^ 31) 31 = ceil_log2_loop n (push_bit 1 (2 ^ 31)) 32"
    using assms(1) by (subst ceil_log2_loop.simps) simp
  ultimately show ?case unfolding k z by simp
next
  case (Suc m)
  have "unat (2 ^ k :: u32) = 2 ^ k" using Suc.hyps(2) by (intro unat_pow2) simp
  moreover have "(2::nat) ^ k \<le> 2 ^ 31" using Suc.hyps(2) by (intro power_increasing) auto
  ultimately have lt: "2 ^ k < n" using assms(1) by (simp add: word_less_nat_alt)
  have "push_bit 1 (2 ^ k :: u32) = 2 ^ Suc k" by (simp add: push_bit_eq_mult)
  then have "ceil_log2_loop n (2 ^ k) k = ceil_log2_loop n (2 ^ Suc k) (Suc k)"
    using lt by (subst ceil_log2_loop.simps) (simp only: if_True)
  then show ?case using Suc.hyps(1) [of "Suc k"] Suc.hyps(2) by simp
qed

section \<open>Address limits\<close>

lemma low_zone_limit:
  assumes "block_ok s (nd, zi) p k" and "zi = ZONE_DMA32 \<or> zi = ZONE_DMA"
  shows "pfn_to_phys p + 4096 * 2 ^ k \<le> 2 ^ 32"
proof -
  have "0 < (2 ^ k :: nat)" by simp
  then have "p + 2 ^ k - 1 \<in> blk p k" unfolding blk_def atLeastLessThan_iff by linarith
  then have "zone_of_pfn s (p + 2 ^ k - 1) = Some zi"
    using assms(1) by (simp add: block_ok_def zone_for_pfn_Some)
  then have "p + 2 ^ k - 1 < 2 ^ 20"
    using assms(2) by (auto simp: zone_of_pfn_def pmm_consts split: if_splits)
  then have "p + 2 ^ k \<le> 2 ^ 20" by simp
  then have "4096 * (p + 2 ^ k) \<le> 4096 * 2 ^ 20" by (rule mult_le_mono2)
  then show ?thesis by (simp add: pfn_to_phys_mult distrib_left)
qed

section \<open>The contract of a frame source\<close>

definition frames_of :: "nat \<Rightarrow> nat \<Rightarrow> nat set" where
  "frames_of a k = blk (a div 4096) k"

text \<open>A client keeps the blocks it was given, as pairs of address and order, and returns only those.\<close>

datatype 'q client_op = Get 'q | Put nat nat

fun client_step ::
  "('q \<Rightarrow> 's \<Rightarrow> nat \<times> 's) \<Rightarrow> ('q \<Rightarrow> nat) \<Rightarrow> (nat \<Rightarrow> nat \<Rightarrow> 's \<Rightarrow> 's) \<Rightarrow> 'q client_op \<Rightarrow>
   's \<times> (nat \<times> nat) list \<Rightarrow> 's \<times> (nat \<times> nat) list" where
  "client_step alloc order_of release (Get q) (s, own) =
     (case alloc q s of (a, s') \<Rightarrow> if a = 0 then (s', own) else (s', (a, order_of q) # own))"
| "client_step alloc order_of release (Put a k) (s, own) =
     (if (a, k) \<in> set own then (release a k s, remove1 (a, k) own) else (s, own))"

definition owned :: "(nat \<times> nat) list \<Rightarrow> nat set" where
  "owned own = (\<Union>(a, k) \<in> set own. frames_of a k)"

fun owned_disjoint :: "(nat \<times> nat) list \<Rightarrow> bool" where
  "owned_disjoint [] \<longleftrightarrow> True"
| "owned_disjoint ((a, k) # own) \<longleftrightarrow> frames_of a k \<inter> owned own = {} \<and> owned_disjoint own"

lemma owned_Cons [simp]: "owned ((a, k) # own) = frames_of a k \<union> owned own"
  by (auto simp: owned_def)

lemma owned_remove1:
  "owned_disjoint own \<Longrightarrow> (a, k) \<in> set own \<Longrightarrow>
   owned own = frames_of a k \<union> owned (remove1 (a, k) own) \<and>
   frames_of a k \<inter> owned (remove1 (a, k) own) = {} \<and> owned_disjoint (remove1 (a, k) own)"
  by (induction own) auto

locale frame_source =
  fixes ok :: "'s \<Rightarrow> bool" and avail :: "'s \<Rightarrow> nat set" and shape :: "'s \<Rightarrow> nat \<Rightarrow> nat \<Rightarrow> bool"
    and alloc :: "'q \<Rightarrow> 's \<Rightarrow> nat \<times> 's" and order_of :: "'q \<Rightarrow> nat"
    and release :: "nat \<Rightarrow> nat \<Rightarrow> 's \<Rightarrow> 's"
  assumes alloc_keeps: "ok s \<Longrightarrow> alloc q s = (a, s') \<Longrightarrow> ok s' \<and> shape s' = shape s"
    and alloc_none: "ok s \<Longrightarrow> alloc q s = (0, s') \<Longrightarrow> avail s' = avail s"
    and alloc_some: "ok s \<Longrightarrow> alloc q s = (a, s') \<Longrightarrow> a \<noteq> 0 \<Longrightarrow>
      shape s a (order_of q) \<and> frames_of a (order_of q) \<subseteq> avail s \<and>
      avail s' = avail s - frames_of a (order_of q)"
    and release_ok: "ok s \<Longrightarrow> shape s a k \<Longrightarrow> frames_of a k \<inter> avail s = {} \<Longrightarrow>
      ok (release a k s) \<and> shape (release a k s) = shape s \<and> avail (release a k s) = avail s \<union> frames_of a k"
begin

definition client_inv :: "nat set \<Rightarrow> 's \<times> (nat \<times> nat) list \<Rightarrow> bool" where
  "client_inv F c \<longleftrightarrow> (case c of (s, own) \<Rightarrow> ok s \<and> owned_disjoint own \<and> avail s \<inter> owned own = {} \<and>
     avail s \<union> owned own = F \<and> (\<forall>(a, k) \<in> set own. shape s a k))"

lemma client_step_inv:
  assumes "client_inv F c"
  shows "client_inv F (client_step alloc order_of release opn c)"
proof -
  obtain s own where c: "c = (s, own)" by force
  note I = assms [unfolded client_inv_def c, simplified]
  show ?thesis
  proof (cases opn)
    case (Get q)
    obtain a s' where r: "alloc q s = (a, s')" by force
    show ?thesis
    proof (cases "a = 0")
      case True
      then show ?thesis
        using I r alloc_keeps [of s q a s'] alloc_none [of s q s'] by (simp add: client_inv_def c Get)
    next
      case False
      then have "frames_of a (order_of q) \<subseteq> avail s" "avail s' = avail s - frames_of a (order_of q)"
        "shape s a (order_of q)" "ok s'" "shape s' = shape s"
        using I alloc_keeps [OF _ r] alloc_some [OF _ r] by auto
      then show ?thesis using I False r by (auto simp: client_inv_def c Get)
    qed
  next
    case (Put a k)
    show ?thesis
    proof (cases "(a, k) \<in> set own")
      case True
      note R = owned_remove1 [OF _ True]
      have "shape s a k" "frames_of a k \<inter> avail s = {}" using I True R by auto
      then have "ok (release a k s)" "shape (release a k s) = shape s"
        "avail (release a k s) = avail s \<union> frames_of a k" using release_ok I by auto
      then show ?thesis
        using I R True set_remove1_subset [of "(a, k)" own] by (auto simp: client_inv_def c Put)
    qed (use assms in \<open>simp add: c Put\<close>)
  qed
qed

lemma client_fold_inv:
  "client_inv F c \<Longrightarrow> client_inv F (fold (client_step alloc order_of release) ops c)"
proof (induction ops arbitrary: c)
  case (Cons opn ops)
  then show ?case using client_step_inv [OF Cons.prems] by simp
qed simp

lemma client_run:
  assumes "ok s" and "fold (client_step alloc order_of release) ops (s, []) = (s', own)"
  shows "ok s'" and "owned_disjoint own" and "avail s' \<inter> owned own = {}" and "avail s' \<union> owned own = avail s"
proof -
  have "client_inv (avail s) (s, [])" using assms(1) by (simp add: client_inv_def owned_def)
  from client_fold_inv [OF this, of ops] assms(2)
  show "ok s'" and "owned_disjoint own" and "avail s' \<inter> owned own = {}" and "avail s' \<union> owned own = avail s"
    by (simp_all add: client_inv_def)
qed

end

section \<open>The buddy allocator is a frame source\<close>

type_synonym page_req = "pmm_env \<times> int \<times> int"

definition req_alloc :: "page_req \<Rightarrow> pmm \<Rightarrow> nat \<times> pmm" where
  "req_alloc q s = (case q of (env, order, hint) \<Rightarrow> page_alloc env s order hint)"

definition req_order :: "page_req \<Rightarrow> nat" where
  "req_order q = nat (fst (snd q))"

definition req_free :: "nat \<Rightarrow> nat \<Rightarrow> pmm \<Rightarrow> pmm" where
  "req_free a k s = page_free s a (int k)"

definition block_shape :: "pmm \<Rightarrow> nat \<Rightarrow> nat \<Rightarrow> bool" where
  "block_shape s a k \<longleftrightarrow> (\<exists>zp p. a = pfn_to_phys p \<and> block_ok s zp p k)"

lemma frames_of_pfn [simp]: "frames_of (pfn_to_phys p) k = blk p k"
  by (simp add: frames_of_def pfn_to_phys_mult)

lemma block_shape_static: "pm_static s = pm_static t \<Longrightarrow> block_shape s = block_shape t"
  using block_ok_static [of s t] by (auto simp: block_shape_def fun_eq_iff)

lemma page_alloc_fail_same:
  assumes "pmm_ok s" and "page_alloc env s order hint = (0, s')"
  shows "s' = s"
proof (cases "env_fail_injected env \<or> order < 0 \<or> order > int BUDDY_MAX_ORDER")
  case True
  then show ?thesis using assms(2) by (auto simp: page_alloc_def page_alloc_node_def Let_def split: if_splits)
next
  case False
  then have "alloc_outcome s (nat order) hint (0, s')"
    using page_alloc_outcome [OF assms(1), of "nat order" env hint] assms(2) by auto
  then show ?thesis by (auto simp: alloc_outcome_def dest: took_pos)
qed

interpretation buddy_source: frame_source pmm_ok free_frames block_shape req_alloc req_order req_free
proof
  fix s q a s'
  assume ok: "pmm_ok s" and run: "req_alloc q s = (a, s')"
  obtain env order hint where q: "q = (env, order, hint)" by (cases q) auto
  have r: "page_alloc env s order hint = (a, s')" using run by (simp add: req_alloc_def q)
  have T: "block_shape s a (req_order q)" "frames_of a (req_order q) \<subseteq> free_frames s"
    "free_frames s' = free_frames s - frames_of a (req_order q)" "pmm_ok s'" "pm_static s' = pm_static s"
    if a: "a \<noteq> 0"
  proof -
    obtain zp p where "a = pfn_to_phys p" "took s (nat order) zp p s'"
      using page_alloc_took [OF ok r a] by metis
    then show "block_shape s a (req_order q)" "frames_of a (req_order q) \<subseteq> free_frames s"
      "free_frames s' = free_frames s - frames_of a (req_order q)" "pmm_ok s'" "pm_static s' = pm_static s"
      by (auto simp: took_def block_shape_def q req_order_def)
  qed
  show "pmm_ok s' \<and> block_shape s' = block_shape s"
    using T(4,5) page_alloc_fail_same [OF ok, of env order hint s'] r ok block_shape_static [of s' s]
    by (cases "a = 0") auto
  show "block_shape s a (req_order q) \<and> frames_of a (req_order q) \<subseteq> free_frames s \<and>
      free_frames s' = free_frames s - frames_of a (req_order q)" if "a \<noteq> 0"
    using T(1-3) [OF that] by blast
next
  fix s q s'
  assume "pmm_ok s" and "req_alloc q s = (0, s')"
  then show "free_frames s' = free_frames s"
    by (cases q) (simp add: req_alloc_def, metis page_alloc_fail_same)
next
  fix s a k
  assume ok: "pmm_ok s" and sh: "block_shape s a k" and d: "frames_of a k \<inter> free_frames s = {}"
  then obtain zp p where p: "a = pfn_to_phys p" "block_ok s zp p k" by (auto simp: block_shape_def)
  note F = page_free_ok [OF ok p(2)]
  show "pmm_ok (req_free a k s) \<and> block_shape (req_free a k s) = block_shape s \<and>
      free_frames (req_free a k s) = free_frames s \<union> frames_of a k"
    using F d block_shape_static [OF F(3)] by (simp add: p req_free_def)
qed

section \<open>A small machine\<close>

text \<open>Eight managed frames, 4096 to 4103, in the DMA32 zone of one node: the concrete state at which
  the theorems below are applied.\<close>

definition demo_zone :: "zptr \<Rightarrow> zone" where
  "demo_zone zp = \<lparr>z_start = (if snd zp = ZONE_DMA32 then 4096 else 0),
     z_end = (if snd zp = ZONE_DMA32 then 4104 else 0), z_managed = (if zp = (0, ZONE_DMA32) then 8 else 0),
     z_free = 0, z_lists = (\<lambda>k. 0), z_nr = (\<lambda>k. 0), z_node = fst zp\<rparr>"

definition demo_empty :: pmm where
  "demo_empty = \<lparr>pm_state = (\<lambda>f. if 4096 \<le> f \<and> f < 4104 then PS_USED else PS_NONE), pm_nr_frames = 4104,
     pm_base = 4096, pm_direct_end = 4104, pm_zones = demo_zone, pm_next = (\<lambda>a. 0), pm_prev = (\<lambda>a. 0),
     pm_ranges = [], pm_nr_nodes = 1, pm_numa_live = False, pm_numa_committed = False,
     pm_hit = (\<lambda>n. 0), pm_miss = (\<lambda>n. 0), pm_deferred_from = 4104, pm_reserve = 0, pm_low = False,
     pm_refused = 0\<rparr>"

definition demo_pmm :: pmm where
  "demo_pmm = page_free demo_empty (pfn_to_phys 4096) 3"

definition demo_env :: pmm_env where
  "demo_env = \<lparr>env_fail_injected = False, env_numa_node = 0, env_reserve_kb = 0, env_pcache_owns = (\<lambda>a. False)\<rparr>"

lemma demo_zone_of_pfn: "zone_of_pfn demo_empty f = (if 4096 \<le> f \<and> f < 4104 then Some ZONE_DMA32 else None)"
  by (auto simp: zone_of_pfn_def demo_empty_def pmm_consts)

lemma demo_empty_inv: "pmm_inv demo_empty (\<lambda>_. [])"
proof -
  have "zones_wf demo_empty"
    unfolding zones_wf_def demo_zone_of_pfn
    by (auto simp: demo_empty_def demo_zone_def pmm_consts)
  then show ?thesis
    by (auto simp: pmm_inv_def pmm_core_def lists_rel_def blocks_ok_def blocks_disj_def free_set_def
        counts_ok_def zone_count_def coalesced_def demo_empty_def demo_zone_def)
qed

lemma demo_block_ok: "block_ok demo_empty (0, ZONE_DMA32) 4096 3"
  by (auto simp: block_ok_def blk_def zone_for_pfn_Some demo_zone_of_pfn node_of_pfn_def pmm_consts)
     (simp add: demo_empty_def)

lemma demo_ok: "pmm_ok demo_pmm" "free_frames demo_pmm = blk 4096 3" "pm_static demo_pmm = pm_static demo_empty"
proof -
  have ok: "pmm_ok demo_empty" "free_frames demo_empty = {}"
    using demo_empty_inv free_frames_eq [OF demo_empty_inv] by (auto simp: pmm_ok_def free_set_def)
  show "pmm_ok demo_pmm" "free_frames demo_pmm = blk 4096 3" "pm_static demo_pmm = pm_static demo_empty"
    using page_free_ok [OF ok(1) demo_block_ok] ok(2) by (simp_all add: demo_pmm_def)
qed

lemma demo_pmm_eq: "demo_pmm = zone_push (upd_zone (0, 1) (\<lambda>z. z\<lparr>z_free := z_free z + 8\<rparr>) demo_empty) (0, 1) 4096 3"
proof -
  have z: "zone_for_pfn demo_empty 4096 = Some (0, 1)"
    using demo_block_ok by (simp add: block_ok_def pmm_consts)
  have a: "pfn_to_phys 4096 AND 4095 = 0" by (rule pfn_to_phys_aligned)
  show ?thesis
    using z a by (simp add: demo_pmm_def page_free_def phys_to_pfn_to_phys buddy_free_in_zone_def pmm_consts
        Let_def buddy_merge.simps [of _ _ _ 3] upd_zone_def demo_empty_def)
qed

lemma demo_not_exhausted: "\<not> zone_exhausted demo_pmm (0, ZONE_DMA32) k" if "k \<le> 3"
proof -
  have "z_lists (pm_zones demo_pmm (0, ZONE_DMA32)) 3 = pfn_to_phys 4096"
    by (simp add: demo_pmm_eq zone_push_fields pmm_consts)
  then show ?thesis using that by (auto simp: zone_exhausted_def pmm_consts pfn_to_phys_mult intro!: exI [of _ 3])
qed

lemma demo_nodes: "pm_nr_nodes demo_pmm = 1"
  using pm_staticD(6) [OF demo_ok(3)] by (simp add: demo_empty_def)

section \<open>Theorems\<close>

text \<open>C11: \<open>page_alloc\<close>, whenever fault injection does not fail it, either hands out a block or leaves
  the state alone.  A block it hands out is aligned to its size, lies inside one zone allowed by the
  hint, was entirely free and is the only thing that stops being free; the DMA zone is used only when
  every other allowed zone of every node is exhausted.  It fails only when every allowed zone of
  every node has no free block of the order or above.\<close>

theorem page_alloc_correct:
  assumes "pmm_ok s" and "ord \<le> BUDDY_MAX_ORDER" and "\<not> env_fail_injected env"
  shows "alloc_outcome s ord hint (page_alloc env s (int ord) hint)"
  using assms by (rule page_alloc_outcome)

theorem page_alloc_correct_witness:
  "alloc_outcome demo_pmm 1 ZONE_DEFAULT (page_alloc demo_env demo_pmm (int 1) ZONE_DEFAULT) \<and>
   free_frames demo_pmm = blk 4096 3"
  using page_alloc_correct [OF demo_ok(1), of 1 demo_env ZONE_DEFAULT] demo_ok(2)
  by (simp add: demo_env_def pmm_consts)

text \<open>C12: no failure by fragmentation of the bookkeeping: if some aligned run of \<open>2 ^ ord\<close> frames inside
  one allowed zone is free, however it became free, \<open>page_alloc\<close> hands out a block.\<close>

theorem page_alloc_complete:
  assumes ok: "pmm_ok s" and ord: "ord \<le> BUDDY_MAX_ORDER" and inj: "\<not> env_fail_injected env"
    and run: "2 ^ ord dvd p" "blk p ord \<subseteq> free_frames s"
    and zone: "\<And>f. f \<in> blk p ord \<Longrightarrow> zone_for_pfn s f = Some (nd, zi)" and hint: "zi \<in> set (zone_try_order hint)"
  shows "fst (page_alloc env s (int ord) hint) \<noteq> 0"
proof -
  obtain L where L: "pmm_inv s L" using ok by (auto simp: pmm_ok_def)
  then have core: "pmm_core s L {}" by (simp add: pmm_inv_def)
  obtain k q where q: "ord \<le> k" "q \<in> set (L ((nd, zi), k))"
    using free_run_in_block [OF L ord run(1) _ zone] run(2) free_frames_eq [OF L] by auto
  have "k \<le> BUDDY_MAX_ORDER" using pmm_coreD(5) [OF core q(2)] by (simp add: block_ok_def)
  moreover have "z_lists (pm_zones s (nd, zi)) k \<noteq> 0"
    using list_empty_iff [OF pmm_coreD(2) [OF core], of "(nd, zi)" k] q(2) by auto
  ultimately have ne: "\<not> zone_exhausted s (nd, zi) ord" using q(1) by (auto simp: zone_exhausted_def)
  have "zone_for_pfn s p = Some (nd, zi)" by (rule zone) simp
  then have "nd < pm_nr_nodes s"
    using pmm_ok_zones_wf [OF ok]
    by (cases "pm_numa_live s") (auto simp: zones_wf_def zone_for_pfn_Some node_of_pfn_def)
  then show ?thesis
    using page_alloc_outcome [OF ok ord inj, of hint] ne hint
    by (auto simp: alloc_outcome_def dest: took_pos)
qed

theorem page_alloc_complete_witness:
  "fst (page_alloc demo_env demo_pmm (int 2) ZONE_DEFAULT) \<noteq> 0"
proof (rule page_alloc_complete [OF demo_ok(1), of 2 demo_env 4100 0 ZONE_DMA32])
  show "blk 4100 2 \<subseteq> free_frames demo_pmm" by (auto simp: demo_ok(2) blk_def)
  show "zone_for_pfn demo_pmm f = Some (0, ZONE_DMA32)" if "f \<in> blk 4100 2" for f
    using demo_block_ok that pm_static_zone_for_pfn [OF demo_ok(3)] by (auto simp: block_ok_def blk_def)
qed (simp_all add: demo_env_def zone_try_order_def pmm_consts)

text \<open>C10: \<open>page_free\<close> of a block that is not free makes exactly its frames free, keeps the invariant
  (links, states, counters, complete coalescing) and changes no zone bound.\<close>

theorem page_free_correct:
  assumes "pmm_ok s" and "block_ok s zp p k" and "blk p k \<inter> free_frames s = {}"
  shows "pmm_ok (page_free s (pfn_to_phys p) (int k)) \<and>
    free_frames (page_free s (pfn_to_phys p) (int k)) = free_frames s \<union> blk p k"
  using page_free_ok [OF assms] by simp

theorem page_free_correct_witness:
  "pmm_ok (page_free demo_empty (pfn_to_phys 4096) (int 3)) \<and>
   free_frames (page_free demo_empty (pfn_to_phys 4096) (int 3)) = blk 4096 3"
proof -
  have e: "pmm_ok demo_empty" "free_frames demo_empty = {}"
    using demo_empty_inv free_frames_eq [OF demo_empty_inv] by (auto simp: pmm_ok_def free_set_def)
  show ?thesis using page_free_correct [OF e(1) demo_block_ok] e(2) by simp
qed

text \<open>C1: any sequence of \<open>page_alloc\<close> and \<open>page_free\<close> calls by clients that return only blocks they
  hold keeps the allocator consistent, never lets two held blocks share a frame, and loses no frame:
  the frames held and the frames free are at every moment the frames that were free at the start.\<close>

theorem page_calls_safe:
  assumes "pmm_ok s" and "fold (client_step req_alloc req_order req_free) ops (s, []) = (s', own)"
  shows "pmm_ok s' \<and> owned_disjoint own \<and> free_frames s' \<inter> owned own = {} \<and>
    free_frames s' \<union> owned own = free_frames s"
  using buddy_source.client_run [OF assms] by blast

theorem page_calls_safe_witness:
  "\<exists>s' own. fold (client_step req_alloc req_order req_free)
      [Get (demo_env, 1, ZONE_DEFAULT), Get (demo_env, 0, ZONE_DEFAULT)] (demo_pmm, []) = (s', own) \<and>
    owned_disjoint own \<and> free_frames s' \<union> owned own = blk 4096 3"
proof -
  obtain s' own where r: "fold (client_step req_alloc req_order req_free)
      [Get (demo_env, 1, ZONE_DEFAULT), Get (demo_env, 0, ZONE_DEFAULT)] (demo_pmm, []) = (s', own)"
    by force
  then show ?thesis using page_calls_safe [OF demo_ok(1) r] demo_ok(2) by auto
qed



text \<open>C14: \<open>pmm_validate\<close> raises no false alarm: on every state the allocator can be in, it walks all the
  lists within its bound and reports them consistent.\<close>

theorem pmm_validate_accepts:
  assumes "pmm_ok s"
  shows "pmm_validate s"
  using assms by (rule pmm_validate_ok)

theorem pmm_validate_accepts_witness: "pmm_validate demo_pmm"
  by (rule pmm_validate_accepts [OF demo_ok(1)])

text \<open>C15: \<open>pmm_alloc_contiguous_dma32\<close> returns memory a 32-bit device can reach: a non-null result starts
  on a page boundary and its \<open>n\<close> pages end at or below 4 GiB.\<close>

theorem contiguous_dma32_below_4g:
  assumes ok: "pmm_ok s" and n: "n \<le> 2 ^ 31" and run: "pmm_alloc_contiguous_dma32 env s n = Some (a, s')" and a: "a \<noteq> 0"
  shows "a mod 4096 = 0 \<and> a + 4096 * unat n \<le> 2 ^ 32"
proof -
  obtain k where k: "ceil_log2 n = Some k" "unat n \<le> 2 ^ k" using ceil_log2_least [OF n] by blast
  then have r: "page_alloc env s (int k) (int ZONE_DMA32) = (a, s')"
    using run a by (auto simp: pmm_alloc_contiguous_dma32_def pmm_consts split: if_splits)
  obtain nd zi p where p: "a = pfn_to_phys p" "zi \<in> set (zone_try_order (int ZONE_DMA32))"
      "block_ok s (nd, zi) p k"
    using page_alloc_took [OF ok r a] by (metis nat_int took_def)
  have "zi = ZONE_DMA32 \<or> zi = ZONE_DMA"
    using p(2) by (auto simp: zone_try_order_def pmm_consts split: if_splits)
  from low_zone_limit [OF p(3) this] k(2) show ?thesis by (simp add: p(1) pfn_to_phys_mult)
qed

theorem contiguous_dma32_below_4g_witness:
  "\<exists>a s'. pmm_alloc_contiguous_dma32 demo_env demo_pmm 1 = Some (a, s') \<and> a \<noteq> 0 \<and> a + 4096 \<le> 2 ^ 32"
proof -
  obtain a s' where r: "page_alloc demo_env demo_pmm (int 0) (int ZONE_DMA32) = (a, s')" by force
  have "alloc_outcome demo_pmm 0 (int ZONE_DMA32) (a, s')"
    using page_alloc_outcome [OF demo_ok(1), of 0 demo_env "int ZONE_DMA32"] r by (simp add: demo_env_def)
  then have a: "a \<noteq> 0"
    using demo_not_exhausted [of 0] demo_nodes
    by (auto simp: alloc_outcome_def zone_try_order_def pmm_consts dest: took_pos)
  have run: "pmm_alloc_contiguous_dma32 demo_env demo_pmm 1 = Some (a, s')"
    using r by (simp add: pmm_alloc_contiguous_dma32_def ceil_log2_def)
  then show ?thesis using contiguous_dma32_below_4g [OF demo_ok(1) _ run a] a by auto
qed

text \<open>C16: \<open>ceil_log2\<close> returns the least order whose block holds \<open>n\<close> pages for every \<open>n\<close> up to \<open>2 ^ 31\<close>,
  and does not return for any larger one: its 32-bit doubling reaches 0 and stays there.\<close>

theorem ceil_log2_spec:
  "if n \<le> 2 ^ 31 then \<exists>k. ceil_log2 n = Some k \<and> is_arg_min id (\<lambda>j. unat n \<le> 2 ^ j) k
   else ceil_log2 n = None"
proof (cases "n \<le> 2 ^ 31")
  case True
  then show ?thesis using ceil_log2_least [OF True] by (auto simp: is_arg_min_linorder)
next
  case False
  then show ?thesis
    using ceil_log2_loop_big [of n 0] order_trans [of n 1 "2 ^ 31"] by (auto simp: ceil_log2_def)
qed

end
