(* ===== verification/Bpf.thy ===== *)
theory Bpf
  imports Dos_Prelude
begin

text \<open>
  The eBPF subset of \<open>kernel/core/bpf.c\<close>: the load-time verifier, the interpreter and the device
  check.  The interpreter is written against C arrays, so its model makes every array access
  explicit: \<open>Oob\<close> is an access outside the eleven registers, the instruction array or the context,
  which the C code does not guard against and leaves to the verifier.  The program counter is the
  32-bit unsigned of the source, so a backward jump of an unverified program loops, and the
  interpreter loop is option-valued (\<open>None\<close> never returns).
\<close>

section \<open>Instructions and the verifier\<close>

definition BPF_MAXI :: nat where "BPF_MAXI = 4096"
definition BPF_MAX_ATTACH :: nat where "BPF_MAX_ATTACH = 64"
definition BPF_MAX_PROGS :: nat where "BPF_MAX_PROGS = 256"
definition BPF_PROG_TYPE_CGROUP_DEVICE :: u32 where "BPF_PROG_TYPE_CGROUP_DEVICE = 15"
definition BPF_CGROUP_DEVICE :: u32 where "BPF_CGROUP_DEVICE = 6"
definition BPF_F_ALLOW_MULTI :: u32 where "BPF_F_ALLOW_MULTI = 2"
definition BPF_F_REPLACE :: u32 where "BPF_F_REPLACE = 4"
definition CTX_TAG :: u64 where "CTX_TAG = 0xC0C7000000000000"

lemmas bpf_consts = BPF_MAXI_def BPF_MAX_ATTACH_def BPF_MAX_PROGS_def BPF_PROG_TYPE_CGROUP_DEVICE_def
  BPF_CGROUP_DEVICE_def BPF_F_ALLOW_MULTI_def BPF_F_REPLACE_def

record insn =
  i_code :: u8
  i_regs :: u8
  i_off :: u16
  i_imm :: u32

definition insn_dst :: "insn \<Rightarrow> nat" where "insn_dst i = unat (i_regs i AND 0xf)"
definition insn_src :: "insn \<Rightarrow> nat" where "insn_src i = unat (drop_bit 4 (i_regs i))"

definition known_alu :: "u8 \<Rightarrow> bool" where "known_alu opc \<longleftrightarrow> opc \<le> 0xc0"

text \<open>One iteration of the loop of \<open>verify\<close>: the reason of a refusal, or whether the instruction
  occupies two slots.\<close>

definition verify_at :: "insn list \<Rightarrow> nat \<Rightarrow> string + bool" where
  "verify_at ins pc =
     (let n = length ins; i = ins ! pc; code = i_code i; cls = code AND 7;
          dst = insn_dst i; src = insn_src i
      in if dst > 10 \<or> src > 10 then Inl ''register out of range''
         else if cls = 4 \<or> cls = 7 then
           (if \<not> known_alu (code AND 0xf0) then Inl ''unsupported ALU operation''
            else if dst = 10 then Inl ''write to the frame pointer'' else Inr False)
         else if cls = 5 \<or> cls = 6 then
           (let opc = code AND 0xf0
            in if opc = 0x90 then (if cls \<noteq> 5 then Inl ''bad EXIT'' else Inr False)
               else if opc = 0x80 then Inl ''helper calls are not supported''
               else if opc > 0xd0 then Inl ''unsupported jump''
               else let t = int pc + 1 + sint (i_off i)
                    in if sint (i_off i) < 0 then Inl ''backward jump (programs must provably end)''
                       else if t > int n then Inl ''jump out of the program''
                       else if t < int n \<and> t > 0 \<and> i_code (ins ! nat (t - 1)) = 0x18
                         then Inl ''jump into a wide load'' else Inr False)
         else if cls = 1 then
           (if code AND 0xe0 \<noteq> 0x60 then Inl ''only memory loads''
            else if dst = 10 then Inl ''write to the frame pointer'' else Inr False)
         else if cls = 0 then
           (if code \<noteq> 0x18 \<or> pc + 1 \<ge> n \<or> src \<noteq> 0 then Inl ''unsupported load'' else Inr True)
         else Inl ''stores and the stack are not supported'')"

text \<open>\<open>None\<close> accepts the program; \<open>Some why\<close> refuses it.\<close>

function verify_loop :: "insn list \<Rightarrow> nat \<Rightarrow> string option" where
  "verify_loop ins pc =
     (if pc < length ins then
        (case verify_at ins pc of
           Inl why \<Rightarrow> Some why
         | Inr wide \<Rightarrow> verify_loop ins (if wide then pc + 2 else pc + 1))
      else None)"
  by pat_completeness auto
termination
  by (relation "measure (\<lambda>(ins, pc). length ins - pc)") auto

definition verify :: "insn list \<Rightarrow> string option" where
  "verify ins = verify_loop ins 0"

section \<open>The interpreter\<close>

definition sx32 :: "u64 \<Rightarrow> u64" where
  "sx32 v = scast (ucast v :: u32)"

definition cmp_true :: "u8 \<Rightarrow> u64 \<Rightarrow> u64 \<Rightarrow> bool \<Rightarrow> bool" where
  "cmp_true opc a0 b0 w32 =
     (let a = (if w32 then take_bit 32 a0 else a0);
          b = (if w32 then take_bit 32 b0 else b0);
          sa = sint (if w32 then sx32 a else a);
          sb = sint (if w32 then sx32 b else b)
      in if opc = 0x10 then a = b else if opc = 0x20 then a > b else if opc = 0x30 then a \<ge> b
         else if opc = 0x40 then a AND b \<noteq> 0 else if opc = 0x50 then a \<noteq> b
         else if opc = 0x60 then sa > sb else if opc = 0x70 then sa \<ge> sb
         else if opc = 0xa0 then a < b else if opc = 0xb0 then a \<le> b
         else if opc = 0xc0 then sa < sb else if opc = 0xd0 then sa \<le> sb
         else False)"

text \<open>The arithmetic of one ALU instruction; \<open>None\<close> ends the program as a refusal.\<close>

definition alu_value :: "u8 \<Rightarrow> bool \<Rightarrow> u64 \<Rightarrow> u64 \<Rightarrow> u64 option" where
  "alu_value opc w32 a0 b0 =
     (let a = (if w32 then take_bit 32 a0 else a0);
          b = (if w32 then take_bit 32 b0 else b0);
          sh = unat (b AND (if w32 then 31 else 63));
          v = (if opc = 0x00 then Some (a + b) else if opc = 0x10 then Some (a - b)
               else if opc = 0x20 then Some (a * b)
               else if opc = 0x30 then (if b = 0 then None else Some (a div b))
               else if opc = 0x40 then Some (a OR b) else if opc = 0x50 then Some (a AND b)
               else if opc = 0x60 then Some (push_bit sh a) else if opc = 0x70 then Some (drop_bit sh a)
               else if opc = 0x80 then Some (- a)
               else if opc = 0x90 then (if b = 0 then None else Some (a mod b))
               else if opc = 0xa0 then Some (a XOR b) else if opc = 0xb0 then Some b
               else if opc = 0xc0 then
                 Some (if w32 then take_bit 32 (signed_drop_bit (unat (b AND 31)) (sx32 a))
                       else signed_drop_bit (unat (b AND 63)) a)
               else None)
      in map_option (\<lambda>v. if w32 then take_bit 32 v else v) v)"

datatype bpf_outcome = Next u32 "u64 list" | Done bool | Oob

definition reg_get :: "u64 list \<Rightarrow> nat \<Rightarrow> u64 option" where
  "reg_get r k = (if k < length r then Some (r ! k) else None)"

definition reg_set :: "u32 \<Rightarrow> u64 list \<Rightarrow> nat \<Rightarrow> u64 \<Rightarrow> bpf_outcome" where
  "reg_set pc r k v = (if k < length r then Next pc (r[k := v]) else Oob)"

definition src_operand :: "insn \<Rightarrow> u64 list \<Rightarrow> u64 option" where
  "src_operand i r = (if i_code i AND 0x08 \<noteq> 0 then reg_get r (insn_src i) else Some (scast (i_imm i)))"

text \<open>The bytes \<open>ctx[off ..< off + sz]\<close>, least significant first.\<close>

definition ctx_load :: "u8 list \<Rightarrow> nat \<Rightarrow> nat \<Rightarrow> u64" where
  "ctx_load ctx off sz = fold (\<lambda>k v. v OR push_bit (8 * k) (ucast (ctx ! (off + k)))) [0..<sz] 0"

definition ldx_size :: "u8 \<Rightarrow> nat" where
  "ldx_size code =
     (let m = drop_bit 3 code AND 3 in if m = 0 then 4 else if m = 1 then 2 else if m = 2 then 1 else 8)"

text \<open>One iteration of the loop of \<open>run\<close>.\<close>

definition bpf_step :: "insn list \<Rightarrow> u8 list \<Rightarrow> nat \<Rightarrow> u32 \<Rightarrow> u64 list \<Rightarrow> bpf_outcome" where
  "bpf_step ins ctx ctxlen pc r =
     (if unat pc \<ge> length ins then Done False
      else let i = ins ! unat pc; code = i_code i; cls = code AND 7; opc = code AND 0xf0;
               d = insn_dst i; s = insn_src i
           in if cls = 4 \<or> cls = 7 then
                (case (reg_get r d, src_operand i r) of
                   (Some a, Some b) \<Rightarrow>
                     (case alu_value opc (cls = 4) a b of
                        None \<Rightarrow> Done False
                      | Some v \<Rightarrow> reg_set (pc + 1) r d v)
                 | _ \<Rightarrow> Oob)
              else if cls = 5 \<or> cls = 6 then
                (if opc = 0x90 then (case reg_get r 0 of None \<Rightarrow> Oob | Some v \<Rightarrow> Done (v \<noteq> 0))
                 else if opc = 0x00 then Next (pc + scast (i_off i) + 1) r
                 else (case (reg_get r d, src_operand i r) of
                         (Some a, Some b) \<Rightarrow>
                           Next (if cmp_true opc a b (cls = 6) then pc + scast (i_off i) + 1 else pc + 1) r
                       | _ \<Rightarrow> Oob))
              else if cls = 1 then
                (case reg_get r s of
                   None \<Rightarrow> Oob
                 | Some v \<Rightarrow>
                     if v \<noteq> CTX_TAG \<or> sint (i_off i) < 0 \<or> unat (i_off i) + ldx_size code > ctxlen
                     then Done False
                     else if unat (i_off i) + ldx_size code > length ctx then Oob
                     else reg_set (pc + 1) r d (ctx_load ctx (unat (i_off i)) (ldx_size code)))
              else if cls = 0 then
                (if unat (pc + 1) \<ge> length ins then Oob
                 else reg_set (pc + 2) r d
                        (ucast (i_imm i) OR push_bit 32 (ucast (i_imm (ins ! unat (pc + 1))))))
              else Done False)"

partial_function (option) bpf_run_loop ::
    "insn list \<Rightarrow> u8 list \<Rightarrow> nat \<Rightarrow> u32 \<Rightarrow> u64 list \<Rightarrow> bpf_outcome option" where
  "bpf_run_loop ins ctx ctxlen pc r =
     (case bpf_step ins ctx ctxlen pc r of
        Next pc' r' \<Rightarrow> bpf_run_loop ins ctx ctxlen pc' r'
      | Done b \<Rightarrow> Some (Done b)
      | Oob \<Rightarrow> Some Oob)"

definition bpf_run :: "insn list \<Rightarrow> u8 list \<Rightarrow> nat \<Rightarrow> bpf_outcome option" where
  "bpf_run ins ctx ctxlen = bpf_run_loop ins ctx ctxlen 0 ((replicate 11 0)[1 := CTX_TAG])"

text \<open>The same loop cut off after \<open>fuel\<close> iterations.\<close>

primrec bpf_run_fuel :: "nat \<Rightarrow> insn list \<Rightarrow> u8 list \<Rightarrow> nat \<Rightarrow> u32 \<Rightarrow> u64 list \<Rightarrow> bpf_outcome option" where
  "bpf_run_fuel 0 ins ctx ctxlen pc r = None"
| "bpf_run_fuel (Suc fuel) ins ctx ctxlen pc r =
     (case bpf_step ins ctx ctxlen pc r of
        Next pc' r' \<Rightarrow> bpf_run_fuel fuel ins ctx ctxlen pc' r'
      | res \<Rightarrow> Some res)"

declare verify_loop.simps [simp del]

section \<open>Verified programs\<close>

text \<open>A position the verifier visits: the rest of the program from there is accepted.\<close>

lemma verify_next:
  assumes "verify_loop ins pc = None" and "pc < length ins"
  obtains wide where "verify_at ins pc = Inr wide" "verify_loop ins (if wide then pc + 2 else pc + 1) = None"
  using assms by (subst (asm) verify_loop.simps) (auto split: sum.splits)

lemma verify_at_wide: "verify_at ins pc = Inr True \<Longrightarrow> i_code (ins ! pc) = 0x18 \<and> pc + 1 < length ins"
  by (auto simp: verify_at_def Let_def split: if_splits)

lemma verify_forward:
  assumes "verify_loop ins pc = None" and "pc \<le> t" and "t \<le> length ins"
    and "t < length ins \<Longrightarrow> pc < t \<Longrightarrow> i_code (ins ! (t - 1)) \<noteq> 0x18"
  shows "verify_loop ins t = None"
  using assms
proof (induction ins pc rule: verify_loop.induct)
  case (1 ins pc)
  show ?case
  proof (cases "t = pc")
    case False
    then have pc: "pc < t" "pc < length ins" using 1 by auto
    obtain wide where w: "verify_at ins pc = Inr wide"
      "verify_loop ins (if wide then pc + 2 else pc + 1) = None"
      using verify_next [OF 1(2) pc(2)] by blast
    have "\<not> (wide \<and> t = pc + 1)"
      using verify_at_wide [of ins pc] w(1) 1(5) pc by auto
    then have le: "(if wide then pc + 2 else pc + 1) \<le> t" using pc by auto
    show ?thesis
      by (rule 1(1) [OF pc(2) w(1) w(2) le 1(4)]) (use 1(5) pc in auto)
  qed (use 1 in simp)
qed

lemma verify_at_regs: "verify_at ins pc = Inr wide \<Longrightarrow> insn_dst (ins ! pc) \<le> 10 \<and> insn_src (ins ! pc) \<le> 10"
  by (auto simp: verify_at_def Let_def split: if_splits)

lemma verify_at_class: "verify_at ins pc = Inr wide \<Longrightarrow> wide \<longleftrightarrow> i_code (ins ! pc) AND 7 = 0"
  by (auto simp: verify_at_def Let_def split: if_splits)

lemma verify_at_jump:
  assumes "verify_at ins pc = Inr wide" and "i_code (ins ! pc) AND 7 = 5 \<or> i_code (ins ! pc) AND 7 = 6"
    and "i_code (ins ! pc) AND 0xf0 \<noteq> 0x90"
  defines "j \<equiv> nat (sint (i_off (ins ! pc)))"
  shows "0 \<le> sint (i_off (ins ! pc))" and "pc + j + 1 \<le> length ins"
    and "pc + j + 1 < length ins \<Longrightarrow> i_code (ins ! (pc + j)) \<noteq> 0x18"
proof -
  let ?o = "sint (i_off (ins ! pc))"
  have A: "0 \<le> ?o \<and> int pc + 1 + ?o \<le> int (length ins) \<and>
      (int pc + 1 + ?o < int (length ins) \<longrightarrow> 0 < int pc + 1 + ?o \<longrightarrow> i_code (ins ! nat (int pc + ?o)) \<noteq> 0x18)"
    using assms(1-3) by (auto simp: verify_at_def Let_def split: if_splits)
  then show "0 \<le> ?o" by simp
  from A have e: "nat (int pc + ?o) = pc + j" by (simp add: j_def nat_add_distrib)
  from A have j: "int j = ?o" by (simp add: j_def)
  from A show "pc + j + 1 \<le> length ins" unfolding j [symmetric] by linarith
  from A e show "pc + j + 1 < length ins \<Longrightarrow> i_code (ins ! (pc + j)) \<noteq> 0x18" unfolding j [symmetric] by simp
qed

lemma unat_scast_off:
  assumes "0 \<le> sint (w :: u16)"
  shows "unat (scast w :: u32) = nat (sint w)"
proof -
  have "sint w < 2 ^ 15" using sint_lt [of w] by simp
  then have "take_bit 32 (sint w) = sint w" using assms by (intro take_bit_int_eq_self) auto
  moreover have "uint (scast w :: u32) = take_bit 32 (sint w)" by (simp only: scast_eq uint_word_of_int_eq) simp
  ultimately show ?thesis by (simp add: unat_eq_nat_uint)
qed

lemma unat_pc_add:
  assumes "unat (pc :: u32) + k < 2 ^ 31" and "unat x = k"
  shows "unat (pc + x) = unat pc + k"
  using assms by (simp add: unat_word_ariths)

text \<open>One step of a verified program: it stays inside every array, and goes on only forward to a
  position the verifier visited.\<close>

definition step_good :: "insn list \<Rightarrow> u32 \<Rightarrow> bpf_outcome \<Rightarrow> bool" where
  "step_good ins pc res \<longleftrightarrow> (case res of
     Next pc' r \<Rightarrow> unat pc < unat pc' \<and> unat pc' \<le> length ins \<and> verify_loop ins (unat pc') = None \<and> length r = 11
   | Done b \<Rightarrow> True
   | Oob \<Rightarrow> False)"

lemma reg_get_11: "length r = 11 \<Longrightarrow> k \<le> 10 \<Longrightarrow> reg_get r k = Some (r ! k)"
  by (simp add: reg_get_def)

lemma src_operand_ok: "length r = 11 \<Longrightarrow> insn_src i \<le> 10 \<Longrightarrow> \<exists>b. src_operand i r = Some b"
  by (simp add: src_operand_def reg_get_def)

lemma bpf_step_good:
  assumes v: "verify_loop ins (unat pc) = None" and n: "length ins \<le> BPF_MAXI" and r: "length r = 11"
    and ctx: "ctxlen \<le> length ctx"
  shows "step_good ins pc (bpf_step ins ctx ctxlen pc r)"
proof (cases "unat pc < length ins")
  case False
  then show ?thesis by (simp add: bpf_step_def step_good_def)
next
  case True
  let ?i = "ins ! unat pc"
  let ?cls = "i_code ?i AND 7" and ?opc = "i_code ?i AND 0xf0"
  obtain wide where w: "verify_at ins (unat pc) = Inr wide"
    "verify_loop ins (if wide then unat pc + 2 else unat pc + 1) = None"
    using verify_next [OF v True] by blast
  have regs: "insn_dst ?i \<le> 10" "insn_src ?i \<le> 10" using verify_at_regs [OF w(1)] by auto
  note cls = verify_at_class [OF w(1)]
  have p1: "unat (pc + 1) = unat pc + 1" using True n by (intro unat_pc_add) (auto simp: bpf_consts)
  have p2: "unat (pc + 2) = unat pc + 2" using True n by (intro unat_pc_add) (auto simp: bpf_consts)
  have one: "step_good ins pc (Next (pc + 1) r')" if "?cls \<noteq> 0" "length r' = 11" for r'
    using that w(2) cls True p1 by (simp add: step_good_def)
  have set1: "step_good ins pc (reg_set (pc + 1) r (insn_dst ?i) v)" if "?cls \<noteq> 0" for v
    using one [OF that] regs r by (simp add: reg_set_def)
  obtain b where b: "src_operand ?i r = Some b" using src_operand_ok [OF r regs(2)] by blast
  note a = reg_get_11 [OF r regs(1)] reg_get_11 [OF r regs(2)]
  have jump: "step_good ins pc (Next (pc + scast (i_off ?i) + 1) r)"
    if c: "?cls = 5 \<or> ?cls = 6" and o: "?opc \<noteq> 0x90"
  proof -
    note J = verify_at_jump [OF w(1) c o]
    let ?j = "nat (sint (i_off ?i))"
    have j: "unat (pc + scast (i_off ?i)) = unat pc + ?j"
      using J(2) n unat_scast_off [OF J(1)] by (intro unat_pc_add) (auto simp: bpf_consts)
    then have t: "unat (pc + scast (i_off ?i) + 1) = unat pc + ?j + 1"
      using J(2) n unat_pc_add [of "pc + scast (i_off ?i)" 1 1] by (simp add: bpf_consts)
    have "verify_loop ins (unat pc + ?j + 1) = None"
      using J(2,3) by (intro verify_forward [OF v]) auto
    then show ?thesis using t J(2) r by (simp add: step_good_def)
  qed
  show ?thesis
  proof (cases "?cls = 0")
    case True
    then have "wide" using cls by simp
    then have "unat pc + 1 < length ins" using verify_at_wide w(1) by simp
    with \<open>wide\<close> True w(2) p1 p2 regs r show ?thesis
      by (simp add: bpf_step_def Let_def reg_set_def step_good_def)
  next
    case False
    then show ?thesis
      using \<open>unat pc < length ins\<close> a b jump one [OF False r] set1 [OF False] ctx r reg_get_11 [OF r, of 0]
      unfolding bpf_step_def Let_def
      by (auto simp: step_good_def split: option.splits)
  qed
qed

lemma bpf_run_fuel_verified:
  assumes "verify_loop ins (unat pc) = None" and "length ins \<le> BPF_MAXI" and "length r = 11"
    and "ctxlen \<le> length ctx" and "length ins - unat pc < fuel"
  shows "\<exists>b. bpf_run_fuel fuel ins ctx ctxlen pc r = Some (Done b)"
  using assms(1,3,5)
proof (induction fuel arbitrary: pc r)
  case (Suc fuel)
  have g: "step_good ins pc (bpf_step ins ctx ctxlen pc r)"
    using bpf_step_good [OF Suc.prems(1) assms(2) Suc.prems(2) assms(4)] .
  show ?case
  proof (cases "bpf_step ins ctx ctxlen pc r")
    case (Next pc' r')
    then have "unat pc < unat pc'" "unat pc' \<le> length ins" "verify_loop ins (unat pc') = None" "length r' = 11"
      using g by (auto simp: step_good_def)
    then show ?thesis using Suc.IH [of pc' r'] Suc.prems(3) Next by simp
  qed (use g in \<open>auto simp: step_good_def\<close>)
qed simp

lemma bpf_run_loop_fuel:
  "bpf_run_fuel fuel ins ctx ctxlen pc r = Some res \<Longrightarrow> bpf_run_loop ins ctx ctxlen pc r = Some res"
proof (induction fuel arbitrary: pc r)
  case (Suc fuel)
  then show ?case
    by (subst bpf_run_loop.simps) (auto split: bpf_outcome.splits)
qed simp

lemma bpf_run_verified:
  assumes "verify ins = None" and "length ins \<le> BPF_MAXI" and "ctxlen \<le> length ctx"
  shows "\<exists>b. bpf_run ins ctx ctxlen = Some (Done b)"
proof -
  obtain b where "bpf_run_fuel (Suc (length ins)) ins ctx ctxlen 0 ((replicate 11 0)[1 := CTX_TAG]) = Some (Done b)"
    using bpf_run_fuel_verified [of ins 0 "(replicate 11 0)[1 := CTX_TAG]" ctxlen ctx "Suc (length ins)"] assms
    by (auto simp: verify_def simp del: bpf_run_fuel.simps)
  from bpf_run_loop_fuel [OF this] show ?thesis by (simp add: bpf_run_def)
qed

end
