(* ===== verification/Bpf_Prog.thy ===== *)
theory Bpf_Prog
  imports Bpf
begin

text \<open>
  Programs, references and attachments of \<open>kernel/core/bpf.c\<close>, and the \<open>bpf(2)\<close> commands.  A
  program is a heap object named by a handle; \<open>bs_fds\<close> lists the descriptors that hold one (what
  \<open>fd_lookup\<close> finds with kind \<open>FD_BPF\<close>), \<open>bs_att\<close> is the array \<open>g_att[0..g_natt)\<close> and \<open>bs_progs\<close> is
  \<open>g_progs\<close>.  Each command holds \<open>g_bpf_lock\<close> over what it reads and writes and is one step; the
  device check, which drops the lock while programs run, is two: \<open>devcg_collect\<close> and one
  \<open>bpf_prog_put\<close> per program.  Console messages are left out.
\<close>

section \<open>State\<close>

record bpf_prog =
  bp_refs :: int
  bp_id :: u32
  bp_ins :: "insn list"
  bp_name :: "u8 list"
  bp_tag :: "u8 list"

record bpf_state =
  bs_heap :: "nat \<Rightarrow> bpf_prog option"
  bs_progs :: "nat option list"
  bs_att :: "(nat \<times> nat) list"
  bs_next_id :: u32
  bs_fds :: "(int \<times> nat) list"
  bs_fresh :: nat

text \<open>What other components answer: whether an allocation succeeds, the instructions that
  \<open>copy_from_user\<close> reads (\<open>None\<close> a bad address), whether a descriptor object and a descriptor are
  available, whether \<open>copy_to_user\<close> succeeds, and the cgroup a descriptor names (0 none).\<close>

record bpf_env =
  be_kmalloc :: bool
  be_kcalloc :: bool
  be_copy_in :: "u64 \<Rightarrow> nat \<Rightarrow> insn list option"
  be_ofile :: bool
  be_newfd :: int
  be_copy_out :: bool
  be_cg :: "int \<Rightarrow> nat"

section \<open>References\<close>

definition bpf_prog_ref_get :: "bpf_state \<Rightarrow> nat \<Rightarrow> bpf_state" where
  "bpf_prog_ref_get s h =
     (case bs_heap s h of
        None \<Rightarrow> s
      | Some p \<Rightarrow> s\<lparr>bs_heap := (bs_heap s)(h \<mapsto> p\<lparr>bp_refs := bp_refs p + 1\<rparr>)\<rparr>)"

definition bpf_prog_put :: "bpf_state \<Rightarrow> nat \<Rightarrow> bpf_state" where
  "bpf_prog_put s h =
     (case bs_heap s h of
        None \<Rightarrow> s
      | Some p \<Rightarrow>
          if bp_refs p - 1 = 0
          then s\<lparr>bs_heap := (bs_heap s)(h := None),
                 bs_progs := map (\<lambda>x. if x = Some h then None else x) (bs_progs s)\<rparr>
          else s\<lparr>bs_heap := (bs_heap s)(h \<mapsto> p\<lparr>bp_refs := bp_refs p - 1\<rparr>)\<rparr>)"

section \<open>The device check\<close>

definition le_bytes :: "u32 \<Rightarrow> u8 list" where
  "le_bytes v = map (\<lambda>k. ucast (drop_bit (8 * k) v)) [0..<4]"

definition devcg_ctx :: "bool \<Rightarrow> u32 \<Rightarrow> u32 \<Rightarrow> u32 \<Rightarrow> u8 list" where
  "devcg_ctx chr major minor access =
     le_bytes (push_bit 16 access OR (if chr then 2 else 1)) @ le_bytes major @ le_bytes minor"

text \<open>The task's cgroup and its ancestors, \<open>cg = cgroupfs_parent(cg)\<close> until null.\<close>

partial_function (option) cg_chain :: "(nat \<Rightarrow> nat) \<Rightarrow> nat \<Rightarrow> nat list option" where
  "cg_chain parent cg =
     (if cg = 0 then Some []
      else Option.bind (cg_chain parent (parent cg)) (\<lambda>cs. Some (cg # cs)))"

fun collect_att :: "nat \<Rightarrow> (nat \<times> nat) list \<Rightarrow> bpf_state \<times> nat list \<Rightarrow> bpf_state \<times> nat list" where
  "collect_att cg [] acc = acc"
| "collect_att cg ((c, h) # att) (s, rl) =
     (if c = cg \<and> length rl < BPF_MAX_PROGS
      then collect_att cg att (bpf_prog_ref_get s h, rl @ [h])
      else collect_att cg att (s, rl))"

definition devcg_collect :: "bpf_state \<Rightarrow> nat list \<Rightarrow> bpf_state \<times> nat list" where
  "devcg_collect s chain = fold (\<lambda>cg (t, rl). collect_att cg (bs_att s) (t, rl)) chain (s, [])"

text \<open>Whether one program allows the access: \<open>None\<close> when it does not return or leaves its arrays.\<close>

definition prog_allows :: "bpf_state \<Rightarrow> u8 list \<Rightarrow> nat \<Rightarrow> bool option" where
  "prog_allows s ctx h =
     (case bs_heap s h of
        None \<Rightarrow> None
      | Some p \<Rightarrow>
          (case bpf_run (bp_ins p) ctx (length ctx) of
             Some (Done b) \<Rightarrow> Some b
           | _ \<Rightarrow> None))"

fun devcg_finish :: "u8 list \<Rightarrow> bool \<Rightarrow> nat list \<Rightarrow> bpf_state \<Rightarrow> (bool \<times> bpf_state) option" where
  "devcg_finish ctx ok [] s = Some (ok, s)"
| "devcg_finish ctx ok (h # hs) s =
     (case (if ok then prog_allows s ctx h else Some False) of
        None \<Rightarrow> None
      | Some b \<Rightarrow> devcg_finish ctx b hs (bpf_prog_put s h))"

definition bpf_devcg_allowed ::
    "(nat \<Rightarrow> nat) \<Rightarrow> nat \<Rightarrow> bpf_state \<Rightarrow> bool \<Rightarrow> u32 \<Rightarrow> u32 \<Rightarrow> u32 \<Rightarrow> (bool \<times> bpf_state) option" where
  "bpf_devcg_allowed parent node s chr major minor access =
     (case cg_chain parent node of
        None \<Rightarrow> None
      | Some chain \<Rightarrow>
          (case devcg_collect s chain of
             (s1, rl) \<Rightarrow> devcg_finish (devcg_ctx chr major minor access) True rl s1))"

text \<open>\<open>g_att[i] = g_att[--g_natt]\<close>: the last entry takes the removed one's place.\<close>

definition att_remove :: "(nat \<times> nat) list \<Rightarrow> nat \<Rightarrow> (nat \<times> nat) list" where
  "att_remove att i = butlast (att[i := last att])"

function gone_loop :: "nat \<Rightarrow> (nat \<times> nat) list \<Rightarrow> nat \<Rightarrow> nat list \<Rightarrow> (nat \<times> nat) list \<times> nat list" where
  "gone_loop cg att i drp =
     (if i < length att then
        (if fst (att ! i) = cg then gone_loop cg (att_remove att i) i (drp @ [snd (att ! i)])
         else gone_loop cg att (Suc i) drp)
      else (att, drp))"
  by pat_completeness auto
termination
  by (relation "measure (\<lambda>(cg, att, i, drp). length att - i)") (auto simp: att_remove_def)

definition bpf_cgroup_gone :: "bpf_state \<Rightarrow> nat \<Rightarrow> bpf_state" where
  "bpf_cgroup_gone s cg =
     (case gone_loop cg (bs_att s) 0 [] of
        (att, drp) \<Rightarrow> fold (\<lambda>h t. bpf_prog_put t h) drp (s\<lparr>bs_att := att\<rparr>))"

section \<open>The commands of \<open>bpf(2)\<close>\<close>

definition byte_at :: "u8 list \<Rightarrow> nat \<Rightarrow> u8" where
  "byte_at a k = (if k < length a then a ! k else 0)"

definition rd32 :: "u8 list \<Rightarrow> nat \<Rightarrow> u32" where
  "rd32 a off = ucast (byte_at a off) OR push_bit 8 (ucast (byte_at a (off + 1))) OR
     push_bit 16 (ucast (byte_at a (off + 2))) OR push_bit 24 (ucast (byte_at a (off + 3)))"

definition rd64 :: "u8 list \<Rightarrow> nat \<Rightarrow> u64" where
  "rd64 a off = ucast (rd32 a off) OR push_bit 32 (ucast (rd32 a (off + 4)))"

definition wr32 :: "u8 list \<Rightarrow> nat \<Rightarrow> u32 \<Rightarrow> u8 list" where
  "wr32 a off v = fold (\<lambda>k b. b[off + k := ucast (drop_bit (8 * k) v)]) [0..<4] a"

definition prog_of_fd :: "bpf_state \<Rightarrow> int \<Rightarrow> nat option" where
  "prog_of_fd s fd = map_of (bs_fds s) fd"

definition install_prog :: "bpf_env \<Rightarrow> bpf_state \<Rightarrow> nat \<Rightarrow> int \<times> bpf_state" where
  "install_prog env s h =
     (if \<not> be_ofile env then (ENOMEM, s)
      else let s1 = bpf_prog_ref_get s h
           in if be_newfd env < 0 then (-24, bpf_prog_put s1 h)
              else (be_newfd env, s1\<lparr>bs_fds := (be_newfd env, h) # bs_fds s1\<rparr>))"

text \<open>The last reference to a descriptor of kind \<open>FD_BPF\<close> goes.\<close>

definition bpf_fd_close :: "bpf_state \<Rightarrow> int \<Rightarrow> bpf_state" where
  "bpf_fd_close s fd =
     (case map_of (bs_fds s) fd of
        None \<Rightarrow> s
      | Some h \<Rightarrow> bpf_prog_put (s\<lparr>bs_fds := remove1 (fd, h) (bs_fds s)\<rparr>) h)"

definition insn_bytes :: "insn \<Rightarrow> u8 list" where
  "insn_bytes i = [i_code i, i_regs i, ucast (i_off i), ucast (drop_bit 8 (i_off i))] @ le_bytes (i_imm i)"

definition prog_tag :: "insn list \<Rightarrow> u8 list" where
  "prog_tag ins =
     (let h = fold (\<lambda>b h. (h XOR ucast b) * 1099511628211) (concat (map insn_bytes ins)) (1469598103934665603 :: u64)
      in map (\<lambda>k. ucast (drop_bit (8 * k) h)) [0..<8])"

text \<open>The first slot of \<open>g_progs\<close> that is free takes the program.\<close>

fun take_slot :: "nat option list \<Rightarrow> nat \<Rightarrow> nat option list option" where
  "take_slot [] h = None"
| "take_slot (None # ps) h = Some (Some h # ps)"
| "take_slot (Some p # ps) h = map_option (Cons (Some p)) (take_slot ps h)"

text \<open>The second half of \<open>prog_load\<close>: a verified program gets an object, a slot and a descriptor.\<close>

definition prog_create :: "bpf_env \<Rightarrow> bpf_state \<Rightarrow> u8 list \<Rightarrow> nat \<Rightarrow> insn list \<Rightarrow> int \<times> bpf_state" where
  "prog_create env s a sz ins =
     (let h = bs_fresh s;
          name = (if sz \<ge> 64 then map (\<lambda>k. byte_at a (48 + k)) [0..<15] @ [0] else replicate 16 0);
          p = \<lparr>bp_refs = 1, bp_id = bs_next_id s, bp_ins = ins, bp_name = name, bp_tag = prog_tag ins\<rparr>;
          s1 = s\<lparr>bs_next_id := bs_next_id s + 1\<rparr>
      in case take_slot (bs_progs s1) h of
           None \<Rightarrow> (ENOSPC, s1)
         | Some ps \<Rightarrow>
             (case install_prog env (s1\<lparr>bs_progs := ps, bs_heap := (bs_heap s1)(h \<mapsto> p), bs_fresh := Suc h\<rparr>) h of
                (fd, s3) \<Rightarrow> (fd, bpf_prog_put s3 h)))"

definition prog_load :: "bpf_env \<Rightarrow> bpf_state \<Rightarrow> u8 list \<Rightarrow> nat \<Rightarrow> int \<times> bpf_state" where
  "prog_load env s a sz =
     (if sz < 24 then (EINVAL, s)
      else let typ = rd32 a 0; n = unat (rd32 a 4); uins = rd64 a 8; flags = rd32 a 44
           in if flags \<noteq> 0 then (EINVAL, s)
              else if typ \<noteq> BPF_PROG_TYPE_CGROUP_DEVICE then (EINVAL, s)
              else if n = 0 \<or> n > BPF_MAXI then (EINVAL, s)
              else if \<not> be_kmalloc env then (ENOMEM, s)
              else (case be_copy_in env uins n of
                      None \<Rightarrow> (EFAULT, s)
                    | Some ins \<Rightarrow>
                        if verify ins \<noteq> None then (EINVAL, s)
                        else if \<not> be_kcalloc env then (ENOMEM, s)
                        else prog_create env s a sz ins))"

fun first_idx :: "('a \<Rightarrow> bool) \<Rightarrow> 'a list \<Rightarrow> nat option" where
  "first_idx P [] = None"
| "first_idx P (x # xs) = (if P x then Some 0 else map_option Suc (first_idx P xs))"

text \<open>\<open>g_att[i].p = p\<close> with the references moved: the new program gains one, the old one loses one.\<close>

definition att_replace :: "bpf_state \<Rightarrow> nat \<Rightarrow> nat \<Rightarrow> bpf_state" where
  "att_replace s i h =
     (let old = snd (bs_att s ! i);
          s1 = bpf_prog_ref_get s h
      in bpf_prog_put (s1\<lparr>bs_att := (bs_att s)[i := (fst (bs_att s ! i), h)]\<rparr>) old)"

text \<open>The branches of \<open>prog_attach\<close>: a detach takes the first attachment of the cgroup that matches,
  any attachment when no program is named; an attach replaces a named program, replaces the only
  one, or adds one.\<close>

definition attach_detach :: "bpf_state \<Rightarrow> nat \<Rightarrow> nat option \<Rightarrow> int \<times> bpf_state" where
  "attach_detach s cg p =
     (case first_idx (\<lambda>(c, h). c = cg \<and> (p = None \<or> p = Some h)) (bs_att s) of
        None \<Rightarrow> (ENOENT, s)
      | Some i \<Rightarrow> (0, bpf_prog_put (s\<lparr>bs_att := att_remove (bs_att s) i\<rparr>) (snd (bs_att s ! i))))"

definition attach_replace :: "bpf_state \<Rightarrow> nat \<Rightarrow> nat \<Rightarrow> int \<Rightarrow> int \<times> bpf_state" where
  "attach_replace s cg h rfd =
     (case prog_of_fd s rfd of
        None \<Rightarrow> (ENOENT, s)
      | Some old \<Rightarrow>
          (case first_idx (\<lambda>(c, g). c = cg \<and> g = old) (bs_att s) of
             None \<Rightarrow> (ENOENT, s)
           | Some i \<Rightarrow> (0, att_replace s i h)))"

definition attach_add :: "bpf_state \<Rightarrow> nat \<Rightarrow> nat \<Rightarrow> u32 \<Rightarrow> int \<times> bpf_state" where
  "attach_add s cg h flags =
     (let count = length (filter (\<lambda>(c, g). c = cg) (bs_att s))
      in case (if count \<noteq> 0 \<and> flags AND BPF_F_ALLOW_MULTI = 0
               then first_idx (\<lambda>(c, g). c = cg) (bs_att s) else None) of
           Some i \<Rightarrow> (0, att_replace s i h)
         | None \<Rightarrow>
             if count \<ge> BPF_MAX_ATTACH \<or> length (bs_att s) \<ge> BPF_MAX_PROGS then (E2BIG, s)
             else (0, (bpf_prog_ref_get s h)\<lparr>bs_att := bs_att s @ [(cg, h)]\<rparr>))"

definition prog_attach :: "bpf_env \<Rightarrow> bpf_state \<Rightarrow> u8 list \<Rightarrow> bool \<Rightarrow> int \<times> bpf_state" where
  "prog_attach env s a detach =
     (let target = sint (rd32 a 0); pfd = sint (rd32 a 4); typ = rd32 a 8; flags = rd32 a 12;
          rfd = sint (rd32 a 16); cg = be_cg env target;
          p = (if pfd > 0 \<or> \<not> detach then prog_of_fd s pfd else None)
      in if typ \<noteq> BPF_CGROUP_DEVICE then (EINVAL, s)
         else if cg = 0 then (EBADF, s)
         else if detach then attach_detach s cg p
         else (case p of
                 None \<Rightarrow> (EBADF, s)
               | Some h \<Rightarrow>
                   if flags AND BPF_F_REPLACE \<noteq> 0 then attach_replace s cg h rfd
                   else attach_add s cg h flags))"

text \<open>The result, the attribute block written back and the bytes copied to the caller's array.\<close>

definition prog_query :: "bpf_env \<Rightarrow> bpf_state \<Rightarrow> u8 list \<Rightarrow> nat \<Rightarrow> int \<times> u8 list \<times> u8 list" where
  "prog_query env s a sz =
     (if sz < 28 then (EINVAL, a, [])
      else let target = sint (rd32 a 0); typ = rd32 a 4; uids = rd64 a 16; cap = rd32 a 24;
               cg = be_cg env target
           in if typ \<noteq> BPF_CGROUP_DEVICE then (EINVAL, a, [])
              else if cg = 0 then (EBADF, a, [])
              else let hs = take BPF_MAX_ATTACH (map snd (filter (\<lambda>(c, h). c = cg) (bs_att s)));
                       ids = map (\<lambda>h. case bs_heap s h of None \<Rightarrow> 0 | Some p \<Rightarrow> bp_id p) hs;
                       n = length ids;
                       a1 = wr32 a 12 (if n \<noteq> 0 then BPF_F_ALLOW_MULTI else 0);
                       a2 = wr32 a1 24 (of_nat n)
                   in if of_nat n > cap then (ENOSPC, a2, [])
                      else if n \<noteq> 0 \<and> uids \<noteq> 0 then
                        (if be_copy_out env then (0, a2, concat (map le_bytes ids)) else (EFAULT, a2, []))
                      else (0, a2, []))"

definition slot_has_id :: "bpf_state \<Rightarrow> u32 \<Rightarrow> nat option \<Rightarrow> bool" where
  "slot_has_id s pid x =
     (case Option.bind x (bs_heap s) of None \<Rightarrow> False | Some p \<Rightarrow> bp_id p = pid)"

definition get_fd_by_id :: "bpf_env \<Rightarrow> bpf_state \<Rightarrow> u8 list \<Rightarrow> int \<times> bpf_state" where
  "get_fd_by_id env s a =
     (case first_idx (slot_has_id s (rd32 a 0)) (bs_progs s) of
        None \<Rightarrow> (ENOENT, s)
      | Some i \<Rightarrow>
          (case bs_progs s ! i of
             None \<Rightarrow> (ENOENT, s)
           | Some h \<Rightarrow>
               (case install_prog env (bpf_prog_ref_get s h) h of
                  (fd, s2) \<Rightarrow> (fd, bpf_prog_put s2 h))))"

text \<open>The information block \<open>obj_info\<close> fills and the number of its bytes it copies out.\<close>

definition prog_info :: "bpf_prog \<Rightarrow> u8 list" where
  "prog_info p =
     (let i0 = replicate 80 (0 :: u8);
          i1 = wr32 i0 0 BPF_PROG_TYPE_CGROUP_DEVICE;
          i2 = wr32 i1 4 (bp_id p);
          i3 = fold (\<lambda>k b. b[8 + k := byte_at (bp_tag p) k]) [0..<8] i2;
          i4 = wr32 i3 20 (of_nat (length (bp_ins p)) * 8)
      in fold (\<lambda>k b. b[64 + k := byte_at (bp_name p) k]) [0..<16] i4)"

definition obj_info :: "bpf_env \<Rightarrow> bpf_state \<Rightarrow> u8 list \<Rightarrow> int \<times> u8 list \<times> u8 list" where
  "obj_info env s a =
     (let fd = sint (rd32 a 0); len = unat (rd32 a 4)
      in case Option.bind (prog_of_fd s fd) (bs_heap s) of
           None \<Rightarrow> (EINVAL, a, [])
         | Some p \<Rightarrow>
             let w = min len 80
             in if w \<noteq> 0 \<and> \<not> be_copy_out env then (EFAULT, a, [])
                else (0, wr32 a 4 (of_nat w), take w (prog_info p)))"

definition bpf_syscall ::
    "bpf_env \<Rightarrow> bpf_state \<Rightarrow> int \<Rightarrow> u8 list \<Rightarrow> nat \<Rightarrow> int \<times> bpf_state \<times> u8 list \<times> u8 list" where
  "bpf_syscall env s cmd a sz =
     (if cmd = 5 then (case prog_load env s a sz of (r, s') \<Rightarrow> (r, s', a, []))
      else if cmd = 8 then (case prog_attach env s a False of (r, s') \<Rightarrow> (r, s', a, []))
      else if cmd = 9 then (case prog_attach env s a True of (r, s') \<Rightarrow> (r, s', a, []))
      else if cmd = 13 then (case get_fd_by_id env s a of (r, s') \<Rightarrow> (r, s', a, []))
      else if cmd = 15 then (case obj_info env s a of (r, a', out) \<Rightarrow> (r, s, a', out))
      else if cmd = 16 then (case prog_query env s a sz of (r, a', out) \<Rightarrow> (r, s, a', out))
      else (EINVAL, s, a, []))"

declare gone_loop.simps [simp del]

end
