(* ===== verification/Bpf_Spec.thy ===== *)
theory Bpf_Spec
  imports Bpf_Prog "HOL-Library.Multiset"
begin

text \<open>
  Programs stay allocated exactly as long as something refers to them: the reference count of every
  program is the number of descriptors, attachments and running device checks that hold it, under
  every interleaving of commands, descriptor closes, cgroup removals and device checks.
\<close>

section \<open>The reference invariant\<close>

definition refs_of :: "bpf_state \<Rightarrow> nat multiset" where
  "refs_of s = mset (map snd (bs_att s)) + mset (map snd (bs_fds s))"

definition live_ok :: "bpf_state \<Rightarrow> nat multiset \<Rightarrow> bool" where
  "live_ok s M \<longleftrightarrow>
     (\<forall>h p. bs_heap s h = Some p \<longrightarrow> bp_refs p = int (count M h) \<and> h \<in># M \<and> verify (bp_ins p) = None \<and>
        length (bp_ins p) \<le> BPF_MAXI \<and> Some h \<in> set (bs_progs s) \<and> h < bs_fresh s) \<and>
     (\<forall>h. bs_heap s h = None \<longrightarrow> h \<notin># M \<and> Some h \<notin> set (bs_progs s)) \<and>
     length (bs_progs s) = BPF_MAX_PROGS"

text \<open>\<open>fl\<close> lists the references held by device checks in progress.\<close>

definition bpf_inv :: "bpf_state \<Rightarrow> nat list \<Rightarrow> bool" where
  "bpf_inv s fl \<longleftrightarrow> live_ok s (refs_of s + mset fl) \<and> length (bs_att s) \<le> BPF_MAX_PROGS"

lemma live_ok_cong:
  "live_ok s M \<Longrightarrow> bs_heap t = bs_heap s \<Longrightarrow> bs_progs t = bs_progs s \<Longrightarrow> bs_fresh t = bs_fresh s \<Longrightarrow> live_ok t M"
  by (simp add: live_ok_def)

lemma ref_get_fields [simp]:
  "bs_att (bpf_prog_ref_get s h) = bs_att s" "bs_fds (bpf_prog_ref_get s h) = bs_fds s"
  "bs_progs (bpf_prog_ref_get s h) = bs_progs s" "bs_fresh (bpf_prog_ref_get s h) = bs_fresh s"
  "bs_next_id (bpf_prog_ref_get s h) = bs_next_id s"
  by (simp_all add: bpf_prog_ref_get_def split: option.splits)

lemma put_fields [simp]:
  "bs_att (bpf_prog_put s h) = bs_att s" "bs_fds (bpf_prog_put s h) = bs_fds s"
  "bs_fresh (bpf_prog_put s h) = bs_fresh s" "bs_next_id (bpf_prog_put s h) = bs_next_id s"
  by (simp_all add: bpf_prog_put_def split: option.splits)

lemma ref_get_live:
  assumes "live_ok s M" and "bs_heap s h \<noteq> None"
  shows "live_ok (bpf_prog_ref_get s h) (add_mset h M)"
  using assms by (auto simp: live_ok_def bpf_prog_ref_get_def split: if_splits)

lemma put_live:
  assumes ok: "live_ok s (add_mset h M)"
  shows "live_ok (bpf_prog_put s h) M"
proof -
  obtain p where p: "bs_heap s h = Some p"
    using ok by (cases "bs_heap s h") (auto simp: live_ok_def)
  have refs: "bp_refs p = int (count M h) + 1" using ok p by (auto simp: live_ok_def)
  show ?thesis
  proof (cases "count M h = 0")
    case True
    then have t: "bpf_prog_put s h = s\<lparr>bs_heap := (bs_heap s)(h := None),
        bs_progs := map (\<lambda>x. if x = Some h then None else x) (bs_progs s)\<rparr>"
      using p refs by (simp add: bpf_prog_put_def)
    have "h \<notin># M" using True by (simp add: count_eq_zero_iff)
    then show ?thesis
      using ok unfolding t live_ok_def by (auto simp: image_iff split: if_splits)
  next
    case False
    then have "bp_refs p - 1 \<noteq> 0" using refs by simp
    then have t: "bpf_prog_put s h = s\<lparr>bs_heap := (bs_heap s)(h \<mapsto> p\<lparr>bp_refs := bp_refs p - 1\<rparr>)\<rparr>"
      using p by (simp only: bpf_prog_put_def option.case if_False)
    have "h \<in># M" using False by (simp add: count_eq_zero_iff)
    then show ?thesis
      using ok p unfolding t live_ok_def by (auto split: if_splits)
  qed
qed

lemma ref_get_inv: "bpf_inv s fl \<Longrightarrow> bs_heap s h \<noteq> None \<Longrightarrow> bpf_inv (bpf_prog_ref_get s h) (h # fl)"
  using ref_get_live by (auto simp: bpf_inv_def refs_of_def)

lemma put_inv:
  assumes "bpf_inv s fl" and "h \<in> set fl"
  shows "bpf_inv (bpf_prog_put s h) (remove1 h fl)"
proof -
  have "refs_of s + mset fl = add_mset h (refs_of s + mset (remove1 h fl))"
    using assms(2) by simp
  then have "live_ok (bpf_prog_put s h) (refs_of s + mset (remove1 h fl))"
    using assms(1) put_live by (metis bpf_inv_def)
  then show ?thesis using assms(1) by (simp add: bpf_inv_def refs_of_def)
qed

lemma put_inv_head: "bpf_inv s (h # fl) \<Longrightarrow> bpf_inv (bpf_prog_put s h) fl"
  using put_inv [of s "h # fl" h] by simp

lemma heap_live: "bpf_inv s fl \<Longrightarrow> h \<in># refs_of s + mset fl \<Longrightarrow> bs_heap s h \<noteq> None"
  by (auto simp: bpf_inv_def live_ok_def)

text \<open>Moving a reference between the places that hold one.\<close>

lemma inv_move:
  assumes "bpf_inv s fl" and "bs_heap t = bs_heap s" "bs_progs t = bs_progs s" "bs_fresh t = bs_fresh s"
    and "length (bs_att t) \<le> BPF_MAX_PROGS" and "refs_of t + mset fl' = refs_of s + mset fl"
  shows "bpf_inv t fl'"
  using assms live_ok_cong [of s _ t] by (simp add: bpf_inv_def)

lemma mset_att_remove:
  assumes "i < length att"
  shows "add_mset (att ! i) (mset (att_remove att i)) = mset att"
proof -
  have ne: "att \<noteq> []" using assms by auto
  let ?u = "att[i := last att]"
  have "?u \<noteq> []" using ne by simp
  then have "mset (butlast ?u) = mset ?u - {#last ?u#}"
    by (metis append_butlast_last_id diff_union_cancelR mset_append mset_single_iff_right)
  moreover have "last ?u = last att"
    using ne assms by (simp add: last_conv_nth nth_list_update)
  moreover have "mset ?u = add_mset (last att) (mset att - {#att ! i#})"
    using assms by (simp add: mset_update)
  ultimately have "mset (att_remove att i) = mset att - {#att ! i#}"
    by (simp add: att_remove_def)
  then show ?thesis using assms by simp
qed

lemma length_att_remove [simp]: "length (att_remove att i) = length att - 1"
  by (simp add: att_remove_def)

lemma inv_att_remove:
  assumes "bpf_inv s fl" and "i < length (bs_att s)"
  shows "bpf_inv (s\<lparr>bs_att := att_remove (bs_att s) i\<rparr>) (snd (bs_att s ! i) # fl)"
proof (rule inv_move [OF assms(1)])
  have "mset (map snd (bs_att s)) = add_mset (snd (bs_att s ! i)) (mset (map snd (att_remove (bs_att s) i)))"
    using mset_att_remove [OF assms(2)] by (metis image_mset_add_mset mset_map)
  then show "refs_of (s\<lparr>bs_att := att_remove (bs_att s) i\<rparr>) + mset (snd (bs_att s ! i) # fl) = refs_of s + mset fl"
    by (simp add: refs_of_def)
qed (use assms in \<open>auto simp: bpf_inv_def\<close>)

lemma gone_loop_inv:
  assumes "bpf_inv (s\<lparr>bs_att := att\<rparr>) (drp @ fl)" and "gone_loop cg att i drp = (att', drp')"
  shows "bpf_inv (s\<lparr>bs_att := att'\<rparr>) (drp' @ fl)"
  using assms
proof (induction cg att i drp rule: gone_loop.induct)
  case (1 cg att i drp)
  show ?case
  proof (cases "i < length att \<and> fst (att ! i) = cg")
    case True
    then have "gone_loop cg (att_remove att i) i (drp @ [snd (att ! i)]) = (att', drp')"
      using 1(4) by (subst (asm) gone_loop.simps) simp
    moreover have "bpf_inv (s\<lparr>bs_att := att_remove att i\<rparr>) ((drp @ [snd (att ! i)]) @ fl)"
      using inv_att_remove [OF 1(3), of i] True by (simp add: bpf_inv_def)
    ultimately show ?thesis using 1(1) True by blast
  next
    case False
    then have "gone_loop cg att i drp = (if i < length att then gone_loop cg att (Suc i) drp else (att, drp))"
      by (subst gone_loop.simps) simp
    then show ?thesis using False 1(2-4) by (cases "i < length att") auto
  qed
qed

lemma fold_put_inv: "bpf_inv s (drp @ fl) \<Longrightarrow> bpf_inv (fold (\<lambda>h t. bpf_prog_put t h) drp s) fl"
  by (induction drp arbitrary: s) (auto dest: put_inv_head)

lemma cgroup_gone_inv: "bpf_inv s fl \<Longrightarrow> bpf_inv (bpf_cgroup_gone s cg) fl"
proof -
  assume i: "bpf_inv s fl"
  obtain att drp where g: "gone_loop cg (bs_att s) 0 [] = (att, drp)" by force
  have "bpf_inv (s\<lparr>bs_att := bs_att s\<rparr>) ([] @ fl)" using i by simp
  from gone_loop_inv [OF this g] show ?thesis
    using fold_put_inv by (simp add: bpf_cgroup_gone_def g)
qed

lemma map_of_heap: "bpf_inv s fl \<Longrightarrow> prog_of_fd s fd = Some h \<Longrightarrow> bs_heap s h \<noteq> None"
  by (rule heap_live) (auto simp: prog_of_fd_def refs_of_def dest!: map_of_SomeD intro: rev_image_eqI)

lemma mset_map_remove1: "x \<in> set xs \<Longrightarrow> mset (map f xs) = add_mset (f x) (mset (map f (remove1 x xs)))"
  by (induction xs) auto

lemma fd_close_inv: "bpf_inv s fl \<Longrightarrow> bpf_inv (bpf_fd_close s fd) fl"
proof (cases "map_of (bs_fds s) fd")
  case (Some h)
  assume i: "bpf_inv s fl"
  have mem: "(fd, h) \<in> set (bs_fds s)" using map_of_SomeD [OF Some] .
  have "bpf_inv (s\<lparr>bs_fds := remove1 (fd, h) (bs_fds s)\<rparr>) (h # fl)"
  proof (rule inv_move [OF i])
    have "mset (map snd (bs_fds s)) = add_mset h (mset (map snd (remove1 (fd, h) (bs_fds s))))"
      using mset_map_remove1 [OF mem, of snd] by simp
    then show "refs_of (s\<lparr>bs_fds := remove1 (fd, h) (bs_fds s)\<rparr>) + mset (h # fl) = refs_of s + mset fl"
      by (simp add: refs_of_def)
  qed (use i in \<open>auto simp: bpf_inv_def\<close>)
  then show ?thesis using put_inv_head by (simp add: bpf_fd_close_def Some)
qed (simp add: bpf_fd_close_def)

lemma install_inv:
  assumes "bpf_inv s fl" and "bs_heap s h \<noteq> None" and "install_prog env s h = (fd, s')"
  shows "bpf_inv s' fl"
proof -
  have r: "bpf_inv (bpf_prog_ref_get s h) (h # fl)" using ref_get_inv assms(1,2) .
  have m: "bpf_inv ((bpf_prog_ref_get s h)\<lparr>bs_fds := (n, h) # bs_fds (bpf_prog_ref_get s h)\<rparr>) fl" for n
    by (rule inv_move [OF r]) (use r in \<open>auto simp: bpf_inv_def refs_of_def\<close>)
  show ?thesis
    using assms(1,3) put_inv_head [OF r] m by (auto simp: install_prog_def Let_def split: if_splits)
qed

lemma take_slot_ok:
  "take_slot ps h = Some qs \<Longrightarrow> length qs = length ps \<and> set qs \<subseteq> insert (Some h) (set ps) \<and> Some h \<in> set qs \<and>
    (\<forall>x. Some x \<in> set ps \<longrightarrow> Some x \<in> set qs)"
  by (induction ps h arbitrary: qs rule: take_slot.induct) auto

lemma prog_create_inv:
  assumes i: "bpf_inv s fl" and v: "verify ins = None" "length ins \<le> BPF_MAXI"
    and run: "prog_create env s a sz ins = (r, s')"
  shows "bpf_inv s' fl"
proof (cases "take_slot (bs_progs s) (bs_fresh s)")
  case None
  have "bpf_inv (s\<lparr>bs_next_id := bs_next_id s + 1\<rparr>) fl"
    by (rule inv_move [OF i]) (use i in \<open>auto simp: bpf_inv_def refs_of_def\<close>)
  then show ?thesis using run None by (simp add: prog_create_def Let_def)
next
  case (Some ps)
  let ?h = "bs_fresh s"
  define p where "p = \<lparr>bp_refs = 1, bp_id = bs_next_id s, bp_ins = ins,
    bp_name = (if sz \<ge> 64 then map (\<lambda>k. byte_at a (48 + k)) [0..<15] @ [0] else replicate 16 0),
    bp_tag = prog_tag ins\<rparr>"
  define t where "t = s\<lparr>bs_next_id := bs_next_id s + 1, bs_progs := ps,
    bs_heap := (bs_heap s)(?h \<mapsto> p), bs_fresh := Suc ?h\<rparr>"
  have "\<exists>fd s3. install_prog env t ?h = (fd, s3) \<and> s' = bpf_prog_put s3 ?h"
    using run Some by (auto simp: prog_create_def Let_def t_def p_def split: prod.splits)
  then obtain fd s3 where "install_prog env t ?h = (fd, s3)" "s' = bpf_prog_put s3 ?h" by blast
  note t = this
  have p: "bp_refs p = 1" "bp_ins p = ins" by (simp_all add: p_def)
  have none: "bs_heap s ?h = None" using i by (fastforce simp: bpf_inv_def live_ok_def)
  note S = take_slot_ok [OF Some]
  have fresh: "?h \<notin># refs_of s + mset fl" "Some ?h \<notin> set (bs_progs s)"
    using i none unfolding bpf_inv_def live_ok_def by blast+
  have "live_ok t (add_mset ?h (refs_of s + mset fl))"
    unfolding live_ok_def
  proof (intro conjI allI impI)
    fix h q assume q: "bs_heap t h = Some q"
    show "bp_refs q = int (count (add_mset ?h (refs_of s + mset fl)) h)" "h \<in># add_mset ?h (refs_of s + mset fl)"
      "verify (bp_ins q) = None" "length (bp_ins q) \<le> BPF_MAXI" "Some h \<in> set (bs_progs t)" "h < bs_fresh t"
      using q i t_def p v S fresh none unfolding bpf_inv_def live_ok_def
      by (auto simp: not_in_iff less_SucI split: if_splits)
  next
    fix h assume q: "bs_heap t h = None"
    show "h \<notin># add_mset ?h (refs_of s + mset fl)" "Some h \<notin> set (bs_progs t)"
      using q i t_def S unfolding bpf_inv_def live_ok_def by (auto split: if_splits)
  next
    show "length (bs_progs t) = BPF_MAX_PROGS" using i t_def S by (simp add: bpf_inv_def live_ok_def)
  qed
  then have "bpf_inv t (?h # fl)" using i by (simp add: bpf_inv_def refs_of_def t_def)
  moreover have "bs_heap t ?h \<noteq> None" by (simp add: t_def)
  ultimately have "bpf_inv s3 (?h # fl)" using install_inv t(1) by blast
  with t(2) show ?thesis using put_inv_head by simp
qed

lemma prog_load_inv:
  assumes i: "bpf_inv s fl" and len: "\<And>u n ins. be_copy_in env u n = Some ins \<Longrightarrow> length ins = n"
    and run: "prog_load env s a sz = (r, s')"
  shows "bpf_inv s' fl"
proof -
  consider "s' = s" | ins where "verify ins = None" "length ins \<le> BPF_MAXI" "prog_create env s a sz ins = (r, s')"
    using run len unfolding prog_load_def Let_def
    by (auto simp: not_less split: if_splits option.splits)
  then show ?thesis using i prog_create_inv by cases auto
qed

lemma first_idx_ok: "first_idx P xs = Some i \<Longrightarrow> i < length xs \<and> P (xs ! i)"
  by (induction xs arbitrary: i) (auto split: if_splits)

lemma att_replace_inv:
  assumes i: "bpf_inv s fl" and k: "k < length (bs_att s)" and h: "bs_heap s h \<noteq> None"
  shows "bpf_inv (att_replace s k h) fl"
proof -
  let ?s1 = "bpf_prog_ref_get s h" and ?old = "snd (bs_att s ! k)"
  let ?t = "?s1\<lparr>bs_att := (bs_att s)[k := (fst (bs_att s ! k), h)]\<rparr>"
  have r: "bpf_inv ?s1 (h # fl)" using ref_get_inv i h .
  have "bpf_inv ?t (?old # fl)"
  proof (rule inv_move [OF r])
    have "map snd ((bs_att s)[k := (fst (bs_att s ! k), h)]) = (map snd (bs_att s))[k := h]"
      by (simp add: map_update)
    moreover have "add_mset ?old (mset ((map snd (bs_att s))[k := h])) = add_mset h (mset (map snd (bs_att s)))"
      using k by (simp add: mset_update)
    ultimately show "refs_of ?t + mset (?old # fl) = refs_of ?s1 + mset (h # fl)"
      by (simp add: refs_of_def)
  qed (use i in \<open>auto simp: bpf_inv_def\<close>)
  then show ?thesis using put_inv_head by (simp add: att_replace_def Let_def)
qed

lemma att_append_inv:
  assumes i: "bpf_inv s fl" and h: "bs_heap s h \<noteq> None" and n: "length (bs_att s) < BPF_MAX_PROGS"
  shows "bpf_inv ((bpf_prog_ref_get s h)\<lparr>bs_att := bs_att s @ [(cg, h)]\<rparr>) fl"
  by (rule inv_move [OF ref_get_inv [OF i h]]) (use n in \<open>auto simp: refs_of_def\<close>)

lemma attach_detach_inv: "bpf_inv s fl \<Longrightarrow> bpf_inv (snd (attach_detach s cg p)) fl"
  using put_inv_head [OF inv_att_remove]
  by (auto simp: attach_detach_def dest!: first_idx_ok split: option.splits)

lemma attach_replace_inv: "bpf_inv s fl \<Longrightarrow> bs_heap s h \<noteq> None \<Longrightarrow> bpf_inv (snd (attach_replace s cg h rfd)) fl"
  using att_replace_inv
  by (auto simp: attach_replace_def dest!: first_idx_ok split: option.splits)

lemma attach_add_inv: "bpf_inv s fl \<Longrightarrow> bs_heap s h \<noteq> None \<Longrightarrow> bpf_inv (snd (attach_add s cg h flags)) fl"
  using att_replace_inv att_append_inv
  by (auto simp: attach_add_def Let_def dest!: first_idx_ok split: option.splits)

lemma prog_attach_inv:
  assumes i: "bpf_inv s fl" and run: "prog_attach env s a detach = (r, s')"
  shows "bpf_inv s' fl"
proof -
  have "bpf_inv (snd (prog_attach env s a detach)) fl"
    using i attach_detach_inv [OF i] attach_replace_inv [OF i] attach_add_inv [OF i]
      map_of_heap [OF i, of "sint (rd32 a 4)"]
    by (simp add: prog_attach_def Let_def split: option.split)
  then show ?thesis by (simp add: run)
qed

lemma get_fd_inv:
  assumes i: "bpf_inv s fl" and run: "get_fd_by_id env s a = (r, s')"
  shows "bpf_inv s' fl"
proof -
  consider "s' = s"
    | h s2 where "Some h \<in> set (bs_progs s)" "install_prog env (bpf_prog_ref_get s h) h = (r, s2)" "s' = bpf_prog_put s2 h"
  proof (cases "first_idx (slot_has_id s (rd32 a 0)) (bs_progs s)")
    case None
    then show ?thesis using run that(1) by (simp add: get_fd_by_id_def)
  next
    case (Some k)
    then have k: "k < length (bs_progs s)" using first_idx_ok by blast
    then show ?thesis
      using run that Some nth_mem [OF k]
      by (cases "bs_progs s ! k") (auto simp: get_fd_by_id_def split: prod.splits)
  qed
  then show ?thesis
  proof cases
    case 1
    with i show ?thesis by simp
  next
    case 2
    have h: "bs_heap s h \<noteq> None" using i 2(1) by (auto simp: bpf_inv_def live_ok_def)
    note r = ref_get_inv [OF i h]
    have "bs_heap (bpf_prog_ref_get s h) h \<noteq> None" by (rule heap_live [OF r]) simp
    then show ?thesis using install_inv [OF r _ 2(2)] put_inv_head 2(3) by blast
  qed
qed

lemma syscall_inv:
  assumes "bpf_inv s fl" and "\<And>u n ins. be_copy_in env u n = Some ins \<Longrightarrow> length ins = n"
    and "bpf_syscall env s cmd a sz = (r, s', a', out)"
  shows "bpf_inv s' fl"
  using assms prog_load_inv [OF assms(1,2)] prog_attach_inv [OF assms(1)] get_fd_inv [OF assms(1)]
  by (auto simp: bpf_syscall_def split: if_splits prod.splits)

lemma collect_att_inv:
  assumes "bpf_inv t (rl @ fl)" and "\<And>c h. (c, h) \<in> set att \<Longrightarrow> (c, h) \<in> set (bs_att t)"
    and "collect_att cg att (t, rl) = (t', rl')"
  shows "bpf_inv t' (rl' @ fl) \<and> bs_att t' = bs_att t"
  using assms
proof (induction att arbitrary: t rl)
  case (Cons x att)
  obtain c h where x: "x = (c, h)" by force
  show ?case
  proof (cases "c = cg \<and> length rl < BPF_MAX_PROGS")
    case True
    have "bs_heap t h \<noteq> None"
    proof (rule heap_live [OF Cons.prems(1)])
      have "(c, h) \<in> set (bs_att t)" using Cons.prems(2) x by simp
      then show "h \<in># refs_of t + mset (rl @ fl)" by (auto simp: refs_of_def intro: rev_image_eqI)
    qed
    from ref_get_inv [OF Cons.prems(1) this]
    have "bpf_inv (bpf_prog_ref_get t h) ((rl @ [h]) @ fl)" by (simp add: bpf_inv_def)
    then show ?thesis using Cons.IH [of "bpf_prog_ref_get t h" "rl @ [h]"] Cons.prems True by (simp add: x)
  next
    case False
    then show ?thesis using Cons.IH [of t rl] Cons.prems by (auto simp: x)
  qed
qed simp

lemma collect_inv:
  assumes "bpf_inv s fl" and "devcg_collect s chain = (s', rl)"
  shows "bpf_inv s' (rl @ fl)"
proof -
  have "bpf_inv t' (rl' @ fl) \<and> bs_att t' = bs_att s"
    if "bpf_inv t (rl @ fl)" "bs_att t = bs_att s"
      "fold (\<lambda>cg (t, rl). collect_att cg (bs_att s) (t, rl)) chain (t, rl) = (t', rl')" for t rl t' rl'
    using that
  proof (induction chain arbitrary: t rl)
    case (Cons cg chain)
    obtain u ru where u: "collect_att cg (bs_att s) (t, rl) = (u, ru)" by force
    have "bpf_inv u (ru @ fl) \<and> bs_att u = bs_att t"
      using collect_att_inv [OF Cons.prems(1) _ u] Cons.prems(2) by simp
    then show ?case using Cons.IH [of u ru] Cons.prems(2,3) u by simp
  qed simp
  from this [of s "[]" s' rl] assms show ?thesis by (simp add: devcg_collect_def)
qed

section \<open>Every interleaving\<close>

text \<open>One atomic event of the subsystem.  \<open>fl\<close> are the programs that device checks took a reference
  to and have not put back; a check of one task may be overtaken by any other event.\<close>

inductive bpf_evt :: "bpf_state \<times> nat list \<Rightarrow> bpf_state \<times> nat list \<Rightarrow> bool" where
  evt_syscall: "bpf_syscall env s cmd a sz = (r, s', a', out) \<Longrightarrow>
    (\<And>u n ins. be_copy_in env u n = Some ins \<Longrightarrow> length ins = n) \<Longrightarrow> bpf_evt (s, fl) (s', fl)"
| evt_close: "bpf_evt (s, fl) (bpf_fd_close s fd, fl)"
| evt_gone: "bpf_evt (s, fl) (bpf_cgroup_gone s cg, fl)"
| evt_collect: "devcg_collect s chain = (s', rl) \<Longrightarrow> bpf_evt (s, fl) (s', rl @ fl)"
| evt_put: "h \<in> set fl \<Longrightarrow> bpf_evt (s, fl) (bpf_prog_put s h, remove1 h fl)"

definition bpf_init :: bpf_state where
  "bpf_init = \<lparr>bs_heap = (\<lambda>h. None), bs_progs = replicate 256 None, bs_att = [], bs_next_id = 1,
     bs_fds = [], bs_fresh = 0\<rparr>"

lemma bpf_init_inv: "bpf_inv bpf_init []"
  by (auto simp: bpf_inv_def live_ok_def bpf_init_def refs_of_def bpf_consts)

inductive bpf_reach :: "bpf_state \<Rightarrow> nat list \<Rightarrow> bool" where
  reach_init: "bpf_reach bpf_init []"
| reach_evt: "bpf_reach s fl \<Longrightarrow> bpf_evt (s, fl) (s', fl') \<Longrightarrow> bpf_reach s' fl'"

lemma bpf_evt_inv: "bpf_evt c c' \<Longrightarrow> bpf_inv (fst c) (snd c) \<Longrightarrow> bpf_inv (fst c') (snd c')"
proof (induction rule: bpf_evt.induct)
  case (evt_syscall env s cmd a sz r s' a' out fl)
  show ?case using syscall_inv [OF _ evt_syscall(2) evt_syscall(1)] evt_syscall(3) by simp
qed (simp_all add: fd_close_inv cgroup_gone_inv collect_inv put_inv)

lemma bpf_reach_inv: "bpf_reach s fl \<Longrightarrow> bpf_inv s fl"
  by (induction rule: bpf_reach.induct) (use bpf_init_inv bpf_evt_inv in fastforce)+

section \<open>The decision of the device check\<close>

definition bump :: "bpf_state \<Rightarrow> nat list \<Rightarrow> bpf_state" where
  "bump s rl = s\<lparr>bs_heap := \<lambda>h. map_option (\<lambda>p. p\<lparr>bp_refs := bp_refs p + int (count_list rl h)\<rparr>) (bs_heap s h)\<rparr>"

lemma bump_Nil [simp]: "bump s [] = s"
proof -
  have "(\<lambda>h. map_option (\<lambda>p. p\<lparr>bp_refs := bp_refs p + int (count_list [] h)\<rparr>) (bs_heap s h)) = bs_heap s"
    by (auto simp: fun_eq_iff map_option_case split: option.splits)
  then show ?thesis by (simp add: bump_def)
qed

lemma ref_get_bump: "bs_heap s h \<noteq> None \<Longrightarrow> bpf_prog_ref_get (bump s rl) h = bump s (rl @ [h])"
  by (auto simp: bump_def bpf_prog_ref_get_def fun_eq_iff map_option_case intro!: bpf_state.equality split: option.splits)

lemma put_bump:
  assumes "bs_heap s h = Some p" and "0 < bp_refs p"
  shows "bpf_prog_put (bump s (h # rl)) h = bump s rl"
  using assms by (auto simp: bump_def bpf_prog_put_def fun_eq_iff map_option_case intro!: bpf_state.equality split: option.splits)

lemma prog_allows_bump [simp]: "prog_allows (bump s rl) ctx h = prog_allows s ctx h"
  by (auto simp: prog_allows_def bump_def split: option.splits)

lemma bump_att [simp]: "bs_att (bump s rl) = bs_att s"
  by (simp add: bump_def)

text \<open>The programs a check runs, in order: those attached to the task's cgroup, then to its parent and
  so on, at most \<open>BPF_MAX_PROGS\<close>.\<close>

definition chain_progs :: "bpf_state \<Rightarrow> nat list \<Rightarrow> nat list" where
  "chain_progs s chain = take BPF_MAX_PROGS (concat (map (\<lambda>cg. map snd (filter (\<lambda>(c, h). c = cg) (bs_att s))) chain))"

lemma collect_att_bump:
  assumes "\<forall>x \<in> set att. bs_heap s (snd x) \<noteq> None" and "length rl \<le> BPF_MAX_PROGS"
  shows "collect_att cg att (bump s rl, rl) =
    (let rl' = take BPF_MAX_PROGS (rl @ map snd (filter (\<lambda>(c, h). c = cg) att)) in (bump s rl', rl'))"
  using assms
proof (induction att arbitrary: rl)
  case (Cons x att)
  obtain c h where x: "x = (c, h)" by force
  have live: "bs_heap s h \<noteq> None" using Cons.prems(1) x by simp
  show ?case
    using Cons.IH [of "rl @ [h]"] Cons.IH [of rl] Cons.prems ref_get_bump [OF live, of rl]
    by (auto simp: x Let_def not_less)
qed simp

lemma devcg_collect_eq:
  assumes "\<forall>x \<in> set (bs_att s). bs_heap s (snd x) \<noteq> None"
  shows "devcg_collect s chain = (bump s (chain_progs s chain), chain_progs s chain)"
proof -
  let ?f = "\<lambda>cg. map snd (filter (\<lambda>(c, h). c = cg) (bs_att s))"
  have "fold (\<lambda>cg (t, rl). collect_att cg (bs_att s) (t, rl)) chain (bump s rl, rl) =
      (let rl' = take BPF_MAX_PROGS (rl @ concat (map ?f chain)) in (bump s rl', rl'))"
    if "length rl \<le> BPF_MAX_PROGS" for rl
    using that
  proof (induction chain arbitrary: rl)
    case (Cons cg chain)
    let ?r = "take BPF_MAX_PROGS (rl @ ?f cg)"
    have "collect_att cg (bs_att s) (bump s rl, rl) = (bump s ?r, ?r)"
      using collect_att_bump [OF assms Cons.prems] by (simp add: Let_def)
    moreover have "take BPF_MAX_PROGS (?r @ concat (map ?f chain)) = take BPF_MAX_PROGS (rl @ ?f cg @ concat (map ?f chain))"
      using Cons.prems by (cases "length (rl @ ?f cg) \<le> BPF_MAX_PROGS") (auto simp: min_def)
    ultimately show ?case using Cons.IH [of ?r] by (simp add: Let_def)
  qed simp
  from this [of "[]"] show ?thesis by (simp add: devcg_collect_def chain_progs_def Let_def)
qed

lemma devcg_finish_eq:
  assumes "\<And>h. h \<in> set rl \<Longrightarrow> \<exists>p b. bs_heap s h = Some p \<and> 0 < bp_refs p \<and> prog_allows s ctx h = Some b"
  shows "devcg_finish ctx ok rl (bump s rl) = Some (ok \<and> (\<forall>h \<in> set rl. prog_allows s ctx h = Some True), s)"
  using assms
proof (induction rl arbitrary: ok)
  case (Cons h rl)
  obtain p b where p: "bs_heap s h = Some p" "0 < bp_refs p" "prog_allows s ctx h = Some b"
    using Cons.prems [of h] by auto
  show ?case
    using Cons.IH [of "if ok then b else False"] Cons.prems p put_bump [OF p(1,2), of rl] by auto
qed simp

lemma live_allows:
  assumes "bpf_inv s fl" and "h \<in># refs_of s + mset fl"
  shows "\<exists>p b. bs_heap s h = Some p \<and> 0 < bp_refs p \<and> prog_allows s ctx h = Some b"
proof -
  obtain p where p: "bs_heap s h = Some p" using heap_live [OF assms] by blast
  then have "verify (bp_ins p) = None" "length (bp_ins p) \<le> BPF_MAXI" "bp_refs p = int (count (refs_of s + mset fl) h)"
    using assms(1) by (auto simp: bpf_inv_def live_ok_def)
  moreover have "0 < count (refs_of s + mset fl) h" using assms(2) by (metis count_greater_zero_iff)
  moreover obtain b where "bpf_run (bp_ins p) ctx (length ctx) = Some (Done b)"
    using bpf_run_verified calculation(1,2) by blast
  moreover have "0 < bp_refs p" using calculation(3,4) by (metis of_nat_0_less_iff)
  ultimately show ?thesis using p by (simp add: prog_allows_def)
qed

section \<open>The programs of the self test\<close>

definition mk_insn :: "u8 \<Rightarrow> u8 \<Rightarrow> u16 \<Rightarrow> u32 \<Rightarrow> insn" where
  "mk_insn c r off im = \<lparr>i_code = c, i_regs = r, i_off = off, i_imm = im\<rparr>"

definition bpf_allow_null :: "insn list" where
  "bpf_allow_null =
     [mk_insn 0x61 0x12 0 0, mk_insn 0x54 0x02 0 0xffff, mk_insn 0x61 0x13 4 0, mk_insn 0x61 0x14 8 0,
      mk_insn 0x55 0x02 4 2, mk_insn 0x55 0x03 3 1, mk_insn 0x55 0x04 2 3, mk_insn 0xb7 0x00 0 1,
      mk_insn 0x95 0x00 0 0, mk_insn 0xb7 0x00 0 0, mk_insn 0x95 0x00 0 0]"

definition bpf_backward :: "insn list" where
  "bpf_backward = [mk_insn 0x05 0 (-1) 0, mk_insn 0x95 0 0 0]"

definition bpf_call :: "insn list" where
  "bpf_call = [mk_insn 0x85 0 0 1, mk_insn 0x95 0 0 0]"

definition bpf_wild :: "insn list" where
  "bpf_wild = [mk_insn 0x61 0x12 64 0, mk_insn 0xb7 0 0 1, mk_insn 0x95 0 0 0]"

lemma allow_null_verified: "verify bpf_allow_null = None"
  by code_simp

lemma le_bytes_word: "ucast (le_bytes v ! 0) OR push_bit 8 (ucast (le_bytes v ! 1)) OR
   push_bit 16 (ucast (le_bytes v ! 2)) OR push_bit 24 (ucast (le_bytes v ! 3)) = (ucast v :: u64)"
proof (rule bit_word_eqI)
  fix n
  have le: "bit v n \<Longrightarrow> n < 32" using bit_imp_le_length [of v n] by simp
  consider "n < 8" | "8 \<le> n" "n < 16" | "16 \<le> n" "n < 24" | "24 \<le> n" by linarith
  then show "bit (ucast (le_bytes v ! 0) OR push_bit 8 (ucast (le_bytes v ! 1)) OR
     push_bit 16 (ucast (le_bytes v ! 2)) OR push_bit 24 (ucast (le_bytes v ! 3)) :: u64) n = bit (ucast v :: u64) n"
    if "n < LENGTH(64)"
    by cases (use that le in \<open>auto simp: le_bytes_def bit_simps upt_rec\<close>)
qed

lemma length_le_bytes [simp]: "length (le_bytes v) = 4"
  by (simp add: le_bytes_def)

lemma length_devcg_ctx [simp]: "length (devcg_ctx c ma mi ac) = 12"
  by (simp add: devcg_ctx_def)

lemma upt_4: "[0..<4] = [0, 1, 2, 3 :: nat]"
  by code_simp

text \<open>The three 32-bit fields of the context, as a program loads them.\<close>

lemma ctx_load_fields:
  "ctx_load (devcg_ctx c ma mi ac) 0 4 = ucast (push_bit 16 ac OR (if c then 2 else 1) :: u32)"
  "ctx_load (devcg_ctx c ma mi ac) 4 4 = ucast ma"
  "ctx_load (devcg_ctx c ma mi ac) 8 4 = ucast mi"
  using le_bytes_word [of "push_bit 16 ac OR (if c then 2 else 1)"] le_bytes_word [of ma] le_bytes_word [of mi]
  by (simp_all add: ctx_load_def devcg_ctx_def upt_4 nth_append or.assoc)

lemmas null_step_simps = bpf_step_def bpf_allow_null_def mk_insn_def insn_dst_def insn_src_def reg_get_def
  ldx_size_def reg_set_def ctx_load_fields src_operand_def alu_value_def cmp_true_def

text \<open>The eleven instructions of the null-device program, one by one.\<close>

lemma low_half: "take_bit 32 (ucast (w :: u32) AND 0xffff) = (ucast w AND 0xffff :: u64)"
  by (rule bit_word_eqI) (auto simp: bit_simps dest: bit_imp_le_length)

lemma allow_null_steps:
  fixes c ma mi ac
  defines "stp \<equiv> bpf_step bpf_allow_null (devcg_ctx c ma mi ac) 12"
  shows "stp 0 [0, CTX_TAG, 0, 0, 0, 0, 0, 0, 0, 0, 0] =
      Next 1 [0, CTX_TAG, ucast (push_bit 16 ac OR (if c then 2 else 1) :: u32), 0, 0, 0, 0, 0, 0, 0, 0]"
    and "stp 2 [0, CTX_TAG, x, 0, 0, 0, 0, 0, 0, 0, 0] = Next 3 [0, CTX_TAG, x, ucast ma, 0, 0, 0, 0, 0, 0, 0]"
    and "stp 3 [0, CTX_TAG, x, y, 0, 0, 0, 0, 0, 0, 0] = Next 4 [0, CTX_TAG, x, y, ucast mi, 0, 0, 0, 0, 0, 0]"
    and "stp 4 [0, CTX_TAG, x, y, z, 0, 0, 0, 0, 0, 0] = Next (if x = 2 then 5 else 9) [0, CTX_TAG, x, y, z, 0, 0, 0, 0, 0, 0]"
    and "stp 5 [0, CTX_TAG, x, y, z, 0, 0, 0, 0, 0, 0] = Next (if y = 1 then 6 else 9) [0, CTX_TAG, x, y, z, 0, 0, 0, 0, 0, 0]"
    and "stp 6 [0, CTX_TAG, x, y, z, 0, 0, 0, 0, 0, 0] = Next (if z = 3 then 7 else 9) [0, CTX_TAG, x, y, z, 0, 0, 0, 0, 0, 0]"
    and "stp 7 [0, CTX_TAG, x, y, z, 0, 0, 0, 0, 0, 0] = Next 8 [1, CTX_TAG, x, y, z, 0, 0, 0, 0, 0, 0]"
    and "stp 8 [1, CTX_TAG, x, y, z, 0, 0, 0, 0, 0, 0] = Done True"
    and "stp 9 [0, CTX_TAG, x, y, z, 0, 0, 0, 0, 0, 0] = Next 10 [0, CTX_TAG, x, y, z, 0, 0, 0, 0, 0, 0]"
    and "stp 10 [0, CTX_TAG, x, y, z, 0, 0, 0, 0, 0, 0] = Done False"
  by (simp_all add: stp_def null_step_simps)

lemma allow_null_step_mask:
  "bpf_step bpf_allow_null (devcg_ctx c ma mi ac) 12 1 [0, CTX_TAG, ucast (w :: u32), 0, 0, 0, 0, 0, 0, 0, 0] =
     Next 2 [0, CTX_TAG, ucast w AND 0xffff, 0, 0, 0, 0, 0, 0, 0, 0]"
proof -
  have "take_bit 32 (ucast w) AND take_bit 32 0xffff = (ucast w AND 0xffff :: u64)"
    by (rule bit_word_eqI) (auto simp: bit_simps dest: bit_imp_le_length)
  then show ?thesis using low_half [of w] by (simp add: null_step_simps)
qed

lemma device_type_bits: "(ucast (push_bit 16 ac OR (if c then 2 else 1) :: u32) AND 0xffff = (2 :: u64)) = c"
proof -
  have "ucast (push_bit 16 (ac :: u32) OR w :: u32) AND 0xffff = (ucast w :: u64)" if "w = 1 \<or> w = 2" for w :: u32
  proof (rule bit_word_eqI)
    have m: "(0xffff :: u64) = mask 16" by (simp add: mask_eq_exp_minus_1)
    fix n assume "n < LENGTH(64)"
    show "bit (ucast (push_bit 16 ac OR w :: u32) AND 0xffff :: u64) n = bit (ucast w :: u64) n"
      using that unfolding m by (auto simp: bit_simps bit_1_iff bit_numeral_rec split: nat.splits)
  qed
  then show ?thesis by auto
qed

lemma ucast_small: "(ucast (v :: u32) = (1 :: u64)) = (v = 1)" "(ucast (v :: u32) = (3 :: u64)) = (v = 3)"
proof -
  have "uint (ucast v :: u64) = uint v" by (rule uint_up_ucast) (simp add: is_up)
  then show "(ucast (v :: u32) = (1 :: u64)) = (v = 1)" "(ucast (v :: u32) = (3 :: u64)) = (v = 3)"
    by (auto simp: word_uint_eq_iff)
qed

lemma allow_null_run:
  "bpf_run bpf_allow_null (devcg_ctx c ma mi ac) 12 = Some (Done (c \<and> ma = 1 \<and> mi = 3))"
proof -
  have r0: "(replicate 11 0)[1 := CTX_TAG] = [0, CTX_TAG, 0, 0, 0, 0, 0, 0, 0, 0, 0]" by code_simp
  show ?thesis
    unfolding bpf_run_def r0
    by (simp add: bpf_run_loop.simps allow_null_steps allow_null_step_mask device_type_bits ucast_small)
qed

section \<open>A small system\<close>

text \<open>The null-device program, loaded through descriptor 3 and attached to cgroup 1, which descriptor 4
  names.\<close>

definition demo_bpf_env :: bpf_env where
  "demo_bpf_env = \<lparr>be_kmalloc = True, be_kcalloc = True,
     be_copy_in = (\<lambda>u n. if n = length bpf_allow_null then Some bpf_allow_null else None), be_ofile = True,
     be_newfd = 3, be_copy_out = True, be_cg = (\<lambda>fd. if fd = 4 then 1 else 0)\<rparr>"

definition demo_load_attr :: "u8 list" where
  "demo_load_attr = le_bytes 15 @ le_bytes 11"

definition demo_attach_attr :: "u8 list" where
  "demo_attach_attr = le_bytes 4 @ le_bytes 3 @ le_bytes 6"

definition demo_bad_attr :: "u8 list" where
  "demo_bad_attr = le_bytes 4 @ le_bytes 77 @ le_bytes 6"

definition demo_loaded :: bpf_state where
  "demo_loaded = fst (snd (bpf_syscall demo_bpf_env bpf_init 5 demo_load_attr 64))"

definition demo_attached :: bpf_state where
  "demo_attached = fst (snd (bpf_syscall demo_bpf_env demo_loaded 8 demo_attach_attr 64))"

lemma reach_syscall:
  assumes "bpf_reach s fl" and "\<And>u n ins. be_copy_in env u n = Some ins \<Longrightarrow> length ins = n"
  shows "bpf_reach (fst (snd (bpf_syscall env s cmd a sz))) fl"
proof -
  obtain r s' a' out where "bpf_syscall env s cmd a sz = (r, s', a', out)" by (metis prod_cases4)
  then show ?thesis using reach_evt [OF assms(1) evt_syscall [OF _ assms(2)]] by simp
qed

lemma demo_reach: "bpf_reach demo_attached []"
  unfolding demo_attached_def demo_loaded_def
  by (intro reach_syscall reach_init) (auto simp: demo_bpf_env_def split: if_splits)

section \<open>Theorems\<close>

text \<open>C3: a program the verifier accepts, of at most \<open>BPF_MAXI\<close> instructions, runs to a verdict on every
  context: it never touches memory outside the registers, its own instructions and the context, and
  it ends within as many steps as it has instructions.\<close>

theorem bpf_verified_safe:
  assumes "verify ins = None" and "length ins \<le> BPF_MAXI" and "ctxlen \<le> length ctx"
  shows "\<exists>b. bpf_run ins ctx ctxlen = Some (Done b) \<and>
    bpf_run_fuel (Suc (length ins)) ins ctx ctxlen 0 ((replicate 11 0)[1 := CTX_TAG]) = Some (Done b)"
proof -
  obtain b where b: "bpf_run_fuel (Suc (length ins)) ins ctx ctxlen 0 ((replicate 11 0)[1 := CTX_TAG]) = Some (Done b)"
    using bpf_run_fuel_verified [of ins 0 "(replicate 11 0)[1 := CTX_TAG]" ctxlen ctx "Suc (length ins)"] assms
    by (auto simp: verify_def simp del: bpf_run_fuel.simps)
  then show ?thesis using bpf_run_loop_fuel [OF b] by (simp add: bpf_run_def)
qed

theorem bpf_verified_safe_witness:
  "\<exists>b. bpf_run bpf_allow_null (devcg_ctx True 1 3 6) 12 = Some (Done b) \<and>
    bpf_run_fuel 12 bpf_allow_null (devcg_ctx True 1 3 6) 12 0 ((replicate 11 0)[1 := CTX_TAG]) = Some (Done b)"
proof -
  have n: "length bpf_allow_null = 11" by code_simp
  show ?thesis
    using bpf_verified_safe [OF allow_null_verified, of 12 "devcg_ctx True 1 3 6"]
    by (simp add: n bpf_consts del: bpf_run_fuel.simps)
qed



text \<open>C9: the device check returns, leaves every reference count as it was, and allows the access exactly
  when every program attached to the task's cgroup or one of its ancestors does.  (It looks at most
  at the first \<open>BPF_MAX_PROGS\<close> of them.)\<close>

theorem bpf_devcg_allowed_correct:
  assumes "bpf_reach s fl" and "cg_chain parent node = Some chain"
  shows "bpf_devcg_allowed parent node s chr ma mi ac =
    Some (\<forall>h \<in> set (chain_progs s chain). prog_allows s (devcg_ctx chr ma mi ac) h = Some True, s)"
proof -
  have i: "bpf_inv s fl" using bpf_reach_inv [OF assms(1)] .
  have att: "h \<in># refs_of s + mset fl" if "(c, h) \<in> set (bs_att s)" for c h
    using that by (auto simp: refs_of_def intro: rev_image_eqI)
  then have live: "\<forall>x \<in> set (bs_att s). bs_heap s (snd x) \<noteq> None"
    using heap_live [OF i] by (metis prod.collapse)
  have "h \<in># refs_of s + mset fl" if m: "h \<in> set (chain_progs s chain)" for h
  proof -
    obtain c where "(c, h) \<in> set (bs_att s)" using m by (auto simp: chain_progs_def dest!: in_set_takeD)
    then show ?thesis by (rule att)
  qed
  then show ?thesis
    using devcg_finish_eq [of "chain_progs s chain" s "devcg_ctx chr ma mi ac" True] live_allows [OF i]
    by (simp add: bpf_devcg_allowed_def assms(2) devcg_collect_eq [OF live])
qed

theorem bpf_devcg_allowed_correct_witness:
  "bpf_devcg_allowed (\<lambda>c. 0) 1 demo_attached True 1 3 6 = Some (True, demo_attached) \<and>
   bpf_devcg_allowed (\<lambda>c. 0) 1 demo_attached True 1 5 2 = Some (False, demo_attached)"
proof -
  have c: "cg_chain (\<lambda>c. 0) 1 = Some [1]" by (simp add: cg_chain.simps)
  have h: "chain_progs demo_attached [1] = [0]" "map_option bp_ins (bs_heap demo_attached 0) = Some bpf_allow_null"
    by code_simp+
  have "prog_allows demo_attached (devcg_ctx True 1 mi ac) 0 = Some (mi = 3)" for mi ac
    using h(2) allow_null_run [of True 1 mi ac] by (auto simp: prog_allows_def)
  then show ?thesis
    using bpf_devcg_allowed_correct [OF demo_reach c] unfolding h(1) by simp
qed




end
