(* ===== verification/Vma.thy ===== *)
theory Vma
  imports Dos_Prelude
begin

text \<open>
  Address-space reservations, \<open>kernel/mem/vma.c\<close>, on a 64-bit machine: the sorted list of ranges of
  one address space and the system calls over it.  The singly linked list of the source is a list
  here (every operation holds the set's mutex from its first to its last access).  Page tables are
  flattened to one entry per page (\<open>mm_pte\<close>) and a predicate for pages whose tables belong to the
  kernel (\<open>mm_kern\<close>), with the entry operations of \<open>kernel/hal/x86_64/vmm.c\<close>.  Page contents and
  translation-cache maintenance are not represented; frames given back to the frame allocator are
  logged in \<open>mm_freed\<close>.
\<close>

section \<open>Constants and state\<close>

definition PG :: u64 where "PG = 4096"
definition MMAP_BASE_OFF :: u64 where "MMAP_BASE_OFF = 0x08000000"
definition EAGER_MAX :: u64 where "EAGER_MAX = 0x10000000"
definition VMM_WRITABLE :: u32 where "VMM_WRITABLE = 0x002"
definition VMM_USER :: u32 where "VMM_USER = 0x004"
definition VMM_EXEC :: u32 where "VMM_EXEC = 0x200"
definition VMM_SHARED :: u32 where "VMM_SHARED = 0x400"
definition VMM_COW :: u32 where "VMM_COW = 0x800"
definition VMA_PROT_READ :: u32 where "VMA_PROT_READ = 1"
definition VMA_PROT_WRITE :: u32 where "VMA_PROT_WRITE = 2"
definition VMA_PROT_EXEC :: u32 where "VMA_PROT_EXEC = 4"
definition VMA_MAP_SHARED :: u32 where "VMA_MAP_SHARED = 0x01"
definition VMA_MAP_PRIVATE :: u32 where "VMA_MAP_PRIVATE = 0x02"
definition VMA_MAP_FIXED :: u32 where "VMA_MAP_FIXED = 0x10"
definition VMA_MAP_ANONYMOUS :: u32 where "VMA_MAP_ANONYMOUS = 0x20"
definition VMA_MAP_FIXED_NOREPLACE :: u32 where "VMA_MAP_FIXED_NOREPLACE = 0x100000"

lemmas vma_consts = PG_def MMAP_BASE_OFF_def EAGER_MAX_def VMM_WRITABLE_def VMM_USER_def VMM_EXEC_def
  VMM_SHARED_def VMM_COW_def VMA_PROT_READ_def VMA_PROT_WRITE_def VMA_PROT_EXEC_def VMA_MAP_SHARED_def
  VMA_MAP_PRIVATE_def VMA_MAP_FIXED_def VMA_MAP_ANONYMOUS_def VMA_MAP_FIXED_NOREPLACE_def

definition vmm_user_base :: u64 where "vmm_user_base = 0x40000000"
definition vmm_user_min :: u64 where "vmm_user_min = vmm_user_base"
definition vmm_user_limit :: u64 where "vmm_user_limit = push_bit 39 1"

datatype vma_kind = VMA_ANON | VMA_FILE | VMA_EAGER

record vma =
  v_start :: u64
  v_end :: u64
  v_vf :: u32
  v_kind :: vma_kind
  v_file :: nat
  v_off :: u64

record vma_set =
  vs_list :: "vma list"
  vs_faults :: u32
  vs_brk_start :: u64
  vs_brk_cur :: u64

text \<open>A page-table entry: present with its frame and flags, or evicted to a swap slot.\<close>

datatype pte = Present u64 u32 | Evicted u64

record mm =
  mm_pte :: "u64 \<Rightarrow> pte option"
  mm_kern :: "u64 \<Rightarrow> bool"
  mm_cow :: "u64 \<Rightarrow> u16"
  mm_freed :: "u64 list"

text \<open>What \<open>fd_lookup\<close> finds: a shared-memory object with its frames, a file, or something that cannot
  be mapped.\<close>

datatype map_target = FdShm "u64 list" | FdVfs nat | FdOther

text \<open>The answers of other components during one call: whether each \<open>kcalloc\<close> of the call succeeds (the
  two splits, the new range and the bounce page of a file copy), the descriptor table, whether the page cache is on, whether a page
  table can be extended for a page, the frames the allocator hands out for successive requests
  (0 none), and the page cache's frame for a page of a file.\<close>

record vma_env =
  ve_split1 :: bool
  ve_split2 :: bool
  ve_new :: bool
  ve_bounce :: bool
  ve_fd :: "int \<Rightarrow> map_target option"
  ve_pcache :: bool
  ve_table :: "u64 \<Rightarrow> bool"
  ve_frame :: "nat \<Rightarrow> u64"
  ve_pcache_frame :: "nat \<Rightarrow> u64 \<Rightarrow> u64 option"

definition prot_to_vf :: "u32 \<Rightarrow> u32" where
  "prot_to_vf prot =
     (if prot AND (VMA_PROT_READ OR VMA_PROT_WRITE OR VMA_PROT_EXEC) = 0 then 0
      else VMM_USER OR (if prot AND VMA_PROT_WRITE \<noteq> 0 then VMM_WRITABLE else 0)
             OR (if prot AND VMA_PROT_EXEC \<noteq> 0 then VMM_EXEC else 0))"

section \<open>The list\<close>

fun vfind :: "vma list \<Rightarrow> u64 \<Rightarrow> vma option" where
  "vfind [] va = None"
| "vfind (v # vs) va =
     (if v_start v \<le> va then (if va < v_end v then Some v else vfind vs va) else None)"

fun overlaps :: "vma list \<Rightarrow> u64 \<Rightarrow> u64 \<Rightarrow> bool" where
  "overlaps [] a b = False"
| "overlaps (v # vs) a b = (v_start v < b \<and> (v_end v > a \<or> overlaps vs a b))"

fun vinsert :: "vma \<Rightarrow> vma list \<Rightarrow> vma list" where
  "vinsert n [] = [n]"
| "vinsert n (v # vs) = (if v_start v < v_start n then v # vinsert n vs else n # v # vs)"

text \<open>The two halves of a range cut at \<open>at\<close>, in place of the range.\<close>

fun split_list :: "vma \<Rightarrow> u64 \<Rightarrow> vma list \<Rightarrow> vma list" where
  "split_list v at [] = []"
| "split_list v at (w # ws) =
     (if w = v then v\<lparr>v_end := at\<rparr> # v\<lparr>v_start := at, v_off := v_off v + (at - v_start v)\<rparr> # ws
      else w # split_list v at ws)"

definition split_at :: "bool \<Rightarrow> vma list \<Rightarrow> u64 \<Rightarrow> vma list option" where
  "split_at ok vs at =
     (case vfind vs at of
        None \<Rightarrow> Some vs
      | Some v \<Rightarrow> if v_start v = at then Some vs else if ok then Some (split_list v at vs) else None)"

fun vmerge :: "vma list \<Rightarrow> vma list" where
  "vmerge (v # n # vs) =
     (if v_kind v = VMA_ANON \<and> v_kind n = VMA_ANON \<and> v_end v = v_start n \<and> v_vf v = v_vf n
      then vmerge (v\<lparr>v_end := v_end n\<rparr> # vs) else v # vmerge (n # vs))"
| "vmerge vs = vs"

definition remove_range :: "vma list \<Rightarrow> u64 \<Rightarrow> u64 \<Rightarrow> vma list" where
  "remove_range vs a b = filter (\<lambda>v. \<not> (v_start v \<ge> a \<and> v_end v \<le> b)) vs"

section \<open>Page-table entries\<close>

definition vmm_space_probe :: "mm \<Rightarrow> u64 \<Rightarrow> nat" where
  "vmm_space_probe m va =
     (case mm_pte m va of None \<Rightarrow> 0 | Some (Present f fl) \<Rightarrow> 1 | Some (Evicted sl) \<Rightarrow> 2)"

definition vmm_space_map :: "vma_env \<Rightarrow> mm \<Rightarrow> u64 \<Rightarrow> u64 \<Rightarrow> u32 \<Rightarrow> mm option" where
  "vmm_space_map env m va phys flags =
     (if flags AND VMM_USER \<noteq> 0 \<and> mm_kern m va then None
      else if \<not> ve_table env va then None
      else let fl = (if flags AND VMM_COW \<noteq> 0 then flags AND NOT VMM_WRITABLE else flags)
           in Some (m\<lparr>mm_pte := (mm_pte m)(va \<mapsto> Present phys fl)\<rparr>))"

definition cow_ref_drop :: "mm \<Rightarrow> u64 \<Rightarrow> bool \<times> mm" where
  "cow_ref_drop m f =
     (if mm_cow m f \<le> 1 then (True, m\<lparr>mm_cow := (mm_cow m)(f := 0)\<rparr>)
      else (False, m\<lparr>mm_cow := (mm_cow m)(f := mm_cow m f - 1)\<rparr>))"

definition release_frame :: "mm \<Rightarrow> u64 \<Rightarrow> mm" where
  "release_frame m f = m\<lparr>mm_freed := f # mm_freed m\<rparr>"

definition vmm_space_unmap :: "mm \<Rightarrow> u64 \<Rightarrow> mm" where
  "vmm_space_unmap m va =
     (case mm_pte m va of
        None \<Rightarrow> m
      | Some (Evicted sl) \<Rightarrow> m\<lparr>mm_pte := (mm_pte m)(va := None)\<rparr>
      | Some (Present f fl) \<Rightarrow>
          if fl AND VMM_USER = 0 then m
          else let m1 = m\<lparr>mm_pte := (mm_pte m)(va := None)\<rparr>
               in if fl AND VMM_SHARED \<noteq> 0 then m1
                  else if fl AND VMM_COW \<noteq> 0
                    then (case cow_ref_drop m1 f of (lst, m2) \<Rightarrow> if lst then release_frame m2 f else m2)
                  else release_frame m1 f)"

definition vmm_space_protect :: "mm \<Rightarrow> u64 \<Rightarrow> u32 \<Rightarrow> mm" where
  "vmm_space_protect m va flags =
     (case mm_pte m va of
        Some (Present f fl) \<Rightarrow>
          let fs = (if fl AND VMM_COW \<noteq> 0 then flags AND NOT VMM_WRITABLE else flags)
          in m\<lparr>mm_pte := (mm_pte m)(va \<mapsto> Present f
                 ((fs AND (VMM_WRITABLE OR VMM_USER OR VMM_EXEC)) OR (fl AND (VMM_SHARED OR VMM_COW))))\<rparr>
      | _ \<Rightarrow> m)"

text \<open>The page addresses a loop \<open>for (va = a; va < b; va += PG)\<close> visits.\<close>

definition page_list :: "u64 \<Rightarrow> u64 \<Rightarrow> u64 list" where
  "page_list a b = (if a < b then map (\<lambda>i. a + of_nat i * PG) [0..<(unat (b - a) + 4095) div 4096] else [])"

datatype range_state = RS_EMPTY | RS_USER | RS_KERNEL

definition vmm_space_range_state :: "mm \<Rightarrow> u64 \<Rightarrow> u64 \<Rightarrow> range_state" where
  "vmm_space_range_state m a b =
     (if list_ex (mm_kern m) (page_list a b) then RS_KERNEL
      else if list_ex (\<lambda>va. mm_pte m va \<noteq> None) (page_list a b) then RS_USER else RS_EMPTY)"

definition unmap_page :: "u64 \<Rightarrow> mm \<Rightarrow> mm" where
  "unmap_page va m =
     (let p = vmm_space_probe m va;
          m1 = (if p = 1 then vmm_space_protect m va VMM_USER else m)
      in if p \<noteq> 0 then vmm_space_unmap m1 va else m1)"

definition unmap_pages :: "mm \<Rightarrow> u64 \<Rightarrow> u64 \<Rightarrow> mm" where
  "unmap_pages m a b = fold unmap_page (page_list a b) m"

section \<open>Finding a free range\<close>

definition window_lo :: u64 where "window_lo = vmm_user_base + MMAP_BASE_OFF"

definition usable :: "vma list \<Rightarrow> mm \<Rightarrow> u64 \<Rightarrow> u64 \<Rightarrow> bool" where
  "usable vs m a len =
     (if a < window_lo \<or> a + len < a \<or> a + len > vmm_user_limit then False
      else if overlaps vs a (a + len) then False
      else vmm_space_range_state m a (a + len) = RS_EMPTY)"

fun blocker :: "vma list \<Rightarrow> u64 \<Rightarrow> u64 \<Rightarrow> vma option" where
  "blocker [] cand top_end = None"
| "blocker (v # vs) cand top_end =
     (if v_start v < top_end then (if v_end v > cand then Some v else blocker vs cand top_end) else None)"

definition STEP :: u64 where "STEP = 0x200000"

partial_function (option) find_free_loop :: "vma list \<Rightarrow> mm \<Rightarrow> u64 \<Rightarrow> u64 \<Rightarrow> u64 option" where
  "find_free_loop vs m len cand =
     (if cand + len > cand \<and> cand + len \<le> vmm_user_limit then
        (case blocker vs cand (cand + len) of
           Some v \<Rightarrow> find_free_loop vs m len (v_end v)
         | None \<Rightarrow>
             if vmm_space_range_state m cand (cand + len) = RS_EMPTY then Some cand
             else find_free_loop vs m len ((cand + STEP) AND NOT (STEP - 1)))
      else Some 0)"

definition find_free :: "vma list \<Rightarrow> mm \<Rightarrow> u64 \<Rightarrow> u64 \<Rightarrow> u64 option" where
  "find_free vs m len hint =
     (if hint \<noteq> 0 \<and> hint AND (PG - 1) = 0 \<and> usable vs m hint len then Some hint
      else find_free_loop vs m len window_lo)"

section \<open>Eager backings\<close>

fun map_shm :: "vma_env \<Rightarrow> mm \<Rightarrow> u64 \<Rightarrow> u64 list \<Rightarrow> u32 \<Rightarrow> bool \<times> mm" where
  "map_shm env m va [] vf = (True, m)"
| "map_shm env m va (f # fs) vf =
     (case vmm_space_map env m va f ((if vf \<noteq> 0 then vf else VMM_USER) OR VMM_WRITABLE OR VMM_SHARED) of
        None \<Rightarrow> (False, m)
      | Some m' \<Rightarrow> map_shm env m' (va + PG) fs vf)"

fun map_file_copy :: "vma_env \<Rightarrow> mm \<Rightarrow> u64 \<Rightarrow> nat \<Rightarrow> nat \<Rightarrow> u32 \<Rightarrow> bool \<times> mm" where
  "map_file_copy env m va i 0 vf = (True, m)"
| "map_file_copy env m va i (Suc n) vf =
     (let fr = ve_frame env i
      in if fr = 0 then (False, m)
         else (case vmm_space_map env m va fr (if vf \<noteq> 0 then vf else VMM_USER) of
                 None \<Rightarrow> (False, release_frame m fr)
               | Some m' \<Rightarrow>
                   map_file_copy env (if vf = 0 then vmm_space_protect m' va 0 else m') (va + PG) (Suc i) n vf))"

section \<open>The system calls\<close>

definition round_up :: "u64 \<Rightarrow> u64" where
  "round_up x = (x + PG - 1) AND NOT (PG - 1)"

text \<open>What backs a mapping: the errno of a refusal, or the kind and the target.\<close>

definition mmap_backing :: "vma_env \<Rightarrow> u32 \<Rightarrow> u32 \<Rightarrow> int \<Rightarrow> u64 \<Rightarrow> int + (vma_kind \<times> map_target)" where
  "mmap_backing env vf flags fd off =
     (if flags AND VMA_MAP_ANONYMOUS = 0 \<and> fd \<ge> 0 then
        (case ve_fd env fd of
           None \<Rightarrow> Inl EBADF
         | Some tgt \<Rightarrow>
             if off AND (PG - 1) \<noteq> 0 then Inl EINVAL
             else (case tgt of
                     FdShm fs \<Rightarrow> Inr (VMA_EAGER, tgt)
                   | FdVfs f \<Rightarrow>
                       (let ro_shared = (flags AND VMA_MAP_SHARED \<noteq> 0 \<and> vf AND VMM_WRITABLE = 0)
                        in Inr (if (flags AND VMA_MAP_SHARED = 0 \<or> ro_shared) \<and> ve_pcache env
                                then VMA_FILE else VMA_EAGER, tgt))
                   | FdOther \<Rightarrow> Inl ENODEV))
      else Inr (VMA_ANON, FdOther))"

text \<open>Where the mapping goes: the errno of a refusal and the list it leaves (a first split stays when the
  second fails), or the address and the list and pages with the target range cleared.\<close>

definition mmap_place ::
    "vma_env \<Rightarrow> vma list \<Rightarrow> mm \<Rightarrow> u64 \<Rightarrow> u64 \<Rightarrow> u32 \<Rightarrow> (int \<times> vma list + u64 \<times> vma list \<times> mm) option" where
  "mmap_place env vs m addr sz flags =
     (if flags AND (VMA_MAP_FIXED OR VMA_MAP_FIXED_NOREPLACE) \<noteq> 0 then
        (let st = (if addr < vmm_user_min \<or> addr + sz < addr \<or> addr + sz > vmm_user_limit then RS_KERNEL
                   else vmm_space_range_state m addr (addr + sz))
         in Some (if st = RS_KERNEL then Inl (EINVAL, vs)
                  else if flags AND VMA_MAP_FIXED_NOREPLACE \<noteq> 0 then
                    (if overlaps vs addr (addr + sz) \<or> st \<noteq> RS_EMPTY then Inl (EEXIST, vs)
                     else Inr (addr, vs, m))
                  else (case split_at (ve_split1 env) vs addr of
                          None \<Rightarrow> Inl (ENOMEM, vs)
                        | Some vs1 \<Rightarrow>
                            (case split_at (ve_split2 env) vs1 (addr + sz) of
                               None \<Rightarrow> Inl (ENOMEM, vs1)
                             | Some vs2 \<Rightarrow>
                                 Inr (addr, remove_range vs2 addr (addr + sz), unmap_pages m addr (addr + sz))))))
      else (case find_free vs m sz (addr AND NOT (PG - 1)) of
              None \<Rightarrow> None
            | Some va \<Rightarrow> Some (if va = 0 then Inl (ENOMEM, vs) else Inr (va, vs, m))))"

definition mmap_fill :: "vma_env \<Rightarrow> mm \<Rightarrow> u64 \<Rightarrow> u64 \<Rightarrow> vma_kind \<Rightarrow> map_target \<Rightarrow> u64 \<Rightarrow> u32 \<Rightarrow> bool \<times> mm" where
  "mmap_fill env m va sz kind tgt off vf =
     (if kind = VMA_EAGER then
        (case tgt of
           FdShm fs \<Rightarrow> map_shm env m va (take (unat (sz div PG)) (drop (unat (off div PG)) fs)) vf
         | _ \<Rightarrow> if ve_bounce env then map_file_copy env m va 0 (unat (sz div PG)) vf else (False, m))
      else (True, m))"

text \<open>\<open>None\<close> is a call that does not return; the result is an address or a negative errno.  A refused
  call keeps what the clearing of a fixed target already removed.\<close>

definition vma_mmap ::
    "vma_env \<Rightarrow> vma_set \<Rightarrow> mm \<Rightarrow> u64 \<Rightarrow> u64 \<Rightarrow> u32 \<Rightarrow> u32 \<Rightarrow> int \<Rightarrow> u64 \<Rightarrow> (int \<times> vma_set \<times> mm) option" where
  "vma_mmap env s m addr len prot flags fd off =
     (if len = 0 then Some (EINVAL, s, m)
      else let sz = round_up len; vf = prot_to_vf prot
           in if sz < len then Some (ENOMEM, s, m)
              else if flags AND (VMA_MAP_FIXED OR VMA_MAP_FIXED_NOREPLACE) \<noteq> 0 \<and> addr AND (PG - 1) \<noteq> 0
                then Some (EINVAL, s, m)
              else (case mmap_backing env vf flags fd off of
                      Inl e \<Rightarrow> Some (e, s, m)
                    | Inr (kind, tgt) \<Rightarrow>
                        if kind = VMA_EAGER \<and> sz > EAGER_MAX then Some (ENOMEM, s, m)
                        else (case mmap_place env (vs_list s) m addr sz flags of
                                None \<Rightarrow> None
                              | Some (Inl (e, vs)) \<Rightarrow> Some (e, s\<lparr>vs_list := vs\<rparr>, m)
                              | Some (Inr (va, vs, m1)) \<Rightarrow>
                                  if \<not> ve_new env then Some (ENOMEM, s\<lparr>vs_list := vs\<rparr>, m1)
                                  else let f = (case tgt of FdVfs f \<Rightarrow> (if kind = VMA_FILE then f else 0) | _ \<Rightarrow> 0);
                                           v = \<lparr>v_start = va, v_end = va + sz, v_vf = vf, v_kind = kind,
                                                v_file = f, v_off = off\<rparr>;
                                           vs2 = vinsert v vs
                                       in (case mmap_fill env m1 va sz kind tgt off vf of
                                             (True, m2) \<Rightarrow> Some (uint va, s\<lparr>vs_list := vmerge vs2\<rparr>, m2)
                                           | (False, m2) \<Rightarrow>
                                               Some (ENOMEM, s\<lparr>vs_list := remove_range vs2 va (va + sz)\<rparr>,
                                                     unmap_pages m2 va (va + sz))))))"

definition vma_munmap :: "vma_env \<Rightarrow> vma_set \<Rightarrow> mm \<Rightarrow> u64 \<Rightarrow> u64 \<Rightarrow> int \<times> vma_set \<times> mm" where
  "vma_munmap env s m addr len =
     (if addr AND (PG - 1) \<noteq> 0 \<or> len = 0 then (EINVAL, s, m)
      else let end = addr + round_up len
           in if end < addr \<or> addr < vmm_user_min \<or> end > vmm_user_limit then (EINVAL, s, m)
              else if vmm_space_range_state m addr end = RS_KERNEL then (EINVAL, s, m)
              else (case split_at (ve_split1 env) (vs_list s) addr of
                      None \<Rightarrow> (ENOMEM, s, m)
                    | Some vs1 \<Rightarrow>
                        (case split_at (ve_split2 env) vs1 end of
                           None \<Rightarrow> (ENOMEM, s\<lparr>vs_list := vs1\<rparr>, m)
                         | Some vs2 \<Rightarrow> (0, s\<lparr>vs_list := remove_range vs2 addr end\<rparr>, unmap_pages m addr end))))"

definition vprotect :: "vma list \<Rightarrow> u64 \<Rightarrow> u64 \<Rightarrow> u32 \<Rightarrow> vma list" where
  "vprotect vs a b vf = map (\<lambda>v. if v_start v \<ge> a \<and> v_end v \<le> b then v\<lparr>v_vf := vf\<rparr> else v) vs"

definition vma_mprotect :: "vma_env \<Rightarrow> vma_set \<Rightarrow> mm \<Rightarrow> u64 \<Rightarrow> u64 \<Rightarrow> u32 \<Rightarrow> int \<times> vma_set \<times> mm" where
  "vma_mprotect env s m addr len prot =
     (if addr AND (PG - 1) \<noteq> 0 then (EINVAL, s, m)
      else let end = round_up (addr + len); vf = prot_to_vf prot
           in if end < addr \<or> addr < vmm_user_min \<or> end > vmm_user_limit then (EINVAL, s, m)
              else if vmm_space_range_state m addr end = RS_KERNEL then (EINVAL, s, m)
              else (case split_at (ve_split1 env) (vs_list s) addr of
                      None \<Rightarrow> (ENOMEM, s, m)
                    | Some vs1 \<Rightarrow>
                        (case split_at (ve_split2 env) vs1 end of
                           None \<Rightarrow> (ENOMEM, s\<lparr>vs_list := vs1\<rparr>, m)
                         | Some vs2 \<Rightarrow>
                             (0, s\<lparr>vs_list := vmerge (vprotect vs2 addr end vf)\<rparr>,
                              fold (\<lambda>va m. vmm_space_protect m va vf) (page_list addr end) m))))"

fun dontneed :: "vma list \<Rightarrow> u64 \<Rightarrow> u64 \<Rightarrow> mm \<Rightarrow> mm" where
  "dontneed [] addr end m = m"
| "dontneed (v # vs) addr end m =
     (if v_start v < end then
        (if v_end v \<le> addr \<or> v_kind v = VMA_EAGER then dontneed vs addr end m
         else dontneed vs addr end
                (unmap_pages m (if v_start v > addr then v_start v else addr)
                   (if v_end v < end then v_end v else end)))
      else m)"

definition vma_madvise_dontneed :: "vma_set \<Rightarrow> mm \<Rightarrow> u64 \<Rightarrow> u64 \<Rightarrow> int \<times> mm" where
  "vma_madvise_dontneed s m addr len =
     (if addr AND (PG - 1) \<noteq> 0 then (EINVAL, m)
      else let end = addr + round_up len
           in if end < addr then (EINVAL, m) else (0, dontneed (vs_list s) addr end m))"

fun mincore_loop :: "vma list \<Rightarrow> mm \<Rightarrow> u64 \<Rightarrow> nat \<Rightarrow> int \<times> u8 list" where
  "mincore_loop vs m va 0 = (0, [])"
| "mincore_loop vs m va (Suc n) =
     (let p = vmm_space_probe m va
      in if p = 0 \<and> vfind vs va = None then (ENOMEM, [])
         else (case mincore_loop vs m (va + PG) n of (rc, vec) \<Rightarrow> (rc, (if p = 1 then 1 else 0) # vec)))"

definition vma_mincore :: "vma_set \<Rightarrow> mm \<Rightarrow> u64 \<Rightarrow> u64 \<Rightarrow> int \<times> u8 list" where
  "vma_mincore s m addr len =
     (if addr AND (PG - 1) \<noteq> 0 then (EINVAL, [])
      else mincore_loop (vs_list s) m addr (unat ((len + PG - 1) div PG)))"

definition vma_reserve_eager :: "vma_env \<Rightarrow> vma_set \<Rightarrow> mm \<Rightarrow> u64 \<Rightarrow> u32 \<Rightarrow> (u64 \<times> vma_set) option" where
  "vma_reserve_eager env s m npages prot =
     (if npages = 0 then Some (0, s)
      else (case find_free (vs_list s) m (npages * PG) 0 of
              None \<Rightarrow> None
            | Some va \<Rightarrow>
                Some (if va = 0 \<or> \<not> ve_new env then (0, s)
                      else (va, s\<lparr>vs_list := vinsert \<lparr>v_start = va, v_end = va + npages * PG,
                              v_vf = prot_to_vf prot, v_kind = VMA_EAGER, v_file = 0, v_off = 0\<rparr> (vs_list s)\<rparr>))))"

section \<open>Faults\<close>

definition fault_locked :: "vma_env \<Rightarrow> vma_set \<Rightarrow> mm \<Rightarrow> u64 \<Rightarrow> bool \<Rightarrow> bool \<times> vma_set \<times> mm" where
  "fault_locked env s m page is_write =
     (case vfind (vs_list s) page of
        None \<Rightarrow> (False, s, m)
      | Some v \<Rightarrow>
          if v_kind v = VMA_EAGER \<or> v_vf v AND VMM_USER = 0 then (False, s, m)
          else if is_write \<and> v_vf v AND VMM_WRITABLE = 0 then (False, s, m)
          else if vmm_space_probe m page = 1 then (True, s, m)
          else if vmm_space_probe m page \<noteq> 0 then (False, s, m)
          else if v_kind v = VMA_ANON then
            (let fr = ve_frame env 0
             in if fr = 0 then (False, s, m)
                else (case vmm_space_map env m page fr (v_vf v) of
                        None \<Rightarrow> (False, s, release_frame m fr)
                      | Some m' \<Rightarrow> (True, s\<lparr>vs_faults := vs_faults s + 1\<rparr>, m')))
          else
            (case ve_pcache_frame env (v_file v) ((v_off v + (page - v_start v)) div PG) of
               None \<Rightarrow> (False, s, m)
             | Some fr \<Rightarrow>
                 (case vmm_space_map env m page fr ((v_vf v AND NOT VMM_WRITABLE) OR VMM_COW) of
                    None \<Rightarrow> (case cow_ref_drop m fr of
                               (lst, m') \<Rightarrow> (False, s, if lst then release_frame m' fr else m'))
                  | Some m' \<Rightarrow> (True, s\<lparr>vs_faults := vs_faults s + 1\<rparr>, m'))))"

definition vma_fault :: "vma_env \<Rightarrow> vma_set \<Rightarrow> mm \<Rightarrow> u64 \<Rightarrow> bool \<Rightarrow> bool \<Rightarrow> bool \<times> vma_set \<times> mm" where
  "vma_fault env s m va is_write can_sleep =
     (if \<not> can_sleep then (False, s, m)
      else fault_locked env s m (va AND NOT (PG - 1)) is_write)"

section \<open>Lifetime and the program break\<close>

text \<open>The child's list: a copy of the parent's, cut where memory runs out after \<open>n\<close> ranges.\<close>

definition vma_clone :: "nat \<Rightarrow> vma_set \<Rightarrow> vma_set \<Rightarrow> vma_set" where
  "vma_clone n ps cs =
     cs\<lparr>vs_list := take n (vs_list ps), vs_brk_start := vs_brk_start ps, vs_brk_cur := vs_brk_cur ps\<rparr>"

definition vma_brk_init :: "vma_set \<Rightarrow> u64 \<Rightarrow> vma_set" where
  "vma_brk_init s img_end = s\<lparr>vs_brk_start := round_up img_end, vs_brk_cur := round_up img_end\<rparr>"

definition vma_brk :: "vma_env \<Rightarrow> vma_set \<Rightarrow> mm \<Rightarrow> u64 \<Rightarrow> (u64 \<times> vma_set \<times> mm) option" where
  "vma_brk env s m addr =
     (if vs_brk_start s = 0 then Some (0, s, m)
      else let cur = vs_brk_cur s
           in if addr < vs_brk_start s then Some (cur, s, m)
              else let oldp = round_up cur; newp = round_up addr
                   in if newp > oldp then
                        (case vma_mmap env s m oldp (newp - oldp) (VMA_PROT_READ OR VMA_PROT_WRITE)
                                (VMA_MAP_PRIVATE OR VMA_MAP_ANONYMOUS OR VMA_MAP_FIXED_NOREPLACE) (-1) 0 of
                           None \<Rightarrow> None
                         | Some (r, s1, m1) \<Rightarrow>
                             if r < 0 \<or> word_of_int r \<noteq> oldp then Some (cur, s1, m1)
                             else Some (addr, s1\<lparr>vs_brk_cur := addr\<rparr>, m1))
                      else if newp < oldp then
                        (case vma_munmap env s m newp (oldp - newp) of
                           (r, s1, m1) \<Rightarrow> Some (addr, s1\<lparr>vs_brk_cur := addr\<rparr>, m1))
                      else Some (addr, s\<lparr>vs_brk_cur := addr\<rparr>, m))"

end
