(* ===== verification/Vma_Spec.thy ===== *)
theory Vma_Spec
  imports Vma
begin

text \<open>
  The reservation list refines a map from addresses to what a program may do there: \<open>vabs vs va\<close> is
  the protection and backing of address \<open>va\<close>.  Splitting and merging leave the map alone; \<open>munmap\<close>,
  \<open>mprotect\<close> and \<open>mmap\<close> change it on exactly their range.
\<close>

section \<open>Sorted lists of disjoint ranges\<close>

definition covers :: "vma \<Rightarrow> u64 \<Rightarrow> bool" where
  "covers v va \<longleftrightarrow> v_start v \<le> va \<and> va < v_end v"

fun vs_sorted :: "vma list \<Rightarrow> bool" where
  "vs_sorted [] \<longleftrightarrow> True"
| "vs_sorted (v # vs) \<longleftrightarrow> v_start v < v_end v \<and> (\<forall>w \<in> set vs. v_end v \<le> v_start w) \<and> vs_sorted vs"

definition vattr :: "vma \<Rightarrow> u64 \<Rightarrow> u32 \<times> vma_kind \<times> (nat \<times> u64) option" where
  "vattr v va = (v_vf v, v_kind v,
     if v_kind v = VMA_FILE then Some (v_file v, v_off v + (va - v_start v)) else None)"

definition vabs :: "vma list \<Rightarrow> u64 \<Rightarrow> (u32 \<times> vma_kind \<times> (nat \<times> u64) option) option" where
  "vabs vs va = map_option (\<lambda>v. vattr v va) (vfind vs va)"

lemma vs_sorted_nonempty: "vs_sorted vs \<Longrightarrow> v \<in> set vs \<Longrightarrow> v_start v < v_end v"
  by (induction vs) auto

lemma vfind_sorted: "vs_sorted vs \<Longrightarrow> vfind vs va = Some v \<longleftrightarrow> v \<in> set vs \<and> covers v va"
proof (induction vs)
  case (Cons w vs)
  have later: "covers v va \<Longrightarrow> v \<in> set vs \<Longrightarrow> v_end w \<le> va" for v
    using Cons.prems by (auto simp: covers_def)
  show ?case
  proof (cases "covers w va")
    case True
    then show ?thesis using later [of v] Cons.prems by (auto simp: covers_def)
  next
    case False
    have "v_start w \<le> va" if "v \<in> set vs" "covers v va" for v
      using later [OF that(2,1)] Cons.prems by (auto simp: covers_def)
    with False Cons show ?thesis by (auto simp: covers_def)
  qed
qed simp

lemma vfind_none: "vs_sorted vs \<Longrightarrow> vfind vs va = None \<longleftrightarrow> (\<forall>v \<in> set vs. \<not> covers v va)"
  using vfind_sorted by (metis not_None_eq)

lemma vabs_Some: "vs_sorted vs \<Longrightarrow> vabs vs va = Some x \<longleftrightarrow> (\<exists>v \<in> set vs. covers v va \<and> x = vattr v va)"
  by (auto simp: vabs_def vfind_sorted)

lemma vabs_None: "vs_sorted vs \<Longrightarrow> vabs vs va = None \<longleftrightarrow> (\<forall>v \<in> set vs. \<not> covers v va)"
  by (simp add: vabs_def vfind_none)

lemma vabs_eqI:
  assumes "vs_sorted vs" and "vs_sorted ws"
    and "\<And>v. v \<in> set vs \<Longrightarrow> covers v va \<Longrightarrow> \<exists>w \<in> set ws. covers w va \<and> vattr w va = vattr v va"
    and "\<And>w. w \<in> set ws \<Longrightarrow> covers w va \<Longrightarrow> \<exists>v \<in> set vs. covers v va"
  shows "vabs vs va = vabs ws va"
proof (cases "vabs vs va")
  case None
  then show ?thesis using assms(1,2,4) vabs_None by metis
next
  case (Some x)
  then obtain v where "v \<in> set vs" "covers v va" "x = vattr v va" using vabs_Some [OF assms(1)] by blast
  then have "vabs ws va = Some x" using assms(3) vabs_Some [OF assms(2)] by metis
  with Some show ?thesis by simp
qed

lemma overlaps_iff:
  "vs_sorted vs \<Longrightarrow> overlaps vs a b \<longleftrightarrow> (\<exists>v \<in> set vs. v_start v < b \<and> a < v_end v)"
proof (induction vs)
  case (Cons v vs)
  have "v_start v < b" if "w \<in> set vs" "v_start w < b" for w
    using Cons.prems that by (meson le_less_trans less_trans vs_sorted.simps(2) order_le_less_trans)
  with Cons show ?case by auto
qed simp

lemma blocker_iff: "blocker vs a b = None \<longleftrightarrow> \<not> overlaps vs a b"
  by (induction vs) auto

lemma blocker_end: "blocker vs cand b = Some v \<Longrightarrow> cand < v_end v"
  by (induction vs) (auto split: if_splits)

text \<open>No range crosses an address.\<close>

definition nostraddle :: "vma list \<Rightarrow> u64 \<Rightarrow> bool" where
  "nostraddle vs at \<longleftrightarrow> (\<forall>v \<in> set vs. \<not> (v_start v < at \<and> at < v_end v))"

section \<open>Splitting\<close>

definition lower_half :: "vma \<Rightarrow> u64 \<Rightarrow> vma" where "lower_half v at = v\<lparr>v_end := at\<rparr>"
definition upper_half :: "vma \<Rightarrow> u64 \<Rightarrow> vma" where
  "upper_half v at = v\<lparr>v_start := at, v_off := v_off v + (at - v_start v)\<rparr>"

lemma split_list_set:
  "vs_sorted vs \<Longrightarrow> v \<in> set vs \<Longrightarrow>
   w \<in> set (split_list v at vs) \<longleftrightarrow> w \<in> set vs \<and> w \<noteq> v \<or> w = lower_half v at \<or> w = upper_half v at"
proof (induction vs)
  case (Cons x vs)
  show ?case
  proof (cases "x = v")
    case True
    then have "v \<notin> set vs" using Cons.prems(1) by auto
    with True show ?thesis by (auto simp: lower_half_def upper_half_def)
  qed (use Cons in auto)
qed simp

lemma halves_between:
  assumes "v_start v < at" and "at < v_end v" and "w = lower_half v at \<or> w = upper_half v at"
  shows "v_start v \<le> v_start w" and "v_end w \<le> v_end v" and "v_start w < v_end w"
  using assms by (auto simp: lower_half_def upper_half_def)

lemma split_list_sorted:
  assumes "vs_sorted vs" and "v \<in> set vs" and at: "v_start v < at" "at < v_end v"
  shows "vs_sorted (split_list v at vs)"
  using assms(1,2)
proof (induction vs)
  case (Cons x vs)
  show ?case
  proof (cases "x = v")
    case True
    then show ?thesis using Cons.prems at by (auto intro: order_trans less_imp_le)
  next
    case False
    then have v: "v \<in> set vs" using Cons.prems by auto
    have sub: "v_end x \<le> v_start w" if m: "w \<in> set (split_list v at vs)" for w
    proof -
      consider "w \<in> set vs" | "w = lower_half v at \<or> w = upper_half v at"
        using m split_list_set [OF _ v] Cons.prems by auto
      then show ?thesis
      proof cases
        case 2
        then show ?thesis using halves_between(1) [OF at 2] Cons.prems v by (auto intro: order_trans)
      qed (use Cons.prems in auto)
    qed
    then show ?thesis using Cons False v by auto
  qed
qed simp

lemma halves_attr: "vattr (lower_half v at) va = vattr v va" "vattr (upper_half v at) va = vattr v va"
  by (auto simp: vattr_def lower_half_def upper_half_def)

lemma covers_halves:
  assumes "v_start v < at" and "at < v_end v"
  shows "covers v va \<longleftrightarrow> covers (lower_half v at) va \<or> covers (upper_half v at) va"
  using assms by (auto simp: covers_def lower_half_def upper_half_def)

lemma split_list_abs:
  assumes s: "vs_sorted vs" and v: "v \<in> set vs" and at: "v_start v < at" "at < v_end v"
  shows "vabs (split_list v at vs) = vabs vs"
proof
  fix va
  note S = split_list_set [OF s v, of _ at] and C = covers_halves [OF at, of va]
  show "vabs (split_list v at vs) va = vabs vs va"
  proof (rule vabs_eqI [OF split_list_sorted [OF s v at] s])
    fix w assume "w \<in> set (split_list v at vs)" "covers w va"
    then show "\<exists>u \<in> set vs. covers u va \<and> vattr u va = vattr w va"
      unfolding S using C v halves_attr by metis
  next
    fix w assume "w \<in> set vs" "covers w va"
    then show "\<exists>u \<in> set (split_list v at vs). covers u va"
      unfolding Bex_def S using C by metis
  qed
qed

text \<open>What a split gives: the same map, and no range across the cut.\<close>

lemma split_at_ok:
  assumes s: "vs_sorted vs" and r: "split_at ok vs at = Some ws"
  shows "vs_sorted ws" and "vabs ws = vabs vs" and "nostraddle ws at"
    and "nostraddle vs c \<Longrightarrow> nostraddle ws c"
proof -
  have A: "vs_sorted ws \<and> vabs ws = vabs vs \<and> nostraddle ws at \<and> (nostraddle vs c \<longrightarrow> nostraddle ws c)"
  proof (cases "vfind vs at")
    case None
    then have "nostraddle vs at"
      using vfind_none [OF s] by (auto simp: nostraddle_def covers_def less_imp_le)
    with None r s show ?thesis by (simp add: split_at_def)
  next
    case (Some v)
    then have v: "v \<in> set vs" "covers v at" using vfind_sorted [OF s] by auto
    have only: "w = v" if "w \<in> set vs" "v_start w < at" "at < v_end w" for w
      using Some that vfind_sorted [OF s, of at w] by (simp add: covers_def less_imp_le)
    show ?thesis
    proof (cases "v_start v = at")
      case True
      then have "nostraddle vs at" using only by (auto simp: nostraddle_def)
      with True Some r s show ?thesis by (simp add: split_at_def)
    next
      case False
      then have at: "v_start v < at" "at < v_end v" using v(2) by (auto simp: covers_def)
      then have ws: "ws = split_list v at vs" using False Some r by (simp add: split_at_def split: if_splits)
      note S = split_list_set [OF s v(1), of _ at]
      have "nostraddle ws at"
        unfolding nostraddle_def ws Ball_def S using only by (auto simp: lower_half_def upper_half_def)
      moreover have "nostraddle vs c \<longrightarrow> nostraddle ws c"
        unfolding nostraddle_def ws Ball_def S using v(1) at by (auto simp: lower_half_def upper_half_def)
      ultimately show ?thesis
        using split_list_sorted [OF s v(1) at] split_list_abs [OF s v(1) at] ws by simp
    qed
  qed
  then show "vs_sorted ws" and "vabs ws = vabs vs" and "nostraddle ws at"
    and "nostraddle vs c \<Longrightarrow> nostraddle ws c" by auto
qed

section \<open>Removing, inserting, merging, protecting\<close>

lemma filter_sorted: "vs_sorted vs \<Longrightarrow> vs_sorted (filter P vs)"
  by (induction vs) auto

lemma remove_range_ok:
  assumes s: "vs_sorted vs" and a: "nostraddle vs a" and b: "nostraddle vs b"
  shows "vs_sorted (remove_range vs a b)"
    and "vabs (remove_range vs a b) va = (if a \<le> va \<and> va < b then None else vabs vs va)"
proof -
  show R: "vs_sorted (remove_range vs a b)" using filter_sorted [OF s] by (simp add: remove_range_def)
  have in_out: "v_start v \<ge> a \<and> v_end v \<le> b \<longleftrightarrow> a \<le> va \<and> va < b" if "v \<in> set vs" "covers v va" for v
    using that a b by (auto simp: nostraddle_def covers_def not_less)
  show "vabs (remove_range vs a b) va = (if a \<le> va \<and> va < b then None else vabs vs va)"
  proof (cases "a \<le> va \<and> va < b")
    case True
    then have "vabs (remove_range vs a b) va = None"
      unfolding vabs_None [OF R] using in_out by (auto simp: remove_range_def)
    with True show ?thesis by simp
  next
    case False
    have "vabs (remove_range vs a b) va = vabs vs va"
      by (rule vabs_eqI [OF R s]) (use in_out False in \<open>auto simp: remove_range_def\<close>)
    with False show ?thesis by auto
  qed
qed

lemma set_vinsert [simp]: "set (vinsert n vs) = insert n (set vs)"
  by (induction vs) auto

lemma vinsert_sorted:
  assumes "vs_sorted vs" and "v_start n < v_end n" and "\<And>v. v \<in> set vs \<Longrightarrow> v_end v \<le> v_start n \<or> v_end n \<le> v_start v"
  shows "vs_sorted (vinsert n vs)"
  using assms
proof (induction vs)
  case (Cons v vs)
  have v: "v_end v \<le> v_start n \<or> v_end n \<le> v_start v" "v_start v < v_end v" using Cons.prems by auto
  show ?case
  proof (cases "v_start v < v_start n")
    case True
    then have "v_end v \<le> v_start n" using v Cons.prems(2) by auto
    with True Cons show ?thesis by auto
  next
    case False
    then have ge: "v_end n \<le> v_start v" using v Cons.prems(2) by auto
    have "v_end n \<le> v_start w" if "w \<in> set vs" for w
      using ge v(2) Cons.prems(1) that by (auto intro: order_trans less_imp_le)
    with False ge Cons.prems show ?thesis by auto
  qed
qed simp

lemma vinsert_abs:
  assumes s: "vs_sorted (vinsert n vs)" and t: "vs_sorted vs"
  shows "vabs (vinsert n vs) va = (if covers n va then Some (vattr n va) else vabs vs va)"
proof (cases "covers n va")
  case True
  then have "vabs (vinsert n vs) va = Some (vattr n va)"
    unfolding vabs_Some [OF s] by auto
  with True show ?thesis by simp
next
  case False
  have "vabs (vinsert n vs) va = vabs vs va"
    by (rule vabs_eqI [OF s t]) (use False in auto)
  with False show ?thesis by simp
qed

lemma vmerge_ok:
  "vs_sorted vs \<Longrightarrow> vs_sorted (vmerge vs) \<and> (\<forall>w \<in> set (vmerge vs). \<exists>v \<in> set vs. v_start v = v_start w) \<and>
     vabs (vmerge vs) = vabs vs"
proof (induction vs rule: vmerge.induct)
  case (1 v n vs)
  show ?case
  proof (cases "v_kind v = VMA_ANON \<and> v_kind n = VMA_ANON \<and> v_end v = v_start n \<and> v_vf v = v_vf n")
    case True
    let ?m = "v\<lparr>v_end := v_end n\<rparr>"
    have m: "vs_sorted (?m # vs)" using 1(3) True by (auto intro: less_trans)
    have "vabs (?m # vs) = vabs (v # n # vs)"
    proof
      fix va
      show "vabs (?m # vs) va = vabs (v # n # vs) va"
      proof (rule vabs_eqI [OF m 1(3)])
        fix w assume "w \<in> set (?m # vs)" "covers w va"
        then show "\<exists>u \<in> set (v # n # vs). covers u va \<and> vattr u va = vattr w va"
          using True by (cases "va < v_end v") (auto simp: covers_def vattr_def)
      next
        fix w assume "w \<in> set (v # n # vs)" "covers w va"
        then show "\<exists>u \<in> set (?m # vs). covers u va"
          using True 1(3) by (auto simp: covers_def intro: less_trans)
      qed
    qed
    then show ?thesis using 1(1) [OF True m] True by auto
  next
    case False
    have t: "vs_sorted (n # vs)" using 1(3) by simp
    note I = 1(2) [OF False t]
    have later: "\<forall>w \<in> set (vmerge (n # vs)). v_end v \<le> v_start w" using I 1(3) by fastforce
    have s: "vs_sorted (v # vmerge (n # vs))" using later I 1(3) by simp
    have "vabs (v # vmerge (n # vs)) va = vabs (v # n # vs) va" for va
    proof (cases "v_start v \<le> va")
      case True
      have e: "vabs (vmerge (n # vs)) va = vabs (n # vs) va" using I by simp
      then show ?thesis using True by (simp add: vabs_def del: vfind.simps(2)) (simp add: vabs_def)
    next
      case f: False
      then show ?thesis by (simp add: vabs_def)
    qed
    then show ?thesis using False s I by auto
  qed
qed auto

lemma vprotect_ok:
  assumes s: "vs_sorted vs" and a: "nostraddle vs a" and b: "nostraddle vs b"
  shows "vs_sorted (vprotect vs a b vf)"
    and "vabs (vprotect vs a b vf) va =
      (if a \<le> va \<and> va < b then map_option (\<lambda>(f, r). (vf, r)) (vabs vs va) else vabs vs va)"
proof -
  let ?f = "\<lambda>v. if v_start v \<ge> a \<and> v_end v \<le> b then v\<lparr>v_vf := vf\<rparr> else v"
  have bounds: "v_start (?f v) = v_start v" "v_end (?f v) = v_end v" for v by auto
  have "vs_sorted (map ?f ws)" if "vs_sorted ws" for ws
    using that by (induction ws) (auto simp: bounds)
  then show P: "vs_sorted (vprotect vs a b vf)" using s by (simp add: vprotect_def)
  have in_out: "v_start v \<ge> a \<and> v_end v \<le> b \<longleftrightarrow> a \<le> va \<and> va < b" if "v \<in> set vs" "covers v va" for v
    using that a b by (auto simp: nostraddle_def covers_def not_less)
  have find: "vfind (vprotect ws a b vf) va = map_option ?f (vfind ws va)" for ws
    by (induction ws) (auto simp: vprotect_def)
  show "vabs (vprotect vs a b vf) va =
      (if a \<le> va \<and> va < b then map_option (\<lambda>(f, r). (vf, r)) (vabs vs va) else vabs vs va)"
  proof (cases "vfind vs va")
    case None
    then show ?thesis by (simp add: vabs_def find)
  next
    case (Some v)
    then have "v \<in> set vs" "covers v va" using vfind_sorted [OF s] by auto
    from in_out [OF this] show ?thesis by (auto simp: vabs_def find vattr_def Some)
  qed
qed

section \<open>Addresses\<close>

lemma step_advances:
  assumes "cand \<le> vmm_user_limit"
  shows "cand < (cand + STEP) AND NOT (STEP - 1)"
proof -
  have m: "STEP - 1 = mask 21" by (simp add: STEP_def mask_eq_exp_minus_1)
  have c: "unat cand \<le> 2 ^ 39" using assms by (simp add: vmm_user_limit_def word_le_nat_alt push_bit_eq_mult)
  have s: "unat (cand + STEP) = unat cand + 2 ^ 21"
    using c by (subst unat_add_lt) (simp_all add: STEP_def)
  have "unat ((cand + STEP) AND NOT (STEP - 1)) = (unat cand + 2 ^ 21) div 2 ^ 21 * 2 ^ 21"
    unfolding m unat_and_not_mask s ..
  also have "\<dots> = unat cand div 2 ^ 21 * 2 ^ 21 + 2 ^ 21" using div_add_self2 [of "2 ^ 21" "unat cand"] by simp
  also have "\<dots> > unat cand" by (rule div_step_above) simp
  finally show ?thesis by (simp add: word_less_nat_alt)
qed

definition free_range :: "vma list \<Rightarrow> mm \<Rightarrow> u64 \<Rightarrow> u64 \<Rightarrow> bool" where
  "free_range vs m a len \<longleftrightarrow> a < a + len \<and> a + len \<le> vmm_user_limit \<and> \<not> overlaps vs a (a + len) \<and>
     vmm_space_range_state m a (a + len) = RS_EMPTY"

lemma find_free_loop_ok:
  "\<exists>r. find_free_loop vs m len cand = Some r \<and> (r \<noteq> 0 \<longrightarrow> cand \<le> r \<and> free_range vs m r len)"
proof (induction "2 ^ 64 - unat cand" arbitrary: cand rule: less_induct)
  case less
  show ?case
  proof (cases "cand + len > cand \<and> cand + len \<le> vmm_user_limit")
    case False
    then show ?thesis by (subst find_free_loop.simps) auto
  next
    case True
    have go: ?thesis if "cand < c" "find_free_loop vs m len cand = find_free_loop vs m len c" for c
    proof -
      have "unat c < 2 ^ 64" using unsigned_less [of c, where ?'a = nat] by simp
      then have "2 ^ 64 - unat c < 2 ^ 64 - unat cand" using that(1) by (simp add: word_less_nat_alt diff_less_mono2)
      from less [OF this] that show ?thesis by (auto intro: order_trans less_imp_le)
    qed
    show ?thesis
    proof (cases "blocker vs cand (cand + len)")
      case (Some v)
      have "find_free_loop vs m len cand = find_free_loop vs m len (v_end v)"
        using True Some by (subst find_free_loop.simps) simp
      then show ?thesis by (rule go [OF blocker_end [OF Some]])
    next
      case None
      show ?thesis
      proof (cases "vmm_space_range_state m cand (cand + len) = RS_EMPTY")
        case e: True
        then have "find_free_loop vs m len cand = Some cand"
          using True None by (subst find_free_loop.simps) simp
        then show ?thesis using True None e by (auto simp: free_range_def blocker_iff)
      next
        case e: False
        have "cand \<le> vmm_user_limit" using True by (meson less_imp_le order_trans)
        moreover have "find_free_loop vs m len cand = find_free_loop vs m len ((cand + STEP) AND NOT (STEP - 1))"
          using True None e by (subst find_free_loop.simps) simp
        ultimately show ?thesis using go step_advances by blast
      qed
    qed
  qed
qed

lemma find_free_ok:
  assumes "0 < len"
  shows "\<exists>r. find_free vs m len hint = Some r \<and> (r \<noteq> 0 \<longrightarrow> window_lo \<le> r \<and> free_range vs m r len)"
proof (cases "hint \<noteq> 0 \<and> hint AND (PG - 1) = 0 \<and> usable vs m hint len")
  case True
  then have "find_free vs m len hint = Some hint" by (simp add: find_free_def)
  moreover have "\<not> hint < window_lo" "\<not> hint + len < hint" "hint + len \<le> vmm_user_limit"
    "\<not> overlaps vs hint (hint + len)" "vmm_space_range_state m hint (hint + len) = RS_EMPTY"
    using True by (auto simp: usable_def split: if_splits)
  moreover have "hint + len \<noteq> hint" using assms by auto
  ultimately show ?thesis using order.not_eq_order_implies_strict [of hint "hint + len"]
    by (auto simp: free_range_def not_less)
next
  case False
  then have "find_free vs m len hint = find_free_loop vs m len window_lo"
    unfolding find_free_def by (rule if_not_P)
  then show ?thesis using find_free_loop_ok [of vs m len window_lo] by simp
qed

section \<open>Pages\<close>

lemma user_bit: "(VMM_USER OR x) AND VMM_USER \<noteq> 0"
proof -
  have "(VMM_USER OR x) AND VMM_USER = VMM_USER" by (rule bit_word_eqI) (auto simp: bit_simps)
  then show ?thesis by (simp add: vma_consts)
qed

lemma protect_user:
  "mm_pte m va = Some (Present f fl) \<Longrightarrow> \<exists>x. mm_pte (vmm_space_protect m va VMM_USER) = (mm_pte m)(va \<mapsto> Present f (VMM_USER OR x))"
proof -
  assume a: "mm_pte m va = Some (Present f fl)"
  have "(if c then VMM_USER AND NOT VMM_WRITABLE else VMM_USER) AND (VMM_WRITABLE OR VMM_USER OR VMM_EXEC) = VMM_USER" for c
    by (simp add: vma_consts)
  then show ?thesis using a by (auto simp: vmm_space_protect_def Let_def)
qed

lemma unmap_present:
  "mm_pte m va = Some (Present f fl) \<Longrightarrow> fl AND VMM_USER \<noteq> 0 \<Longrightarrow> mm_pte (vmm_space_unmap m va) = (mm_pte m)(va := None)"
  by (auto simp: vmm_space_unmap_def Let_def release_frame_def cow_ref_drop_def)

lemma unmap_page_pte: "mm_pte (unmap_page va m) = (mm_pte m)(va := None)"
proof (cases "mm_pte m va")
  case None
  then show ?thesis by (simp add: unmap_page_def vmm_space_probe_def) (simp add: fun_upd_idem)
next
  case (Some e)
  show ?thesis
  proof (cases e)
    case (Present f fl)
    obtain x where x: "mm_pte (vmm_space_protect m va VMM_USER) = (mm_pte m)(va \<mapsto> Present f (VMM_USER OR x))"
      using protect_user Some Present by blast
    then have "mm_pte (vmm_space_unmap (vmm_space_protect m va VMM_USER) va) = (mm_pte m)(va := None)"
      using unmap_present [of "vmm_space_protect m va VMM_USER" va f "VMM_USER OR x"] user_bit by simp
    then show ?thesis by (simp add: unmap_page_def vmm_space_probe_def Some Present)
  next
    case (Evicted sl)
    then show ?thesis by (simp add: unmap_page_def vmm_space_probe_def Some vmm_space_unmap_def)
  qed
qed

lemma unmap_pages_pte: "mm_pte (unmap_pages m a b) p = (if p \<in> set (page_list a b) then None else mm_pte m p)"
proof -
  have "mm_pte (fold unmap_page ps m) p = (if p \<in> set ps then None else mm_pte m p)" for ps
    by (induction ps arbitrary: m) (auto simp: unmap_page_pte)
  then show ?thesis by (simp add: unmap_pages_def)
qed

section \<open>mmap\<close>

lemma round_up_nonzero:
  assumes "len \<noteq> 0" and "len \<le> round_up len"
  shows "round_up len \<noteq> 0"
  using assms by auto

definition replacing :: "u32 \<Rightarrow> bool" where
  "replacing flags \<longleftrightarrow> flags AND VMA_MAP_FIXED \<noteq> 0 \<and> flags AND VMA_MAP_FIXED_NOREPLACE = 0"

lemma fixed_flags:
  "flags AND (VMA_MAP_FIXED OR VMA_MAP_FIXED_NOREPLACE) \<noteq> 0 \<longleftrightarrow>
     replacing flags \<or> flags AND VMA_MAP_FIXED_NOREPLACE \<noteq> 0"
proof -
  have "flags AND (VMA_MAP_FIXED OR VMA_MAP_FIXED_NOREPLACE) =
    (flags AND VMA_MAP_FIXED) OR (flags AND VMA_MAP_FIXED_NOREPLACE)" by (rule bit.conj_disj_distrib)
  then show ?thesis unfolding replacing_def by (metis or_eq_0_iff)
qed

text \<open>The list \<open>ws\<close> and address \<open>va\<close> a placement gives.\<close>

definition placed :: "vma list \<Rightarrow> mm \<Rightarrow> u64 \<Rightarrow> u64 \<Rightarrow> u32 \<Rightarrow> u64 \<Rightarrow> vma list \<Rightarrow> bool" where
  "placed vs m addr sz flags va ws \<longleftrightarrow> vs_sorted ws \<and> va < va + sz \<and> va + sz \<le> vmm_user_limit \<and>
     (\<forall>p. vabs ws p = (if va \<le> p \<and> p < va + sz then None else vabs vs p)) \<and>
     (replacing flags \<and> va = addr \<or> \<not> replacing flags \<and> free_range vs m va sz \<and> ws = vs)"

lemma cleared:
  assumes "vs_sorted vs" and "split_at c vs a = Some v1" and "split_at d v1 b = Some v2"
  shows "vs_sorted (remove_range v2 a b)"
    and "vabs (remove_range v2 a b) p = (if a \<le> p \<and> p < b then None else vabs vs p)"
proof -
  note A = split_at_ok [OF assms(1,2)]
  note B = split_at_ok [OF A(1) assms(3)]
  note R = remove_range_ok [OF B(1) B(4) [OF A(3)] B(3)]
  show "vs_sorted (remove_range v2 a b)" by (rule R(1))
  show "vabs (remove_range v2 a b) p = (if a \<le> p \<and> p < b then None else vabs vs p)"
    using R(2) A(2) B(2) by simp
qed

lemma free_range_none:
  assumes "vs_sorted vs" and "free_range vs m a sz" and "a \<le> p" and "p < a + sz"
  shows "vabs vs p = None"
  using assms unfolding vabs_None [OF assms(1)] free_range_def overlaps_iff [OF assms(1)] covers_def
  by (meson le_less_trans)

lemma free_range_placed:
  "vs_sorted vs \<Longrightarrow> free_range vs m va sz \<Longrightarrow> \<not> replacing flags \<Longrightarrow> placed vs m addr sz flags va vs"
  using free_range_none by (auto simp: placed_def free_range_def)

lemma mmap_place_ok:
  assumes s: "vs_sorted vs" and sz: "sz \<noteq> 0"
  obtains e ws where "mmap_place env vs m addr sz flags = Some (Inl (e, ws))" "e < 0" "vs_sorted ws" "vabs ws = vabs vs"
  | va ws m1 where "mmap_place env vs m addr sz flags = Some (Inr (va, ws, m1))" "placed vs m addr sz flags va ws"
proof (cases "flags AND (VMA_MAP_FIXED OR VMA_MAP_FIXED_NOREPLACE) \<noteq> 0")
  case False
  then have n: "\<not> replacing flags" using fixed_flags by blast
  obtain r where r: "find_free vs m sz (addr AND NOT (PG - 1)) = Some r" "r \<noteq> 0 \<Longrightarrow> free_range vs m r sz"
    using find_free_ok [of sz vs m "addr AND NOT (PG - 1)"] sz by (auto simp: word_gt_0)
  show ?thesis
  proof (cases "r = 0")
    case True
    then show ?thesis using that(1) [of ENOMEM vs] False r(1) s by (simp add: mmap_place_def)
  next
    case nz: False
    then show ?thesis using that(2) [of r vs m] free_range_placed [OF s r(2) n] False r(1)
      by (simp add: mmap_place_def)
  qed
next
  case True
  let ?st = "if addr < vmm_user_min \<or> addr + sz < addr \<or> addr + sz > vmm_user_limit then RS_KERNEL
     else vmm_space_range_state m addr (addr + sz)"
  show ?thesis
  proof (cases "?st = RS_KERNEL")
    case k: True
    then show ?thesis using that(1) [of EINVAL vs] True s by (simp add: mmap_place_def Let_def)
  next
    case k: False
    have b: "addr < addr + sz" "addr + sz \<le> vmm_user_limit" "?st = vmm_space_range_state m addr (addr + sz)"
      using k sz by (auto simp: not_less order.order_iff_strict split: if_splits)
    show ?thesis
    proof (cases "replacing flags")
      case False
      then have f: "flags AND VMA_MAP_FIXED_NOREPLACE \<noteq> 0" using True fixed_flags by blast
      show ?thesis
      proof (cases "overlaps vs addr (addr + sz) \<or> ?st \<noteq> RS_EMPTY")
        case o: True
        show ?thesis using that(1) [of EEXIST vs] True k f o s
          by (simp only: mmap_place_def Let_def if_True if_False) simp
      next
        case o: False
        then have "free_range vs m addr sz" using b by (simp add: free_range_def)
        then show ?thesis using that(2) [of addr vs m] free_range_placed [OF s _ False] True k f o
          by (simp only: mmap_place_def Let_def if_True if_False) simp
      qed
    next
      case r: True
      then have f: "\<not> flags AND VMA_MAP_FIXED_NOREPLACE \<noteq> 0" by (simp add: replacing_def)
      note U = mmap_place_def Let_def if_P [OF True] if_not_P [OF k] if_not_P [OF f]
      show ?thesis
      proof (cases "split_at (ve_split1 env) vs addr")
        case None
        then show ?thesis using that(1) [of ENOMEM vs] s by (simp only: U) simp
      next
        case (Some v1)
        note A = split_at_ok [OF s Some]
        show ?thesis
        proof (cases "split_at (ve_split2 env) v1 (addr + sz)")
          case None
          then show ?thesis using that(1) [of ENOMEM v1] A Some by (simp only: U) simp
        next
          case S: (Some v2)
          have "placed vs m addr sz flags addr (remove_range v2 addr (addr + sz))"
            using cleared [OF s Some S] b r by (simp add: placed_def)
          then show ?thesis
            using that(2) [of addr _ "unmap_pages m addr (addr + sz)"] Some S by (simp only: U) simp
        qed
      qed
    qed
  qed
qed

text \<open>The new range, and what a failed fill takes back.\<close>

lemma insert_placed:
  assumes s: "vs_sorted vs" and pl: "placed vs m addr sz flags (v_start v) ws" and e: "v_end v = v_start v + sz"
  shows "vs_sorted (vinsert v ws)"
    and "vabs (vinsert v ws) p = (if v_start v \<le> p \<and> p < v_start v + sz then Some (vattr v p) else vabs vs p)"
    and "vs_sorted (remove_range (vinsert v ws) (v_start v) (v_end v))"
    and "vabs (remove_range (vinsert v ws) (v_start v) (v_end v)) p =
      (if v_start v \<le> p \<and> p < v_start v + sz then None else vabs vs p)"
proof -
  have w: "vs_sorted ws" and lt: "v_start v < v_start v + sz"
    and ab: "\<And>p. vabs ws p = (if v_start v \<le> p \<and> p < v_start v + sz then None else vabs vs p)"
    using pl by (auto simp: placed_def)
  have away: "v_end x \<le> v_start v \<or> v_end v \<le> v_start x" if x: "x \<in> set ws" for x
  proof (rule ccontr)
    assume "\<not> ?thesis"
    then have o: "v_start v < v_end x" "v_start x < v_end v" by auto
    let ?p = "max (v_start v) (v_start x)"
    have "covers x ?p" using o vs_sorted_nonempty [OF w x] by (auto simp: covers_def max_def)
    moreover have "vabs ws ?p = None" using ab [of ?p] o lt e by (auto simp: max_def)
    ultimately show False using vabs_None [OF w] x by blast
  qed
  show i: "vs_sorted (vinsert v ws)" using vinsert_sorted [OF w _ away] lt e by simp
  show va: "vabs (vinsert v ws) p = (if v_start v \<le> p \<and> p < v_start v + sz then Some (vattr v p) else vabs vs p)" for p
    using vinsert_abs [OF i w, of p] ab [of p] e by (simp add: covers_def)
  have ns: "nostraddle (vinsert v ws) (v_start v)" "nostraddle (vinsert v ws) (v_end v)"
    using away lt e by (auto simp: nostraddle_def not_less) (use order_trans less_imp_le in \<open>meson linorder_not_less\<close>)+
  show "vs_sorted (remove_range (vinsert v ws) (v_start v) (v_end v))"
    by (rule remove_range_ok(1) [OF i ns])
  show "vabs (remove_range (vinsert v ws) (v_start v) (v_end v)) p =
      (if v_start v \<le> p \<and> p < v_start v + sz then None else vabs vs p)"
    using remove_range_ok(2) [OF i ns, of p] va [of p] e by auto
qed

text \<open>What a call of mmap leaves, by its result.\<close>

definition mmap_outcome :: "vma_set \<Rightarrow> mm \<Rightarrow> u64 \<Rightarrow> u64 \<Rightarrow> u32 \<Rightarrow> u32 \<Rightarrow> int \<Rightarrow> vma_set \<Rightarrow> bool" where
  "mmap_outcome s m addr sz prot flags r s' \<longleftrightarrow> vs_sorted (vs_list s') \<and>
     (if r < 0 then
        (\<forall>p. vabs (vs_list s') p = vabs (vs_list s) p \<or>
           (replacing flags \<and> addr \<le> p \<and> p < addr + sz \<and> vabs (vs_list s') p = None))
      else let a = word_of_int r in a < a + sz \<and> a + sz \<le> vmm_user_limit \<and> r = uint a \<and>
        (\<forall>p. a \<le> p \<and> p < a + sz \<longrightarrow> (\<exists>k. vabs (vs_list s') p = Some (prot_to_vf prot, k))) \<and>
        (\<forall>p. \<not> (a \<le> p \<and> p < a + sz) \<longrightarrow> vabs (vs_list s') p = vabs (vs_list s) p) \<and>
        (if replacing flags then a = addr
         else vmm_space_range_state m a (a + sz) = RS_EMPTY \<and>
              (\<forall>p. a \<le> p \<and> p < a + sz \<longrightarrow> vabs (vs_list s) p = None)))"

lemma mmap_refused: "e < 0 \<Longrightarrow> vs_sorted vs \<Longrightarrow> vabs vs = vabs (vs_list s) \<Longrightarrow>
    mmap_outcome s m addr sz prot flags e (s\<lparr>vs_list := vs\<rparr>)"
  by (simp add: mmap_outcome_def)

lemma mmap_backed_out:
  assumes pl: "placed (vs_list s) m addr sz flags va ws" and e: "e < 0" and w: "vs_sorted vs"
    and a: "\<And>p. vabs vs p = (if va \<le> p \<and> p < va + sz then None else vabs (vs_list s) p)"
    and s: "vs_sorted (vs_list s)"
  shows "mmap_outcome s m addr sz prot flags e (s\<lparr>vs_list := vs\<rparr>)"
  using assms free_range_none [OF s, of m va sz] by (auto simp: mmap_outcome_def placed_def)

lemma mmap_done:
  assumes s: "vs_sorted (vs_list s)" and pl: "placed (vs_list s) m addr sz flags va ws" and w: "vs_sorted vs"
    and a: "\<And>p. vabs vs p = (if va \<le> p \<and> p < va + sz then Some (vattr v p) else vabs (vs_list s) p)"
    and v: "v_vf v = prot_to_vf prot"
  shows "mmap_outcome s m addr sz prot flags (uint va) (s\<lparr>vs_list := vs\<rparr>)"
  using pl w a v free_range_none [OF s, of m va sz]
  by (auto simp: mmap_outcome_def placed_def Let_def vattr_def free_range_def not_less)

section \<open>Which pages a range has\<close>

lemma page_aligned: "x AND (PG - 1) = 0 \<longleftrightarrow> unat x mod 4096 = 0"
proof -
  have m: "PG - 1 = mask 12" by (simp add: PG_def mask_eq_exp_minus_1)
  have "x AND (PG - 1) = 0 \<longleftrightarrow> unat (x AND mask 12) = 0" unfolding m by (rule unsigned_eq_0_iff [symmetric])
  then show ?thesis unfolding unat_and_mask by simp
qed

lemma page_list_set:
  "p \<in> set (page_list a b) \<longleftrightarrow> a \<le> p \<and> p < b \<and> (p - a) AND (PG - 1) = 0"
proof (cases "a < b")
  case False
  then show ?thesis by (auto simp: page_list_def)
next
  case ab: True
  let ?d = "unat (b - a)" and ?n = "(unat (b - a) + 4095) div 4096"
  have d: "?d = unat b - unat a" using ab by (simp add: unat_sub_le)
  have lt: "unat b < 2 ^ 64" using unsigned_less [of b, where ?'a = nat] by simp
  have abn: "unat a < unat b" using ab by (simp add: word_less_nat_alt)
  have pg: "unat (of_nat i * PG) = i * 4096 \<and> unat (a + of_nat i * PG) = unat a + i * 4096" if "i < ?n" for i
  proof -
    have i: "unat a + i * 4096 < 2 ^ 64" using that d lt abn by linarith
    then have "of_nat i * PG = (of_nat (i * 4096) :: u64)" by (simp add: PG_def)
    moreover have u: "unat (of_nat (i * 4096) :: u64) = i * 4096"
      using i by (intro unat_of_nat_lt) simp
    moreover have "unat (a + of_nat (i * 4096)) = unat a + i * 4096"
      using i u by (subst unat_add_lt) simp_all
    ultimately show ?thesis by simp
  qed
  show ?thesis
  proof
    assume "p \<in> set (page_list a b)"
    then obtain i where i: "i < ?n" "p = a + of_nat i * PG" using ab by (auto simp: page_list_def)
    moreover have "unat p < unat b" using pg [OF i(1)] i d abn by (simp add: less_mult_imp_div_less)
    ultimately show "a \<le> p \<and> p < b \<and> (p - a) AND (PG - 1) = 0"
      using pg [OF i(1)] by (simp add: page_aligned word_le_nat_alt word_less_nat_alt)
  next
    assume q: "a \<le> p \<and> p < b \<and> (p - a) AND (PG - 1) = 0"
    define i where "i = unat (p - a) div 4096"
    have e: "unat (p - a) = i * 4096" using q page_aligned [of "p - a"] by (auto simp: i_def)
    have pa: "unat (p - a) = unat p - unat a" using q by (simp add: unat_sub_le)
    have "unat p < unat b" "unat a \<le> unat p" using q by (simp_all add: word_le_nat_alt word_less_nat_alt)
    then have i: "i < ?n" using e pa d by linarith
    have "unat (of_nat i * PG) = unat (p - a)" using pg [OF i] e by simp
    then have "of_nat i * PG = p - a" by (simp only: word_unat_eq_iff)
    then have "p = a + of_nat i * PG" by simp
    with i ab show "p \<in> set (page_list a b)" by (auto simp: page_list_def)
  qed
qed

lemma aligned_diff:
  assumes "a AND (PG - 1) = 0" and "a \<le> p"
  shows "(p - a) AND (PG - 1) = 0 \<longleftrightarrow> p AND (PG - 1) = 0"
proof -
  have "unat p = unat (p - a) + unat a"
    using assms(2) by (simp add: unat_sub_le word_le_nat_alt)
  then have "unat p mod 4096 = (unat (p - a) + unat a mod 4096) mod 4096" by (simp only: mod_add_right_eq)
  then show ?thesis using assms(1) unfolding page_aligned by simp
qed

text \<open>The page-aligned addresses of a range that starts on a page.\<close>

lemma pages_of_range:
  "a AND (PG - 1) = 0 \<Longrightarrow> p \<in> set (page_list a b) \<longleftrightarrow> a \<le> p \<and> p < b \<and> p AND (PG - 1) = 0"
  using page_list_set aligned_diff by blast

lemma page_list_distinct: "distinct (page_list a b)"
proof -
  let ?n = "(unat (b - a) + 4095) div 4096"
  have "i = j" if "i < ?n" "j < ?n" "a + of_nat i * PG = a + of_nat j * PG" for i j
  proof -
    have lt: "?n \<le> 2 ^ 52" using unsigned_less [of "b - a", where ?'a = nat] by (simp add: div_le_mono)
    have "(of_nat (i * 4096) :: u64) = of_nat (j * 4096)" using that(3) by (simp add: PG_def)
    then have "unat (of_nat (i * 4096) :: u64) = unat (of_nat (j * 4096) :: u64)" by simp
    moreover have "unat (of_nat (k * 4096) :: u64) = k * 4096" if "k < ?n" for k
      using that lt by (intro unat_of_nat_lt) simp
    ultimately show ?thesis using that(1,2) by simp
  qed
  then show ?thesis by (auto simp: page_list_def distinct_map inj_on_def)
qed

end
