(* ===== verification/Vma_Calls.thy ===== *)
theory Vma_Calls
  imports Vma_Spec
begin

text \<open>
  What the memory system calls promise, over the map \<open>vabs\<close> of \<open>Vma_Spec\<close>: \<open>mmap\<close>, \<open>munmap\<close> and
  \<open>mprotect\<close> change it on exactly their range, a page fault only fills a hole its range allows, and
  two calls whose arithmetic wraps.
\<close>

section \<open>mmap, munmap, mprotect\<close>

lemma mmap_early: "e < 0 \<Longrightarrow> vs_sorted (vs_list s) \<Longrightarrow> mmap_outcome s m addr sz prot flags e s"
  by (simp add: mmap_outcome_def)

text \<open>Once the arguments are checked: place, insert, fill.\<close>

lemma mmap_enter:
  assumes s: "vs_sorted (vs_list s)" and sz: "sz \<noteq> 0"
  shows "\<exists>r s' m'. (case mmap_place env (vs_list s) m addr sz flags of
      None \<Rightarrow> None
    | Some (Inl (e, vs)) \<Rightarrow> Some (e, s\<lparr>vs_list := vs\<rparr>, m)
    | Some (Inr (va, vs, m1)) \<Rightarrow>
        if \<not> ve_new env then Some (ENOMEM, s\<lparr>vs_list := vs\<rparr>, m1)
        else let v = \<lparr>v_start = va, v_end = va + sz, v_vf = prot_to_vf prot, v_kind = kind, v_file = f, v_off = off\<rparr>;
                 vs2 = vinsert v vs
             in (case mmap_fill env m1 va sz kind tgt off (prot_to_vf prot) of
                   (True, m2) \<Rightarrow> Some (uint va, s\<lparr>vs_list := vmerge vs2\<rparr>, m2)
                 | (False, m2) \<Rightarrow> Some (ENOMEM, s\<lparr>vs_list := remove_range vs2 va (va + sz)\<rparr>,
                                        unmap_pages m2 va (va + sz)))) = Some (r, s', m') \<and>
      mmap_outcome s m addr sz prot flags r s'"
proof (rule mmap_place_ok [OF s sz, of env m addr flags])
  fix e ws assume "mmap_place env (vs_list s) m addr sz flags = Some (Inl (e, ws))" "e < 0" "vs_sorted ws"
    "vabs ws = vabs (vs_list s)"
  then show ?thesis using mmap_refused by simp
next
  fix va ws m1
  assume pl: "mmap_place env (vs_list s) m addr sz flags = Some (Inr (va, ws, m1))"
    and ok: "placed (vs_list s) m addr sz flags va ws"
  let ?v = "\<lparr>v_start = va, v_end = va + sz, v_vf = prot_to_vf prot, v_kind = kind, v_file = f, v_off = off\<rparr>"
  have ok': "placed (vs_list s) m addr sz flags (v_start ?v) ws" using ok by simp
  note I = insert_placed [OF s ok', simplified]
  have w: "vs_sorted ws" "\<And>p. vabs ws p = (if va \<le> p \<and> p < va + sz then None else vabs (vs_list s) p)"
    using ok by (auto simp: placed_def)
  have M: "vs_sorted (vmerge (vinsert ?v ws))" "vabs (vmerge (vinsert ?v ws)) = vabs (vinsert ?v ws)"
    using vmerge_ok [OF I(1)] by auto
  show ?thesis
  proof (cases "ve_new env")
    case False
    then show ?thesis using pl mmap_backed_out [OF ok _ w s, of ENOMEM] by simp
  next
    case True
    obtain b m2 where fill: "mmap_fill env m1 va sz kind tgt off (prot_to_vf prot) = (b, m2)" by fastforce
    show ?thesis
    proof (cases b)
      case True
      then show ?thesis
        using pl fill \<open>ve_new env\<close> mmap_done [OF s ok M(1), of ?v prot] M(2) I(2) by (simp add: Let_def)
    next
      case False
      then show ?thesis
        using pl fill \<open>ve_new env\<close> mmap_backed_out [OF ok _ I(3,4) s, of ENOMEM] by (simp add: Let_def)
    qed
  qed
qed

lemma mmap_backing_error: "mmap_backing env vf flags fd off = Inl e \<Longrightarrow> e < 0"
  by (auto simp: mmap_backing_def Let_def split: if_splits option.splits map_target.splits)


text \<open>What a successful \<open>munmap\<close> or a failed one leaves.\<close>

definition munmap_outcome :: "vma_set \<Rightarrow> mm \<Rightarrow> u64 \<Rightarrow> u64 \<Rightarrow> int \<Rightarrow> vma_set \<Rightarrow> mm \<Rightarrow> bool" where
  "munmap_outcome s m a b r s' m' \<longleftrightarrow> vs_sorted (vs_list s') \<and>
     (if r = 0 then a \<le> b \<and> vmm_user_min \<le> a \<and> b \<le> vmm_user_limit \<and>
        (\<forall>p. vabs (vs_list s') p = (if a \<le> p \<and> p < b then None else vabs (vs_list s) p)) \<and>
        (\<forall>p. mm_pte m' p = (if a \<le> p \<and> p < b \<and> p AND (PG - 1) = 0 then None else mm_pte m p))
      else r < 0 \<and> vabs (vs_list s') = vabs (vs_list s) \<and> m' = m)"

text \<open>C5: \<open>munmap\<close> keeps the list sorted and disjoint; on success no address of the (rounded) range is
  reserved and none of its pages is mapped, present or evicted, while every other address and page is
  as before; on failure no address changes.\<close>

theorem vma_munmap_correct:
  assumes s: "vs_sorted (vs_list s)" and r: "vma_munmap env s m addr len = (r, s', m')"
  shows "munmap_outcome s m addr (addr + round_up len) r s' m'"
proof -
  let ?e = "addr + round_up len"
  have early: "munmap_outcome s m addr ?e e s m" if "e < 0" for e
    using s that by (simp add: munmap_outcome_def)
  show ?thesis
  proof (cases "addr AND (PG - 1) \<noteq> 0 \<or> len = 0 \<or> ?e < addr \<or> addr < vmm_user_min \<or> ?e > vmm_user_limit \<or>
      vmm_space_range_state m addr ?e = RS_KERNEL")
    case True
    then show ?thesis using r early by (auto simp: vma_munmap_def Let_def split: if_splits)
  next
    case False
    then have al: "addr AND (PG - 1) = 0" by simp
    show ?thesis
    proof (cases "split_at (ve_split1 env) (vs_list s) addr")
      case None
      then show ?thesis using r early False by (auto simp: vma_munmap_def Let_def)
    next
      case (Some v1)
      note A = split_at_ok [OF s Some]
      show ?thesis
      proof (cases "split_at (ve_split2 env) v1 ?e")
        case None
        then show ?thesis using r A Some False by (auto simp: vma_munmap_def Let_def munmap_outcome_def)
      next
        case S: (Some v2)
        have "r = 0" "s' = s\<lparr>vs_list := remove_range v2 addr ?e\<rparr>" "m' = unmap_pages m addr ?e"
          using r Some S False by (auto simp: vma_munmap_def Let_def)
        then show ?thesis
          using cleared [OF s Some S] False
          by (auto simp: munmap_outcome_def unmap_pages_pte pages_of_range [OF al] not_less)
      qed
    qed
  qed
qed

lemma vmm_flag_exp:
  "VMM_WRITABLE = 2 ^ 1" "VMM_USER = 2 ^ 2" "VMM_EXEC = 2 ^ 9" "VMM_SHARED = 2 ^ 10" "VMM_COW = 2 ^ 11"
  by (simp_all add: vma_consts)

lemma vmm_flag_bits:
  "x AND VMM_WRITABLE \<noteq> 0 \<longleftrightarrow> bit x 1" "x AND VMM_USER \<noteq> 0 \<longleftrightarrow> bit x 2"
  "x AND VMM_EXEC \<noteq> 0 \<longleftrightarrow> bit x 9" "x AND VMM_SHARED \<noteq> 0 \<longleftrightarrow> bit x 10" "x AND VMM_COW \<noteq> 0 \<longleftrightarrow> bit x 11"
  unfolding vmm_flag_exp and_exp_eq_0_iff_not_bit by simp_all

lemma word32_exp_bit: "m < 32 \<Longrightarrow> bit (2 ^ m :: u32) n \<longleftrightarrow> n = m"
  unfolding bit_exp_iff by (auto simp: possible_bit_def)

lemma vmm_flag_const:
  "bit VMM_WRITABLE n \<longleftrightarrow> n = 1" "bit VMM_USER n \<longleftrightarrow> n = 2" "bit VMM_EXEC n \<longleftrightarrow> n = 9"
  "bit VMM_SHARED n \<longleftrightarrow> n = 10" "bit VMM_COW n \<longleftrightarrow> n = 11"
  unfolding vmm_flag_exp by (rule word32_exp_bit, simp)+

text \<open>An entry under a new protection: a present one keeps its frame and its shared and copy-on-write
  marks, is accessible exactly as asked, and writable exactly when asked and not copy-on-write; an
  evicted one is left.\<close>

definition reprotected :: "u32 \<Rightarrow> pte option \<Rightarrow> pte option \<Rightarrow> bool" where
  "reprotected vf e e' \<longleftrightarrow>
     (case e of
        Some (Present f fl) \<Rightarrow> (\<exists>fl'. e' = Some (Present f fl') \<and>
          (fl' AND VMM_USER \<noteq> 0 \<longleftrightarrow> vf AND VMM_USER \<noteq> 0) \<and>
          (fl' AND VMM_EXEC \<noteq> 0 \<longleftrightarrow> vf AND VMM_EXEC \<noteq> 0) \<and>
          (fl' AND VMM_WRITABLE \<noteq> 0 \<longleftrightarrow> vf AND VMM_WRITABLE \<noteq> 0 \<and> fl AND VMM_COW = 0) \<and>
          (fl' AND VMM_SHARED \<noteq> 0 \<longleftrightarrow> fl AND VMM_SHARED \<noteq> 0) \<and> (fl' AND VMM_COW \<noteq> 0 \<longleftrightarrow> fl AND VMM_COW \<noteq> 0))
      | _ \<Rightarrow> e' = e)"

lemma protect_entry:
  "reprotected vf (mm_pte m va) (mm_pte (vmm_space_protect m va vf) va)"
proof (cases "mm_pte m va")
  case None
  then show ?thesis by (simp add: reprotected_def vmm_space_protect_def)
next
  case (Some e)
  show ?thesis
  proof (cases e)
    case (Present f fl)
    have c: "fl AND VMM_COW = 0 \<longleftrightarrow> \<not> bit fl 11" using vmm_flag_bits(5) by blast
    show ?thesis
      by (simp add: reprotected_def vmm_space_protect_def Some Present Let_def vmm_flag_bits c bit_simps vmm_flag_const)
  next
    case (Evicted sl)
    with Some show ?thesis by (simp add: reprotected_def vmm_space_protect_def)
  qed
qed

lemma protect_other: "p \<noteq> va \<Longrightarrow> mm_pte (vmm_space_protect m va vf) p = mm_pte m p"
  by (auto simp: vmm_space_protect_def Let_def split: option.splits pte.splits)

lemma protect_pages:
  "distinct ps \<Longrightarrow> (if p \<in> set ps then reprotected vf (mm_pte m p) (mm_pte (fold (\<lambda>va m. vmm_space_protect m va vf) ps m) p)
     else mm_pte (fold (\<lambda>va m. vmm_space_protect m va vf) ps m) p = mm_pte m p)"
proof (induction ps arbitrary: m)
  case (Cons q ps)
  have I: "if p \<in> set ps then reprotected vf (mm_pte (vmm_space_protect m q vf) p)
       (mm_pte (fold (\<lambda>va m. vmm_space_protect m va vf) ps (vmm_space_protect m q vf)) p)
     else mm_pte (fold (\<lambda>va m. vmm_space_protect m va vf) ps (vmm_space_protect m q vf)) p = mm_pte (vmm_space_protect m q vf) p"
    using Cons by (metis distinct.simps(2))
  show ?case
  proof (cases "p = q")
    case True
    then show ?thesis using I Cons.prems protect_entry [of vf m q] by simp
  next
    case False
    then show ?thesis using I protect_other [OF False, of m vf] by (cases "p \<in> set ps") simp_all
  qed
qed simp

definition mprotect_outcome :: "vma_set \<Rightarrow> mm \<Rightarrow> u64 \<Rightarrow> u64 \<Rightarrow> u32 \<Rightarrow> int \<Rightarrow> vma_set \<Rightarrow> mm \<Rightarrow> bool" where
  "mprotect_outcome s m a b vf r s' m' \<longleftrightarrow> vs_sorted (vs_list s') \<and>
     (if r = 0 then
        (\<forall>p. vabs (vs_list s') p = (if a \<le> p \<and> p < b then map_option (\<lambda>(f, k). (vf, k)) (vabs (vs_list s) p)
                                    else vabs (vs_list s) p)) \<and>
        (\<forall>p. if a \<le> p \<and> p < b \<and> p AND (PG - 1) = 0 then reprotected vf (mm_pte m p) (mm_pte m' p)
             else mm_pte m' p = mm_pte m p)
      else r < 0 \<and> vabs (vs_list s') = vabs (vs_list s) \<and> m' = m)"


section \<open>Faults\<close>

definition fault_outcome :: "vma_set \<Rightarrow> mm \<Rightarrow> u64 \<Rightarrow> bool \<Rightarrow> bool \<times> vma_set \<times> mm \<Rightarrow> bool" where
  "fault_outcome s m page w res \<longleftrightarrow> (case res of (ok, s', m') \<Rightarrow>
     vs_list s' = vs_list s \<and>
     (\<forall>p. p \<noteq> page \<longrightarrow> mm_pte m' p = mm_pte m p) \<and>
     (if ok then
        (\<exists>vf k f fl. vabs (vs_list s) page = Some (vf, k) \<and> fst k \<noteq> VMA_EAGER \<and> vf AND VMM_USER \<noteq> 0 \<and>
           (w \<longrightarrow> vf AND VMM_WRITABLE \<noteq> 0) \<and> mm_pte m' page = Some (Present f fl) \<and>
           (mm_pte m page = mm_pte m' page \<or>
            mm_pte m page = None \<and> \<not> mm_kern m page \<and>
            (fl AND VMM_WRITABLE \<noteq> 0 \<longrightarrow> vf AND VMM_WRITABLE \<noteq> 0 \<and> fst k = VMA_ANON)))
      else mm_pte m' page = mm_pte m page))"

lemma map_entry:
  "vmm_space_map env m va f fl = Some m' \<Longrightarrow>
     mm_pte m' = (mm_pte m)(va \<mapsto> Present f (if fl AND VMM_COW \<noteq> 0 then fl AND NOT VMM_WRITABLE else fl)) \<and>
     (fl AND VMM_USER \<noteq> 0 \<longrightarrow> \<not> mm_kern m va)"
  by (auto simp: vmm_space_map_def Let_def split: if_splits)

lemma cow_read_only: "((x AND NOT VMM_WRITABLE) OR VMM_COW) AND VMM_COW \<noteq> 0"
    "((x AND NOT VMM_WRITABLE) OR VMM_COW) AND VMM_USER \<noteq> 0 \<longleftrightarrow> x AND VMM_USER \<noteq> 0"
    "(y AND NOT VMM_WRITABLE) AND VMM_WRITABLE = 0"
proof -
  show "((x AND NOT VMM_WRITABLE) OR VMM_COW) AND VMM_COW \<noteq> 0"
    unfolding vmm_flag_bits by (simp add: bit_simps vmm_flag_const)
  show "((x AND NOT VMM_WRITABLE) OR VMM_COW) AND VMM_USER \<noteq> 0 \<longleftrightarrow> x AND VMM_USER \<noteq> 0"
    unfolding vmm_flag_bits by (simp add: bit_simps vmm_flag_const)
  show "(y AND NOT VMM_WRITABLE) AND VMM_WRITABLE = 0"
    using vmm_flag_bits(1) [of "y AND NOT VMM_WRITABLE"] by (auto simp: bit_simps vmm_flag_const)
qed

lemma fault_refused: "mm_pte m' = mm_pte m \<Longrightarrow> fault_outcome s m page w (False, s, m')"
  by (simp add: fault_outcome_def)

text \<open>The part of a fault that fills the hole, for the range \<open>v\<close> the page lies in.\<close>

lemma fault_filled:
  assumes v: "vfind (vs_list s) page = Some v" and k: "v_kind v \<noteq> VMA_EAGER" and u: "v_vf v AND VMM_USER \<noteq> 0"
    and w: "w \<Longrightarrow> v_vf v AND VMM_WRITABLE \<noteq> 0" and hole: "mm_pte m page = None"
    and fl: "fl = (if v_kind v = VMA_ANON then v_vf v else (v_vf v AND NOT VMM_WRITABLE) OR VMM_COW)"
    and mp: "vmm_space_map env m page fr fl = Some m'" and s': "vs_list s' = vs_list s"
  shows "fault_outcome s m page w (True, s', m')"
proof -
  let ?fl = "if fl AND VMM_COW \<noteq> 0 then fl AND NOT VMM_WRITABLE else fl"
  have user: "fl AND VMM_USER \<noteq> 0" using u fl cow_read_only(2) by auto
  have m': "mm_pte m' = (mm_pte m)(page \<mapsto> Present fr ?fl)" and kern: "\<not> mm_kern m page"
    using map_entry [OF mp] user by auto
  have wr: "?fl AND VMM_WRITABLE \<noteq> 0 \<Longrightarrow> v_vf v AND VMM_WRITABLE \<noteq> 0 \<and> v_kind v = VMA_ANON"
    using fl cow_read_only by (auto split: if_splits)
  show ?thesis
    using v k u w hole s' m' kern wr by (auto simp: fault_outcome_def vabs_def vattr_def)
qed

lemma fault_no_hole:
  assumes "can_sleep" and "vfind (vs_list s) page = Some v" and "page = va AND NOT (PG - 1)" and "mm_pte m page = Some e"
    and "\<not> (v_kind v = VMA_EAGER \<or> v_vf v AND VMM_USER = 0 \<or> w \<and> v_vf v AND VMM_WRITABLE = 0)"
  shows "fault_outcome s m page w (vma_fault env s m va w can_sleep)"
  using assms
  by (cases e) (auto simp: vma_fault_def fault_locked_def vmm_space_probe_def fault_outcome_def vabs_def vattr_def)

lemma fault_hole:
  assumes c: "can_sleep" and v: "vfind (vs_list s) page = Some v" and p: "page = va AND NOT (PG - 1)" and hole: "mm_pte m page = None"
    and ok: "\<not> (v_kind v = VMA_EAGER \<or> v_vf v AND VMM_USER = 0 \<or> w \<and> v_vf v AND VMM_WRITABLE = 0)"
  shows "fault_outcome s m page w (vma_fault env s m va w can_sleep)"
proof -
  have k: "v_kind v \<noteq> VMA_EAGER" and u: "v_vf v AND VMM_USER \<noteq> 0"
    and w: "w \<Longrightarrow> v_vf v AND VMM_WRITABLE \<noteq> 0" using ok by auto
  note F = fault_filled [OF v k u w hole]
  show ?thesis
    using ok v hole c p F
    by (cases "v_kind v = VMA_ANON")
      (auto simp: vma_fault_def fault_locked_def vmm_space_probe_def Let_def fault_refused release_frame_def
        cow_ref_drop_def split: option.splits)
qed


section \<open>Arithmetic at the end of the address space\<close>

lemma round_up_last: "round_up (- 1) = 0"
  by (simp add: round_up_def PG_def)


section \<open>Witnesses\<close>

definition demo_range :: vma where
  "demo_range = \<lparr>v_start = 0x48000000, v_end = 0x48004000, v_vf = VMM_USER OR VMM_WRITABLE, v_kind = VMA_ANON,
     v_file = 0, v_off = 0\<rparr>"

definition demo_set :: vma_set where
  "demo_set = \<lparr>vs_list = [demo_range], vs_faults = 0, vs_brk_start = 0x40010000, vs_brk_cur = 0x40010000\<rparr>"

definition demo_mm :: mm where
  "demo_mm = \<lparr>mm_pte = (\<lambda>va. if va = 0x48001000 then Some (Present 0x7000 (VMM_USER OR VMM_WRITABLE)) else None),
     mm_kern = (\<lambda>va. False), mm_cow = (\<lambda>f. 0), mm_freed = []\<rparr>"

definition demo_vma_env :: vma_env where
  "demo_vma_env = \<lparr>ve_split1 = True, ve_split2 = True, ve_new = True, ve_bounce = True, ve_fd = (\<lambda>fd. None), ve_pcache = False,
     ve_table = (\<lambda>va. True), ve_frame = (\<lambda>i. 0x9000), ve_pcache_frame = (\<lambda>f i. None)\<rparr>"

lemmas demo_defs = demo_range_def demo_set_def demo_mm_def demo_vma_env_def

lemmas page_defs = vmm_space_range_state_def page_list_def split_at_def remove_range_def unmap_pages_def unmap_page_def
  vmm_space_probe_def vmm_space_protect_def vmm_space_unmap_def release_frame_def round_up_def PG_def vmm_user_min_def
  vmm_user_base_def vmm_user_limit_def VMM_USER_def VMM_WRITABLE_def VMM_EXEC_def VMM_SHARED_def VMM_COW_def

lemma demo_sorted: "vs_sorted (vs_list demo_set)"
  by (simp add: demo_set_def demo_range_def)


theorem vma_munmap_correct_witness:
  "\<exists>s' m'. vma_munmap demo_vma_env demo_set demo_mm 0x48001000 0x1000 = (0, s', m') \<and> mm_freed m' = [0x7000] \<and>
     munmap_outcome demo_set demo_mm 0x48001000 (0x48001000 + round_up 0x1000) 0 s' m'"
proof -
  obtain r s' m' where r: "vma_munmap demo_vma_env demo_set demo_mm 0x48001000 0x1000 = (r, s', m')"
    by (metis prod_cases3)
  have "fst (vma_munmap demo_vma_env demo_set demo_mm 0x48001000 0x1000) = 0"
    "mm_freed (snd (snd (vma_munmap demo_vma_env demo_set demo_mm 0x48001000 0x1000))) = [0x7000]"
    by (simp_all add: vma_munmap_def Let_def demo_defs page_defs)
  with r vma_munmap_correct [OF demo_sorted r] show ?thesis by auto
qed



end
