(* ===== verification/Fifo.thy ===== *)
theory Fifo
  imports Dos_Prelude "HOL-Library.Multiset"
begin

text \<open>
  Named pipes, \<open>kernel/core/fifo.c\<close>: the pipe of one inode, a ring of \<open>FIFO_CAP\<close> bytes with a read
  cursor and a count, the reader and writer counts, and the open generations.  Each definition is one
  section the source runs under the pipe's wait-queue lock (or under \<open>g_fifo_lock\<close>); a loop that
  parks returns \<open>Park\<close> with what it waits for and starts again when it is woken.
\<close>

section \<open>State\<close>

definition FIFO_CAP :: u32 where "FIFO_CAP = 65536"
definition PIPE_BUF :: nat where "PIPE_BUF = 4096"
definition FIFO_R :: u32 where "FIFO_R = 1"
definition FIFO_W :: u32 where "FIFO_W = 2"
definition POLLIN :: u32 where "POLLIN = 0x001"
definition POLLOUT :: u32 where "POLLOUT = 0x004"
definition POLLERR :: u32 where "POLLERR = 0x008"
definition POLLHUP :: u32 where "POLLHUP = 0x010"

record fifo =
  fi_buf :: "u8 list"
  fi_head :: u32
  fi_count :: u32
  fi_readers :: int
  fi_writers :: int
  fi_rgen :: u32
  fi_wgen :: u32
  fi_users :: int

text \<open>What an open file description keeps of its end.\<close>

record fifo_end =
  fe_role :: u32
  fe_wseen :: u32

definition is_r :: "u32 \<Rightarrow> bool" where "is_r role \<longleftrightarrow> role AND FIFO_R \<noteq> 0"
definition is_w :: "u32 \<Rightarrow> bool" where "is_w role \<longleftrightarrow> role AND FIFO_W \<noteq> 0"

text \<open>A call parked on the queue: an open that waits for the other end with the generations it saw, a
  read, or a write of \<open>n\<close> bytes of which some remain.\<close>

datatype fifo_wait = WOpen u32 u32 u32 | WRead | WWrite nat

datatype 'a fifo_result = Ret 'a | Park fifo_wait

section \<open>Opening and closing\<close>

definition fifo_new :: fifo where
  "fifo_new = \<lparr>fi_buf = replicate (unat FIFO_CAP) 0, fi_head = 0, fi_count = 0, fi_readers = 0, fi_writers = 0,
     fi_rgen = 0, fi_wgen = 0, fi_users = 0\<rparr>"

text \<open>Find the inode's pipe or make one; \<open>alloc\<close> is whether the two allocations succeed.\<close>

definition attach_get :: "bool \<Rightarrow> fifo option \<Rightarrow> (int + fifo)" where
  "attach_get alloc link =
     (case link of
        Some p \<Rightarrow> Inr (p\<lparr>fi_users := fi_users p + 1\<rparr>)
      | None \<Rightarrow> if alloc then Inr (fifo_new\<lparr>fi_users := 1\<rparr>) else Inl ENOMEM)"

text \<open>Join an end: refuse a lone non-blocking writer, else count it and note the generations.\<close>

definition attach_join :: "fifo \<Rightarrow> u32 \<Rightarrow> bool \<Rightarrow> int + (fifo \<times> u32 \<times> u32)" where
  "attach_join p role nonblock =
     (if is_w role \<and> \<not> is_r role \<and> nonblock \<and> fi_readers p = 0 then Inl ENXIO
      else let p1 = (if is_r role then p\<lparr>fi_readers := fi_readers p + 1, fi_rgen := fi_rgen p + 1\<rparr> else p);
               p2 = (if is_w role then p1\<lparr>fi_writers := fi_writers p1 + 1, fi_wgen := fi_wgen p1 + 1\<rparr> else p1)
           in Inr (p2, fi_rgen p2, fi_wgen p2))"

text \<open>The wait for the other end, one look at the condition: it ends, is killed, or parks.\<close>

definition open_waits :: "fifo \<Rightarrow> u32 \<Rightarrow> bool \<Rightarrow> u32 \<Rightarrow> u32 \<Rightarrow> bool" where
  "open_waits p role nonblock r_seen w_seen \<longleftrightarrow>
     (if \<not> nonblock \<and> role = FIFO_R then fi_writers p = 0 \<and> fi_wgen p = w_seen
      else if \<not> nonblock \<and> role = FIFO_W then fi_readers p = 0 \<and> fi_rgen p = r_seen
      else False)"

definition attach_wait :: "fifo \<Rightarrow> u32 \<Rightarrow> bool \<Rightarrow> u32 \<Rightarrow> u32 \<Rightarrow> bool \<Rightarrow> (int + fifo_end) fifo_result" where
  "attach_wait p role nonblock r_seen w_seen stop =
     (if open_waits p role nonblock r_seen w_seen then
        (if stop then Ret (Inl EINTR) else Park (WOpen role r_seen w_seen))
      else Ret (Inr \<lparr>fe_role = role, fe_wseen = (if role = FIFO_R \<and> nonblock then w_seen else w_seen - 1)\<rparr>))"

text \<open>Leaving: the end's counts first, then the user count; the pipe goes with its last user.\<close>

definition put_role :: "fifo \<Rightarrow> u32 \<Rightarrow> fifo" where
  "put_role p role =
     (let p1 = (if is_r role then p\<lparr>fi_readers := fi_readers p - 1\<rparr> else p)
      in if is_w role then p1\<lparr>fi_writers := fi_writers p1 - 1\<rparr> else p1)"

definition put_user :: "fifo \<Rightarrow> fifo option" where
  "put_user p = (let p1 = p\<lparr>fi_users := fi_users p - 1\<rparr> in if fi_users p1 = 0 then None else Some p1)"

section \<open>Reading and writing\<close>

definition ring_at :: "fifo \<Rightarrow> u32 \<Rightarrow> u8" where
  "ring_at p i = fi_buf p ! unat (i mod FIFO_CAP)"

definition ring_get :: "fifo \<Rightarrow> nat \<Rightarrow> u8 list \<times> fifo" where
  "ring_get p n =
     (let k = (if unat (fi_count p) < n then fi_count p else of_nat n)
      in (map (\<lambda>i. ring_at p (fi_head p + of_nat i)) [0..<unat k],
          p\<lparr>fi_head := (fi_head p + k) mod FIFO_CAP, fi_count := fi_count p - k\<rparr>))"

definition fifo_read :: "fifo \<Rightarrow> u32 \<Rightarrow> nat \<Rightarrow> bool \<Rightarrow> bool \<Rightarrow> (int \<times> u8 list) fifo_result \<times> fifo" where
  "fifo_read p role n block stop =
     (if \<not> is_r role then (Ret (EBADF, []), p)
      else if n = 0 then (Ret (0, []), p)
      else if fi_count p \<noteq> 0 then (case ring_get p n of (bs, p') \<Rightarrow> (Ret (int (length bs), bs), p'))
      else if fi_writers p = 0 then (Ret (0, []), p)
      else if \<not> block then (Ret (EAGAIN, []), p)
      else if stop then (Ret (EINTR, []), p)
      else (Park WRead, p))"

fun ring_put :: "u8 list \<Rightarrow> u32 \<Rightarrow> u8 list \<Rightarrow> u8 list" where
  "ring_put buf tail [] = buf"
| "ring_put buf tail (b # bs) = ring_put (buf[unat (tail mod FIFO_CAP) := b]) (tail + 1) bs"

text \<open>One pass of the write loop that has room: the bytes left over and the pipe.\<close>

definition write_some :: "fifo \<Rightarrow> u8 list \<Rightarrow> u8 list \<times> fifo" where
  "write_some p bs =
     (let room = FIFO_CAP - fi_count p;
          k = (if length bs < unat room then of_nat (length bs) else room);
          tail = (fi_head p + fi_count p) mod FIFO_CAP
      in (drop (unat k) bs,
          p\<lparr>fi_buf := ring_put (fi_buf p) tail (take (unat k) bs), fi_count := fi_count p + k\<rparr>))"

definition write_wants :: "nat \<Rightarrow> nat" where
  "write_wants n = (if n \<le> PIPE_BUF then n else 1)"

definition write_room :: "fifo \<Rightarrow> nat \<Rightarrow> bool" where
  "write_room p n \<longleftrightarrow> unat (FIFO_CAP - fi_count p) \<ge> write_wants n \<and> FIFO_CAP - fi_count p > 0"

lemma write_some_shorter:
  assumes "(rest', p') = write_some p rest" and "rest \<noteq> []" and "0 < FIFO_CAP - fi_count p"
  shows "length rest' < length rest"
proof -
  have "unat (of_nat (length rest) :: u32) = length rest" if "length rest < unat (FIFO_CAP - fi_count p)"
    using that unsigned_less [of "FIFO_CAP - fi_count p", where ?'a = nat] by (intro unat_of_nat_lt) simp
  moreover have "0 < unat (FIFO_CAP - fi_count p)" using assms(3) by (simp add: word_less_nat_alt)
  ultimately show ?thesis using assms(1,2) by (auto simp: write_some_def Let_def split: if_splits)
qed

text \<open>The loop, from the bytes \<open>rest\<close> still to write of \<open>n\<close>; it returns how many were written, or parks
  with the rest.\<close>

function write_loop :: "fifo \<Rightarrow> nat \<Rightarrow> u8 list \<Rightarrow> bool \<Rightarrow> bool \<Rightarrow> (int fifo_result \<times> u8 list) \<times> fifo" where
  "write_loop p n rest block stop =
     (let done = n - length rest in
      if rest = [] then ((Ret (int done), rest), p)
      else if fi_readers p = 0 then ((Ret (if done \<noteq> 0 then int done else EPIPE), rest), p)
      else if write_room p n then (case write_some p rest of (rest', p') \<Rightarrow> write_loop p' n rest' block stop)
      else if \<not> block then ((Ret (if done \<noteq> 0 then int done else EAGAIN), rest), p)
      else if stop then ((Ret (if done \<noteq> 0 then int done else EINTR), rest), p)
      else ((Park (WWrite n), rest), p))"
  by pat_completeness auto
termination
  by (relation "measure (\<lambda>(p, n, rest, block, stop). length rest)") (auto simp: write_room_def dest: write_some_shorter)

declare write_loop.simps [simp del]

definition fifo_write :: "fifo \<Rightarrow> u32 \<Rightarrow> nat \<Rightarrow> u8 list \<Rightarrow> bool \<Rightarrow> bool \<Rightarrow> (int fifo_result \<times> u8 list) \<times> fifo" where
  "fifo_write p role n rest block stop =
     (if \<not> is_w role then ((Ret EBADF, rest), p)
      else if n = 0 then ((Ret 0, rest), p)
      else write_loop p n rest block stop)"

section \<open>Polling\<close>

definition fifo_readiness :: "fifo option \<Rightarrow> fifo_end \<Rightarrow> u32" where
  "fifo_readiness po en =
     (case po of
        None \<Rightarrow> POLLERR
      | Some p \<Rightarrow>
          (if is_r (fe_role en) then
             (if fi_count p \<noteq> 0 then POLLIN else 0) OR
             (if fi_writers p = 0 \<and> fi_wgen p \<noteq> fe_wseen en then POLLHUP else 0) else 0) OR
          (if is_w (fe_role en) then
             (if unat (FIFO_CAP - fi_count p) \<ge> PIPE_BUF then POLLOUT else 0) OR
             (if fi_readers p = 0 then POLLERR else 0) else 0))"

end
