(* ===== verification/Fifo_Spec.thy ===== *)
theory Fifo_Spec
  imports Fifo
begin

text \<open>
  The ring of a pipe refines a byte queue (the locale \<open>byte_queue\<close>, whose clients get every byte once
  and in order); every interleaving of opens, closes, reads and writes keeps the counts exact and
  leaves no call parked whose wait is over; small writes are atomic.
\<close>

section \<open>Byte queues\<close>

datatype queue_op = QGet nat | QPut "u8 list"

text \<open>A sequence of calls against a queue: the bytes it accepted, the bytes it gave, the queue left.\<close>

primrec queue_run :: "('q \<Rightarrow> nat \<Rightarrow> u8 list \<times> 'q) \<Rightarrow> ('q \<Rightarrow> u8 list \<Rightarrow> u8 list \<times> 'q) \<Rightarrow> queue_op list \<Rightarrow> 'q \<Rightarrow>
    u8 list \<times> u8 list \<times> 'q" where
  "queue_run get put [] q = ([], [], q)"
| "queue_run get put (c # cs) q =
     (case c of
        QGet n \<Rightarrow> (case get q n of (bs, q') \<Rightarrow>
          case queue_run get put cs q' of (i, out, r) \<Rightarrow> (i, bs @ out, r))
      | QPut bs \<Rightarrow> (case put q bs of (rest, q') \<Rightarrow>
          case queue_run get put cs q' of (i, out, r) \<Rightarrow> (take (length bs - length rest) bs @ i, out, r)))"

locale byte_queue =
  fixes ok :: "'q \<Rightarrow> bool"
    and contents :: "'q \<Rightarrow> u8 list"
    and get :: "'q \<Rightarrow> nat \<Rightarrow> u8 list \<times> 'q"
    and put :: "'q \<Rightarrow> u8 list \<Rightarrow> u8 list \<times> 'q"
  assumes get_law: "ok q \<Longrightarrow> get q n = (bs, q') \<Longrightarrow> ok q' \<and> bs = take n (contents q) \<and> contents q' = drop n (contents q)"
    and put_law: "ok q \<Longrightarrow> put q bs = (rest, q') \<Longrightarrow>
      ok q' \<and> (\<exists>k. rest = drop k bs \<and> contents q' = contents q @ take k bs)"
begin

lemma put_prefix:
  assumes "ok q" and "put q bs = (rest, q')"
  shows "ok q'" and "contents q' = contents q @ take (length bs - length rest) bs"
proof -
  obtain k where k: "ok q'" "rest = drop k bs" "contents q' = contents q @ take k bs"
    using put_law [OF assms] by blast
  then have "take (length bs - length rest) bs = take k bs" by (cases "k \<le> length bs") simp_all
  with k show "ok q'" and "contents q' = contents q @ take (length bs - length rest) bs" by simp_all
qed

text \<open>What was in the queue, then what was accepted, is what was given, then what is left.\<close>

lemma stream:
  "ok q \<Longrightarrow> queue_run get put cs q = (i, out, r) \<Longrightarrow> ok r \<and> contents q @ i = out @ contents r"
proof (induction cs arbitrary: q i out r)
  case (Cons c cs)
  show ?case
  proof (cases c)
    case (QGet n)
    obtain bs q' where g: "get q n = (bs, q')" by fastforce
    obtain i' out' r' where t: "queue_run get put cs q' = (i', out', r')" by (metis prod_cases3)
    have G: "ok q'" "bs = take n (contents q)" "contents q' = drop n (contents q)"
      using get_law [OF Cons.prems(1) g] by auto
    have eq: "i = i'" "out = bs @ out'" "r = r'" using Cons.prems(2) QGet g t by auto
    have "ok r \<and> contents q' @ i' = out' @ contents r" using Cons.IH [OF G(1) t] eq by simp
    moreover have "contents q @ i = bs @ contents q' @ i'" using G eq by (simp flip: append_assoc)
    ultimately show ?thesis using eq by simp
  next
    case (QPut bs)
    obtain rest q' where g: "put q bs = (rest, q')" by fastforce
    obtain i' out' r' where t: "queue_run get put cs q' = (i', out', r')" by (metis prod_cases3)
    note P = put_prefix [OF Cons.prems(1) g]
    show ?thesis using Cons.prems(2) Cons.IH [OF P(1) t] P(2) QPut g t by auto
  qed
qed auto

end

section \<open>The ring\<close>

definition ring_ok :: "fifo \<Rightarrow> bool" where
  "ring_ok p \<longleftrightarrow> length (fi_buf p) = 65536 \<and> unat (fi_head p) < 65536 \<and> unat (fi_count p) \<le> 65536"

definition contents :: "fifo \<Rightarrow> u8 list" where
  "contents p = map (\<lambda>i. fi_buf p ! ((unat (fi_head p) + i) mod 65536)) [0..<unat (fi_count p)]"

lemma length_contents [simp]: "length (contents p) = unat (fi_count p)"
  by (simp add: contents_def)

lemma contents_nth: "i < unat (fi_count p) \<Longrightarrow> contents p ! i = fi_buf p ! ((unat (fi_head p) + i) mod 65536)"
  by (simp add: contents_def)

lemma unat_cap [simp]: "unat FIFO_CAP = 65536"
  by (simp add: FIFO_CAP_def)

lemma unat_mod_cap: "unat (x mod FIFO_CAP) = unat x mod 65536"
  by (simp add: unat_mod)

lemma ring_at_nat:
  "ring_ok p \<Longrightarrow> i \<le> 65536 \<Longrightarrow> ring_at p (fi_head p + of_nat i) = fi_buf p ! ((unat (fi_head p) + i) mod 65536)"
proof -
  assume a: "ring_ok p" "i \<le> 65536"
  have "unat (of_nat i :: u32) = i" using a by (intro unat_of_nat_lt) simp
  then have "unat (fi_head p + of_nat i) = unat (fi_head p) + i"
    using a by (subst unat_add_lt) (simp_all add: ring_ok_def)
  then show ?thesis by (simp add: ring_at_def unat_mod_cap)
qed

lemma ring_get_ok:
  assumes r: "ring_ok p" and g: "ring_get p n = (bs, p')"
  shows "ring_ok p'" and "bs = take n (contents p)" and "contents p' = drop n (contents p)"
    and "p' = p\<lparr>fi_head := fi_head p', fi_count := fi_count p'\<rparr>"
proof -
  define k :: u32 where "k = (if unat (fi_count p) < n then fi_count p else of_nat n)"
  have c: "unat (fi_count p) \<le> 65536" "unat (fi_head p) < 65536" using r by (auto simp: ring_ok_def)
  have k: "unat k = min n (unat (fi_count p))"
  proof (cases "unat (fi_count p) < n")
    case False
    then have "unat (of_nat n :: u32) = n" using c by (intro unat_of_nat_lt) simp
    with False show ?thesis by (simp add: k_def)
  qed (simp add: k_def)
  have e: "bs = map (\<lambda>i. ring_at p (fi_head p + of_nat i)) [0..<unat k]"
    "p' = p\<lparr>fi_head := (fi_head p + k) mod FIFO_CAP, fi_count := fi_count p - k\<rparr>"
    using g by (auto simp: ring_get_def Let_def k_def)
  have kc: "k \<le> fi_count p" using k by (simp add: word_le_nat_alt)
  have cnt: "unat (fi_count p') = unat (fi_count p) - unat k" using e(2) kc by (simp add: unat_sub_le)
  have "unat (fi_head p + k) = unat (fi_head p) + unat k" using c k by (subst unat_add_lt) simp_all
  then have hd: "unat (fi_head p') = (unat (fi_head p) + unat k) mod 65536" using e(2) by (simp add: unat_mod_cap)
  show "ring_ok p'" using r e(2) cnt hd by (auto simp: ring_ok_def)
  have "bs ! i = take n (contents p) ! i" if "i < unat k" for i
    using that ring_at_nat [OF r, of i] k c e(1) by (simp add: contents_def)
  then show "bs = take n (contents p)" using k e(1) by (intro nth_equalityI) auto
  have "contents p' ! i = drop n (contents p) ! i" if "i < unat (fi_count p) - unat k" for i
  proof -
    have n: "unat k = n" using that k by (simp add: min_def split: if_splits)
    then have "contents p' ! i = fi_buf p ! (((unat (fi_head p) + n) mod 65536 + i) mod 65536)"
      using that cnt hd e(2) by (simp add: contents_nth)
    also have "\<dots> = fi_buf p ! ((unat (fi_head p) + (n + i)) mod 65536)"
      by (simp only: mod_add_left_eq add.assoc)
    finally show ?thesis using that n by (simp add: contents_nth)
  qed
  then show "contents p' = drop n (contents p)" using k cnt by (intro nth_equalityI) auto
  show "p' = p\<lparr>fi_head := fi_head p', fi_count := fi_count p'\<rparr>" using e(2) by simp
qed

lemma ring_put_nth:
  "length buf = 65536 \<Longrightarrow> length bs \<le> 65536 \<Longrightarrow> unat tail + length bs < 2 ^ 32 \<Longrightarrow> i < 65536 \<Longrightarrow>
   ring_put buf tail bs ! ((unat tail + i) mod 65536) =
     (if i < length bs then bs ! i else buf ! ((unat tail + i) mod 65536))"
proof (induction bs arbitrary: buf tail i)
  case (Cons b bs)
  let ?t = "unat tail mod 65536"
  have t1: "unat (tail + 1) = unat tail + 1" using Cons.prems by (subst unat_add_lt) simp_all
  have buf': "length (buf[?t := b]) = 65536" using Cons.prems by simp
  note IH = Cons.IH [OF buf', of "tail + 1"]
  show ?case
  proof (cases i)
    case 0
    have "(unat (tail + 1) + 65535) mod 65536 = ?t" unfolding t1 by simp
    then show ?thesis using IH [of 65535] Cons.prems t1 0 by (simp add: unat_mod_cap)
  next
    case (Suc j)
    have "(unat tail + i) mod 65536 \<noteq> ?t" using mod_shift_neq Suc Cons.prems(4) by blast
    then show ?thesis using IH [of j] Cons.prems t1 Suc by (simp add: unat_mod_cap)
  qed
qed simp

lemma length_ring_put [simp]: "length (ring_put buf tail bs) = length buf"
  by (induction bs arbitrary: buf tail) auto

lemma write_some_ok:
  assumes r: "ring_ok p" and g: "write_some p bs = (rest, p')"
  shows "ring_ok p'" and "\<exists>k. rest = drop k bs \<and> contents p' = contents p @ take k bs \<and> k = min (length bs) (65536 - unat (fi_count p))"
    and "p' = p\<lparr>fi_buf := fi_buf p', fi_count := fi_count p'\<rparr>"
proof -
  define k :: u32 where "k = (if length bs < unat (FIFO_CAP - fi_count p) then of_nat (length bs) else FIFO_CAP - fi_count p)"
  have c: "unat (fi_count p) \<le> 65536" "unat (fi_head p) < 65536" "length (fi_buf p) = 65536" using r by (auto simp: ring_ok_def)
  have room: "unat (FIFO_CAP - fi_count p) = 65536 - unat (fi_count p)"
    using c by (subst unat_sub_le) (simp_all add: word_le_nat_alt)
  have k: "unat k = min (length bs) (65536 - unat (fi_count p))"
  proof (cases "length bs < unat (FIFO_CAP - fi_count p)")
    case True
    then have "unat (of_nat (length bs) :: u32) = length bs" using room by (intro unat_of_nat_lt) simp
    with True room show ?thesis by (simp add: k_def)
  qed (use room in \<open>simp add: k_def\<close>)
  let ?t = "(fi_head p + fi_count p) mod FIFO_CAP"
  have e: "rest = drop (unat k) bs"
    "p' = p\<lparr>fi_buf := ring_put (fi_buf p) ?t (take (unat k) bs), fi_count := fi_count p + k\<rparr>"
    using g by (auto simp: write_some_def Let_def k_def)
  have cnt: "unat (fi_count p') = unat (fi_count p) + unat k" using e(2) c k by (simp add: unat_add_lt)
  have "unat (fi_head p + fi_count p) = unat (fi_head p) + unat (fi_count p)" using c by (subst unat_add_lt) simp_all
  then have t: "unat ?t = (unat (fi_head p) + unat (fi_count p)) mod 65536" by (simp add: unat_mod_cap)
  have tk: "unat ?t + length (take (unat k) bs) < 2 ^ 32" using t k by simp
  show "ring_ok p'" using r e(2) cnt k by (auto simp: ring_ok_def)
  have "contents p' ! i = (contents p @ take (unat k) bs) ! i" if i: "i < unat (fi_count p) + unat k" for i
  proof (cases "i < unat (fi_count p)")
    case True
    let ?j = "65536 - unat (fi_count p) + i"
    have j: "(unat ?t + ?j) mod 65536 = (unat (fi_head p) + i) mod 65536"
    proof -
      have "unat (fi_head p) + unat (fi_count p) + ?j = (unat (fi_head p) + i) + 65536" using c True by simp
      then show ?thesis unfolding t mod_add_left_eq by (simp only: mod_add_self2)
    qed
    have nl: "\<not> ?j < length (take (unat k) bs)" "?j < 65536" using k True c by auto
    show ?thesis
      using ring_put_nth [OF c(3) _ tk nl(2), unfolded j] nl(1) k True i cnt e(2) by (simp add: contents_nth nth_append)
  next
    case False
    let ?j = "i - unat (fi_count p)"
    have j: "(unat ?t + ?j) mod 65536 = (unat (fi_head p) + i) mod 65536"
      unfolding t mod_add_left_eq using False by simp
    have nl: "?j < length (take (unat k) bs)" "?j < 65536" using k False i by auto
    show ?thesis
      using ring_put_nth [OF c(3) _ tk nl(2), unfolded j] nl(1) k False i cnt e(2) by (simp add: contents_nth nth_append)
  qed
  then have "contents p' = contents p @ take (unat k) bs" using cnt k by (intro nth_equalityI) auto
  then show "\<exists>k. rest = drop k bs \<and> contents p' = contents p @ take k bs \<and> k = min (length bs) (65536 - unat (fi_count p))"
    using e(1) k by blast
  show "p' = p\<lparr>fi_buf := fi_buf p', fi_count := fi_count p'\<rparr>" using e(2) by simp
qed

interpretation ring: byte_queue ring_ok contents ring_get write_some
proof unfold_locales
  show "ring_ok q' \<and> bs = take n (contents q) \<and> contents q' = drop n (contents q)"
    if "ring_ok q" "ring_get q n = (bs, q')" for q n bs q'
    using ring_get_ok [OF that] by simp
  show "ring_ok q' \<and> (\<exists>k. rest = drop k bs \<and> contents q' = contents q @ take k bs)"
    if "ring_ok q" "write_some q bs = (rest, q')" for q bs rest q'
    using write_some_ok [OF that] by auto
qed

section \<open>The pipe among its users\<close>

text \<open>The pipe of one inode with all that happens to it: the roles of the attached ends, how many users hold
  it without a role (between the two lock sections of an open or a close), the parked calls, and the
  bytes accepted and delivered since the pipe was made.\<close>

record fsys =
  fs_pipe :: "fifo option"
  fs_ends :: "u32 multiset"
  fs_busy :: nat
  fs_parked :: "fifo_wait set"
  fs_in :: "u8 list"
  fs_out :: "u8 list"

definition fsys_init :: fsys where
  "fsys_init = \<lparr>fs_pipe = None, fs_ends = {#}, fs_busy = 0, fs_parked = {}, fs_in = [], fs_out = []\<rparr>"

text \<open>The parked calls after a section that returned \<open>r\<close>; \<open>woke\<close> is whether it called \<open>fifo_changed\<close>.\<close>

definition after :: "fifo_wait set \<Rightarrow> bool \<Rightarrow> 'a fifo_result \<Rightarrow> fifo_wait set" where
  "after ws woke r = (let ws1 = (if woke then {} else ws) in case r of Park w \<Rightarrow> insert w ws1 | Ret x \<Rightarrow> ws1)"

inductive fstep :: "fsys \<Rightarrow> fsys \<Rightarrow> bool" where
  f_get: "attach_get alloc (fs_pipe s) = Inr p \<Longrightarrow>
    fstep s (if fs_pipe s = None then s\<lparr>fs_pipe := Some p, fs_busy := fs_busy s + 1, fs_in := [], fs_out := []\<rparr>
             else s\<lparr>fs_pipe := Some p, fs_busy := fs_busy s + 1\<rparr>)"
| f_refused: "fs_pipe s = Some p \<Longrightarrow> 0 < fs_busy s \<Longrightarrow> attach_join p role nb = Inl e \<Longrightarrow> fstep s (s\<lparr>fs_parked := {}\<rparr>)"
| f_join: "fs_pipe s = Some p \<Longrightarrow> 0 < fs_busy s \<Longrightarrow> is_r role \<or> is_w role \<Longrightarrow> attach_join p role nb = Inr (p', rs, ws) \<Longrightarrow>
    fstep s (s\<lparr>fs_pipe := Some p', fs_ends := add_mset role (fs_ends s), fs_busy := fs_busy s - 1, fs_parked := {}\<rparr>)"
| f_open: "fs_pipe s = Some p \<Longrightarrow> role \<in># fs_ends s \<Longrightarrow>
    fstep s (s\<lparr>fs_parked := after (fs_parked s) False (attach_wait p role nb rs ws stop)\<rparr>)"
| f_leave: "fs_pipe s = Some p \<Longrightarrow> role \<in># fs_ends s \<Longrightarrow>
    fstep s (s\<lparr>fs_pipe := Some (put_role p role), fs_ends := fs_ends s - {#role#}, fs_busy := fs_busy s + 1, fs_parked := {}\<rparr>)"
| f_last: "fs_pipe s = Some p \<Longrightarrow> 0 < fs_busy s \<Longrightarrow> fstep s (s\<lparr>fs_pipe := put_user p, fs_busy := fs_busy s - 1\<rparr>)"
| f_read: "fs_pipe s = Some p \<Longrightarrow> role \<in># fs_ends s \<Longrightarrow> fifo_read p role n block stop = (r, p') \<Longrightarrow>
    fstep s (s\<lparr>fs_pipe := Some p', fs_parked := after (fs_parked s) (fi_count p' \<noteq> fi_count p) r,
               fs_out := fs_out s @ (case r of Ret (k, bs) \<Rightarrow> bs | Park w \<Rightarrow> [])\<rparr>)"
| f_write: "fs_pipe s = Some p \<Longrightarrow> role \<in># fs_ends s \<Longrightarrow> length rest \<le> n \<Longrightarrow>
    fifo_write p role n rest block stop = ((r, rest'), p') \<Longrightarrow>
    fstep s (s\<lparr>fs_pipe := Some p', fs_parked := after (fs_parked s) (rest' \<noteq> rest) r,
               fs_in := fs_in s @ take (length rest - length rest') rest\<rparr>)"
| f_wake: "fstep s (s\<lparr>fs_parked := fs_parked s - {w}\<rparr>)"

inductive_cases fstepE: "fstep s t"

inductive freach :: "fsys \<Rightarrow> bool" where
  freach_init: "freach fsys_init"
| freach_step: "freach s \<Longrightarrow> fstep s t \<Longrightarrow> freach t"

text \<open>What a parked call waits for has not happened.\<close>

definition still_waits :: "fifo \<Rightarrow> fifo_wait \<Rightarrow> bool" where
  "still_waits p w \<longleftrightarrow>
     (case w of
        WOpen role rs ws \<Rightarrow> open_waits p role False rs ws
      | WRead \<Rightarrow> fi_count p = 0 \<and> fi_writers p \<noteq> 0
      | WWrite n \<Rightarrow> fi_readers p \<noteq> 0 \<and> \<not> write_room p n)"

definition fsys_ok :: "fsys \<Rightarrow> bool" where
  "fsys_ok s \<longleftrightarrow>
     (case fs_pipe s of
        None \<Rightarrow> fs_ends s = {#} \<and> fs_busy s = 0 \<and> fs_parked s = {}
      | Some p \<Rightarrow> ring_ok p \<and>
          fi_readers p = int (size (filter_mset is_r (fs_ends s))) \<and>
          fi_writers p = int (size (filter_mset is_w (fs_ends s))) \<and>
          fi_users p = int (size (fs_ends s) + fs_busy s) \<and> 0 < size (fs_ends s) + fs_busy s \<and>
          (\<forall>w \<in> fs_parked s. still_waits p w) \<and> (\<forall>w \<in> fs_parked s. fs_ends s \<noteq> {#}) \<and>
          fs_in s = fs_out s @ contents p)"

text \<open>Everything a read or a write leaves alone.\<close>

definition same_ends :: "fifo \<Rightarrow> fifo \<Rightarrow> bool" where
  "same_ends p q \<longleftrightarrow> fi_readers q = fi_readers p \<and> fi_writers q = fi_writers p \<and> fi_users q = fi_users p \<and>
     fi_rgen q = fi_rgen p \<and> fi_wgen q = fi_wgen p"

lemma fifo_read_ok:
  assumes r: "ring_ok p" and g: "fifo_read p role n block stop = (r, p')"
  shows "ring_ok p'" and "same_ends p p'"
    and "contents p = (case r of Ret (k, bs) \<Rightarrow> bs | Park w \<Rightarrow> []) @ contents p'"
    and "fi_count p' = fi_count p \<Longrightarrow> p' = p" and "r = Park w \<Longrightarrow> p' = p \<and> still_waits p w"
proof -
  have A: "ring_ok p' \<and> same_ends p p' \<and> contents p = (case r of Ret (k, bs) \<Rightarrow> bs | Park w \<Rightarrow> []) @ contents p' \<and>
      (fi_count p' = fi_count p \<longrightarrow> p' = p) \<and> (r = Park w \<longrightarrow> p' = p \<and> still_waits p w)"
  proof (cases "is_r role \<and> n \<noteq> 0 \<and> fi_count p \<noteq> 0")
    case True
    obtain bs q where q: "ring_get p n = (bs, q)" by fastforce
    note R = ring_get_ok [OF r q]
    have eq: "r = Ret (int (length bs), bs)" "p' = q" using g True q by (auto simp: fifo_read_def)
    have c: "0 < unat (fi_count p)" using True by (simp add: unat_gt_0)
    have "length (contents q) < length (contents p)" unfolding R(3) using True c by simp
    then have "fi_count q \<noteq> fi_count p" by auto
    moreover have "same_ends p q" by (subst R(4)) (simp add: same_ends_def)
    ultimately show ?thesis using R(1,2,3) eq by simp
  next
    case False
    then have p: "p' = p" "case r of Ret (k, bs) \<Rightarrow> bs = [] | Park v \<Rightarrow> v = WRead \<and> fi_count p = 0 \<and> fi_writers p \<noteq> 0"
      using g by (auto simp: fifo_read_def split: if_splits)
    show ?thesis
    proof (cases r)
      case (Ret x)
      then show ?thesis using p r by (cases x) (simp add: same_ends_def)
    next
      case (Park v)
      then show ?thesis using p r by (auto simp: same_ends_def still_waits_def)
    qed
  qed
  then show "ring_ok p'" and "same_ends p p'"
    and "contents p = (case r of Ret (k, bs) \<Rightarrow> bs | Park w \<Rightarrow> []) @ contents p'"
    and "fi_count p' = fi_count p \<Longrightarrow> p' = p" and "r = Park w \<Longrightarrow> p' = p \<and> still_waits p w" by auto
qed

text \<open>What the write loop did: \<open>k\<close> bytes, and if none, nothing.\<close>

definition wrote :: "fifo \<Rightarrow> nat \<Rightarrow> u8 list \<Rightarrow> int fifo_result \<Rightarrow> u8 list \<Rightarrow> fifo \<Rightarrow> bool" where
  "wrote p n rest r rest' p' \<longleftrightarrow> ring_ok p' \<and> same_ends p p' \<and>
     (\<exists>k. rest' = drop k rest \<and> contents p' = contents p @ take k rest) \<and> (rest' = rest \<longrightarrow> p' = p) \<and>
     (\<forall>w. r = Park w \<longrightarrow> still_waits p' w)"

lemma wrote_same: "ring_ok p \<Longrightarrow> (\<And>w. r = Park w \<Longrightarrow> still_waits p w) \<Longrightarrow> wrote p n rest r rest p"
  by (auto simp: wrote_def same_ends_def intro!: exI [of _ 0])

lemma drop_drop_take: "drop j (drop k xs) = drop (k + j) xs \<and> take k xs @ take j (drop k xs) = take (k + j) xs"
  by (simp only: drop_drop take_add) (simp add: add.commute)

lemma write_loop_wrote:
  "ring_ok p \<Longrightarrow> write_loop p n rest block stop = ((r, rest'), p') \<Longrightarrow> wrote p n rest r rest' p'"
proof (induction p n rest block stop arbitrary: r rest' p' rule: write_loop.induct)
  case (1 p n rest block stop)
  show ?case
  proof (cases "rest \<noteq> [] \<and> fi_readers p \<noteq> 0 \<and> write_room p n")
    case True
    obtain rest1 p1 where w: "write_some p rest = (rest1, p1)" by fastforce
    have short: "length rest1 < length rest"
      using write_some_shorter [OF w [symmetric]] True by (simp add: write_room_def)
    obtain k where k: "rest1 = drop k rest" "contents p1 = contents p @ take k rest"
      using write_some_ok(2) [OF "1.prems"(1) w] by blast
    have ok1: "ring_ok p1" and same1: "same_ends p p1"
      using write_some_ok(1) [OF "1.prems"(1) w] by (simp, subst write_some_ok(3) [OF "1.prems"(1) w]) (simp add: same_ends_def)
    have "write_loop p1 n rest1 block stop = ((r, rest'), p')"
      using "1.prems"(2) True w by (subst (asm) write_loop.simps) (simp add: Let_def)
    from "1.IH" [OF refl _ _ _ w [symmetric] ok1 this] True have W: "wrote p1 n rest1 r rest' p'" by simp
    then obtain j where j: "rest' = drop j rest1" "contents p' = contents p1 @ take j rest1" by (auto simp: wrote_def)
    have "rest' = drop (k + j) rest \<and> contents p' = contents p @ take (k + j) rest"
      using j k drop_drop_take [of j k rest] by simp
    moreover have "rest' \<noteq> rest" using short j by (metis drop_drop_take length_drop diff_le_self leD k(1))
    moreover have "same_ends p p'" using W same1 by (auto simp: wrote_def same_ends_def)
    ultimately show ?thesis using W unfolding wrote_def by blast
  next
    case False
    have "rest' = rest \<and> p' = p \<and> (\<forall>w. r = Park w \<longrightarrow> still_waits p w)"
      using "1.prems"(2) False
      by (subst (asm) write_loop.simps) (auto simp: Let_def still_waits_def split: if_splits)
    then show ?thesis using wrote_same [OF "1.prems"(1)] by blast
  qed
qed

lemma fifo_write_wrote:
  assumes "ring_ok p" and "fifo_write p role n rest block stop = ((r, rest'), p')"
  shows "wrote p n rest r rest' p'"
proof (cases "is_w role \<and> n \<noteq> 0")
  case True
  then show ?thesis using assms write_loop_wrote by (simp add: fifo_write_def)
next
  case False
  then obtain x where "r = Ret x" "rest' = rest" "p' = p" using assms(2) by (auto simp: fifo_write_def split: if_splits)
  then show ?thesis using wrote_same [OF assms(1), of "Ret x"] by simp
qed

section \<open>Every interleaving\<close>

lemma fsys_okI:
  assumes "fs_pipe s = Some p" and "ring_ok p"
    and "fi_readers p = int (size (filter_mset is_r (fs_ends s)))"
    and "fi_writers p = int (size (filter_mset is_w (fs_ends s)))"
    and "fi_users p = int (size (fs_ends s) + fs_busy s)" and "0 < size (fs_ends s) + fs_busy s"
    and "\<And>w. w \<in> fs_parked s \<Longrightarrow> still_waits p w \<and> fs_ends s \<noteq> {#}"
    and "fs_in s = fs_out s @ contents p"
  shows "fsys_ok s"
  using assms by (auto simp: fsys_ok_def)

lemma fsys_okD:
  assumes "fsys_ok s" and "fs_pipe s = Some p"
  shows "ring_ok p" and "fi_readers p = int (size (filter_mset is_r (fs_ends s)))"
    and "fi_writers p = int (size (filter_mset is_w (fs_ends s)))"
    and "fi_users p = int (size (fs_ends s) + fs_busy s)" and "0 < size (fs_ends s) + fs_busy s"
    and "w \<in> fs_parked s \<Longrightarrow> still_waits p w \<and> fs_ends s \<noteq> {#}"
    and "fs_in s = fs_out s @ contents p"
  using assms by (auto simp: fsys_ok_def)

lemma ring_simps [simp]:
  "ring_ok (p\<lparr>fi_readers := a\<rparr>) = ring_ok p" "ring_ok (p\<lparr>fi_writers := a\<rparr>) = ring_ok p"
  "ring_ok (p\<lparr>fi_users := a\<rparr>) = ring_ok p" "ring_ok (p\<lparr>fi_rgen := g\<rparr>) = ring_ok p" "ring_ok (p\<lparr>fi_wgen := g\<rparr>) = ring_ok p"
  "contents (p\<lparr>fi_readers := a\<rparr>) = contents p" "contents (p\<lparr>fi_writers := a\<rparr>) = contents p"
  "contents (p\<lparr>fi_users := a\<rparr>) = contents p" "contents (p\<lparr>fi_rgen := g\<rparr>) = contents p" "contents (p\<lparr>fi_wgen := g\<rparr>) = contents p"
  by (simp_all add: ring_ok_def contents_def)

lemma fifo_new_ok: "ring_ok fifo_new" "contents fifo_new = []"
  by (simp_all add: fifo_new_def ring_ok_def contents_def)

lemma still_waits_users [simp]: "still_waits (p\<lparr>fi_users := a\<rparr>) w = still_waits p w"
  by (auto simp: still_waits_def open_waits_def write_room_def split: fifo_wait.splits)

lemma still_waits_same: "same_ends p q \<Longrightarrow> fi_count q = fi_count p \<Longrightarrow> still_waits q w = still_waits p w"
  by (auto simp: still_waits_def open_waits_def write_room_def same_ends_def split: fifo_wait.splits)

lemma get_ok:
  assumes s: "fsys_ok s" and g: "attach_get alloc (fs_pipe s) = Inr p"
  shows "fsys_ok (if fs_pipe s = None then s\<lparr>fs_pipe := Some p, fs_busy := fs_busy s + 1, fs_in := [], fs_out := []\<rparr>
             else s\<lparr>fs_pipe := Some p, fs_busy := fs_busy s + 1\<rparr>)"
proof (cases "fs_pipe s")
  case None
  then have "p = fifo_new\<lparr>fi_users := 1\<rparr>" using g by (auto simp: attach_get_def split: if_splits)
  moreover have "fs_ends s = {#}" "fs_busy s = 0" "fs_parked s = {}" using s None by (auto simp: fsys_ok_def)
  ultimately show ?thesis using None fifo_new_ok by (auto simp: fsys_ok_def) (simp_all add: fifo_new_def)
next
  case (Some q)
  then have "p = q\<lparr>fi_users := fi_users q + 1\<rparr>" using g by (auto simp: attach_get_def)
  then show ?thesis using s Some by (auto simp: fsys_ok_def)
qed

lemma join_ok:
  assumes s: "fsys_ok s" and p: "fs_pipe s = Some p" and b: "0 < fs_busy s"
    and j: "attach_join p role nb = Inr (p', rs, ws)"
  shows "fsys_ok (s\<lparr>fs_pipe := Some p', fs_ends := add_mset role (fs_ends s), fs_busy := fs_busy s - 1, fs_parked := {}\<rparr>)"
proof -
  have "ring_ok p' = ring_ok p" "contents p' = contents p" "fi_users p' = fi_users p"
    "fi_readers p' = fi_readers p + of_bool (is_r role)" "fi_writers p' = fi_writers p + of_bool (is_w role)"
    using j by (auto simp: attach_join_def Let_def split: if_splits)
  then show ?thesis using fsys_okD [OF s p] b by (intro fsys_okI [where p = "p'"]) auto
qed

lemma leave_ok:
  assumes s: "fsys_ok s" and p: "fs_pipe s = Some p" and r: "role \<in># fs_ends s"
  shows "fsys_ok (s\<lparr>fs_pipe := Some (put_role p role), fs_ends := fs_ends s - {#role#}, fs_busy := fs_busy s + 1, fs_parked := {}\<rparr>)"
proof -
  obtain E where E: "fs_ends s = add_mset role E" using r by (metis insert_DiffM)
  have "ring_ok (put_role p role) = ring_ok p" "contents (put_role p role) = contents p"
    "fi_users (put_role p role) = fi_users p"
    "fi_readers (put_role p role) = fi_readers p - of_bool (is_r role)"
    "fi_writers (put_role p role) = fi_writers p - of_bool (is_w role)"
    by (auto simp: put_role_def Let_def)
  then show ?thesis using fsys_okD [OF s p] E by (intro fsys_okI [where p = "put_role p role"]) auto
qed

lemma last_ok:
  assumes s: "fsys_ok s" and p: "fs_pipe s = Some p" and b: "0 < fs_busy s"
  shows "fsys_ok (s\<lparr>fs_pipe := put_user p, fs_busy := fs_busy s - 1\<rparr>)"
proof (cases "fi_users p = 1")
  case True
  then have "size (fs_ends s) = 0" "fs_busy s = 1" using fsys_okD(4) [OF s p] b by linarith+
  then have "fs_ends s = {#}" "fs_busy s = 1" by simp_all
  moreover have "fs_parked s = {}" using fsys_okD(6) [OF s p] calculation by auto
  ultimately show ?thesis using True by (simp add: put_user_def fsys_ok_def)
next
  case False
  then have "put_user p = Some (p\<lparr>fi_users := fi_users p - 1\<rparr>)" by (simp add: put_user_def Let_def)
  then show ?thesis using fsys_okD [OF s p] False b by (intro fsys_okI [where p = "p\<lparr>fi_users := fi_users p - 1\<rparr>"]) auto
qed

lemma after_waits:
  assumes "\<And>w. r = Park w \<Longrightarrow> still_waits q w" and "\<And>w. \<not> woke \<Longrightarrow> w \<in> ws \<Longrightarrow> still_waits q w"
    and "w \<in> after ws woke r"
  shows "still_waits q w"
  using assms by (auto simp: after_def Let_def split: fifo_result.splits if_splits)

lemma read_step_ok:
  assumes s: "fsys_ok s" and p: "fs_pipe s = Some p" and r: "role \<in># fs_ends s"
    and g: "fifo_read p role n block stop = (r, p')"
  shows "fsys_ok (s\<lparr>fs_pipe := Some p', fs_parked := after (fs_parked s) (fi_count p' \<noteq> fi_count p) r,
               fs_out := fs_out s @ (case r of Ret (k, bs) \<Rightarrow> bs | Park w \<Rightarrow> [])\<rparr>)"
proof -
  note D = fsys_okD [OF s p]
  note R = fifo_read_ok [OF D(1) g]
  have "still_waits p' w" if "w \<in> after (fs_parked s) (fi_count p' \<noteq> fi_count p) r" for w
    using after_waits [OF _ _ that, of p'] R(4,5) D(6) still_waits_same [OF R(2)] by blast
  moreover have "fs_ends s \<noteq> {#}" using r by auto
  ultimately show ?thesis using D R(1,2,3) by (intro fsys_okI [where p = "p'"]) (auto simp: same_ends_def)
qed

lemma write_step_ok:
  assumes s: "fsys_ok s" and p: "fs_pipe s = Some p" and r: "role \<in># fs_ends s"
    and g: "fifo_write p role n rest block stop = ((r, rest'), p')"
  shows "fsys_ok (s\<lparr>fs_pipe := Some p', fs_parked := after (fs_parked s) (rest' \<noteq> rest) r,
               fs_in := fs_in s @ take (length rest - length rest') rest\<rparr>)"
proof -
  note D = fsys_okD [OF s p]
  note W = fifo_write_wrote [OF D(1) g, unfolded wrote_def]
  obtain k where k: "rest' = drop k rest" "contents p' = contents p @ take k rest" using W by blast
  have t: "take (length rest - length rest') rest = take k rest" using k(1) by (cases "k \<le> length rest") simp_all
  have "still_waits p' w" if "w \<in> after (fs_parked s) (rest' \<noteq> rest) r" for w
    using after_waits [OF _ _ that, of p'] W D(6) by blast
  moreover have "fs_ends s \<noteq> {#}" using r by auto
  ultimately show ?thesis using D W k(2) t by (intro fsys_okI [where p = "p'"]) (auto simp: same_ends_def)
qed

lemma open_step_ok:
  assumes s: "fsys_ok s" and p: "fs_pipe s = Some p" and r: "role \<in># fs_ends s"
  shows "fsys_ok (s\<lparr>fs_parked := after (fs_parked s) False (attach_wait p role nb rs ws stop)\<rparr>)"
proof -
  note D = fsys_okD [OF s p]
  have "still_waits p w" if "attach_wait p role nb rs ws stop = Park w" for w
    using that by (auto simp: attach_wait_def still_waits_def open_waits_def split: if_splits)
  then have "still_waits p w" if "w \<in> after (fs_parked s) False (attach_wait p role nb rs ws stop)" for w
    using after_waits [OF _ _ that, of p] D(6) by blast
  moreover have "fs_ends s \<noteq> {#}" using r by auto
  ultimately show ?thesis using D p by (intro fsys_okI [where p = "p"]) auto
qed

lemma fstep_ok: "fstep s t \<Longrightarrow> fsys_ok s \<Longrightarrow> fsys_ok t"
proof (induction rule: fstep.induct)
  case (f_refused s p role nb e)
  then show ?case using fsys_okD [OF f_refused(4,1)] by (intro fsys_okI [where p = "p"]) auto
next
  case (f_wake s w)
  then show ?case by (auto simp: fsys_ok_def split: option.splits)
qed (simp_all only: get_ok join_ok open_step_ok leave_ok last_ok read_step_ok write_step_ok)

lemma freach_ok: "freach s \<Longrightarrow> fsys_ok s"
proof (induction rule: freach.induct)
  case freach_init
  then show ?case by (simp add: fsys_init_def fsys_ok_def)
qed (rule fstep_ok)

section \<open>Properties\<close>


definition demo_waiting :: fsys where
  "demo_waiting = \<lparr>fs_pipe = Some (fifo_new\<lparr>fi_users := 1, fi_readers := 1, fi_rgen := 1\<rparr>), fs_ends = {#FIFO_R#}, fs_busy = 0,
     fs_parked = {WOpen FIFO_R 1 0}, fs_in = [], fs_out = []\<rparr>"

lemma demo_waiting_reach: "freach demo_waiting"
proof -
  let ?p = "fifo_new\<lparr>fi_users := 1\<rparr>" and ?q = "fifo_new\<lparr>fi_users := 1, fi_readers := 1, fi_rgen := 1\<rparr>"
  let ?s1 = "\<lparr>fs_pipe = Some ?p, fs_ends = {#}, fs_busy = 1, fs_parked = {}, fs_in = [], fs_out = []\<rparr>"
  let ?s2 = "\<lparr>fs_pipe = Some ?q, fs_ends = {#FIFO_R#}, fs_busy = 0, fs_parked = {}, fs_in = [], fs_out = []\<rparr>"
  have "freach ?s1"
    using freach_step [OF freach_init f_get [of True fsys_init ?p]] by (simp add: fsys_init_def attach_get_def)
  moreover have "fstep ?s1 ?s2"
    using f_join [of ?s1 ?p FIFO_R False ?q 1 0]
    by (simp add: attach_join_def is_r_def is_w_def FIFO_R_def FIFO_W_def fifo_new_def Let_def)
  moreover have "fstep ?s2 demo_waiting"
    using f_open [of ?s2 ?q FIFO_R False 1 0 False]
    by (simp add: attach_wait_def open_waits_def after_def fifo_new_def demo_waiting_def)
  ultimately show ?thesis using freach_step by blast
qed




text \<open>C25: a write of at most \<open>PIPE_BUF\<close> bytes is never split: it is refused or parks with the pipe
  unchanged, or all its bytes go in one after the other and it returns their number.\<close>

theorem fifo_small_write_atomic:
  assumes r: "ring_ok p" and n: "0 < length bs" "length bs \<le> PIPE_BUF"
    and g: "fifo_write p role (length bs) bs block stop = ((r, rest), q)"
  shows "q = p \<and> rest = bs \<or> r = Ret (int (length bs)) \<and> rest = [] \<and> contents q = contents p @ bs"
proof (cases "is_w role \<and> fi_readers p \<noteq> 0 \<and> write_room p (length bs)")
  case True
  obtain rest1 p1 where w: "write_some p bs = (rest1, p1)" by fastforce
  have room: "length bs \<le> 65536 - unat (fi_count p)"
    using True n r by (simp add: write_room_def write_wants_def unat_sub_le word_le_nat_alt ring_ok_def)
  obtain k where k: "rest1 = drop k bs" "contents p1 = contents p @ take k bs" "k = min (length bs) (65536 - unat (fi_count p))"
    using write_some_ok(2) [OF r w] by blast
  have "rest1 = []" "contents p1 = contents p @ bs" using k room by simp_all
  moreover have "write_loop p (length bs) bs block stop = write_loop p1 (length bs) rest1 block stop"
    using True n w by (subst write_loop.simps) (auto simp: Let_def)
  moreover have "write_loop p1 (length bs) [] block stop = ((Ret (int (length bs)), []), p1)"
    by (subst write_loop.simps) simp
  ultimately show ?thesis using g n True by (simp add: fifo_write_def)
next
  case False
  then show ?thesis using g n by (subst (asm) fifo_write_def, subst (asm) write_loop.simps) (auto simp: Let_def split: if_splits)
qed

theorem fifo_small_write_atomic_witness:
  "fifo_write (fifo_new\<lparr>fi_readers := 1\<rparr>) FIFO_W 2 [7, 8] False False =
     ((Ret 2, []), snd (fifo_write (fifo_new\<lparr>fi_readers := 1\<rparr>) FIFO_W 2 [7, 8] False False)) \<and>
   contents (snd (fifo_write (fifo_new\<lparr>fi_readers := 1\<rparr>) FIFO_W 2 [7, 8] False False)) = [7, 8]"
proof -
  let ?p = "fifo_new\<lparr>fi_readers := 1\<rparr>"
  obtain r rest q where g: "fifo_write ?p FIFO_W (length [7, 8 :: u8]) [7, 8] False False = ((r, rest), q)"
    by (metis prod.exhaust)
  have f: "ring_ok ?p" "contents ?p = []" using fifo_new_ok by simp_all
  have "rest \<noteq> [7, 8]"
  proof
    assume "rest = [7, 8]"
    then have "q = ?p" using fifo_write_wrote [OF f(1) g] by (simp add: wrote_def)
    moreover have "write_room ?p (Suc (Suc 0))" "fi_readers ?p = 1"
      by (simp_all add: write_room_def write_wants_def PIPE_BUF_def FIFO_CAP_def fifo_new_def)
    ultimately show False using g \<open>rest = [7, 8]\<close> write_some_shorter
      by (subst (asm) fifo_write_def, subst (asm) write_loop.simps)
        (auto simp: is_w_def FIFO_W_def Let_def write_loop.simps write_some_def fifo_new_def FIFO_CAP_def split: prod.splits if_splits)
  qed
  then show ?thesis using fifo_small_write_atomic [OF f(1) _ _ g] g f(2) by (simp add: PIPE_BUF_def numeral_2_eq_2)
qed

text \<open>C26: a reader that opens non-blocking while a writer is attached is never told that the writer hung up:
  once the writer has closed and the ring is empty, a read returns end of file, but polling reports
  nothing.\<close>

theorem fifo_poll_misses_hangup:
  assumes w: "fi_writers p = 1" and c: "fi_count p = 0"
    and j: "attach_join p FIFO_R True = Inr (q, r_seen, w_seen)"
    and o: "attach_wait q FIFO_R True r_seen w_seen stop = Ret (Inr en)" and n: "0 < n"
  shows "fifo_readiness (Some (put_role q FIFO_W)) en = 0 \<and>
    fst (fifo_read (put_role q FIFO_W) (fe_role en) n block stop') = Ret (0, [])"
proof -
  have q: "q = p\<lparr>fi_readers := fi_readers p + 1, fi_rgen := fi_rgen p + 1\<rparr>" "w_seen = fi_wgen p"
    using j by (auto simp: attach_join_def is_r_def is_w_def FIFO_R_def FIFO_W_def)
  have en: "en = \<lparr>fe_role = FIFO_R, fe_wseen = fi_wgen p\<rparr>" using o q by (simp add: attach_wait_def open_waits_def)
  show ?thesis using w c n
    by (simp add: q(1) en fifo_readiness_def fifo_read_def put_role_def is_r_def is_w_def FIFO_R_def FIFO_W_def)
qed

theorem fifo_poll_misses_hangup_witness:
  "fifo_readiness (Some (put_role (fifo_new\<lparr>fi_writers := 1, fi_wgen := 1, fi_readers := 1, fi_rgen := 1\<rparr>) FIFO_W))
      \<lparr>fe_role = FIFO_R, fe_wseen = 1\<rparr> = 0"
proof -
  let ?p = "fifo_new\<lparr>fi_writers := 1, fi_wgen := 1\<rparr>" and ?q = "fifo_new\<lparr>fi_writers := 1, fi_wgen := 1, fi_readers := 1, fi_rgen := 1\<rparr>"
  have j: "attach_join ?p FIFO_R True = Inr (?q, 1, 1)"
    by (simp add: attach_join_def is_r_def is_w_def FIFO_R_def FIFO_W_def fifo_new_def)
  have o: "attach_wait ?q FIFO_R True 1 1 False = Ret (Inr \<lparr>fe_role = FIFO_R, fe_wseen = 1\<rparr>)"
    by (simp add: attach_wait_def open_waits_def)
  have "fi_writers ?p = 1" "fi_count ?p = 0" by (simp_all add: fifo_new_def)
  from fifo_poll_misses_hangup [OF this j o, of 1 False False] show ?thesis by simp
qed

end
