(* ===== verification/Sha256.thy ===== *)
theory Sha256
  imports Dos_Prelude
begin

text \<open>
  SHA-256, HMAC-SHA256 and PBKDF2-HMAC-SHA256 as in \<open>kernel/core/sha256.c\<close>: the block function, the
  streaming context with its partial block, the padding loop of \<open>sha256_final\<close> (\<open>None\<close> would be a
  loop that does not end), and the two constructions over it.
\<close>

definition SHA256_BLOCK_LEN :: nat where "SHA256_BLOCK_LEN = 64"
definition SHA256_DIGEST_LEN :: nat where "SHA256_DIGEST_LEN = 32"

section \<open>The block function\<close>

definition K :: "u32 list" where
  "K =
     [0x428a2f98, 0x71374491, 0xb5c0fbcf, 0xe9b5dba5] @
     [0x3956c25b, 0x59f111f1, 0x923f82a4, 0xab1c5ed5] @
     [0xd807aa98, 0x12835b01, 0x243185be, 0x550c7dc3] @
     [0x72be5d74, 0x80deb1fe, 0x9bdc06a7, 0xc19bf174] @
     [0xe49b69c1, 0xefbe4786, 0x0fc19dc6, 0x240ca1cc] @
     [0x2de92c6f, 0x4a7484aa, 0x5cb0a9dc, 0x76f988da] @
     [0x983e5152, 0xa831c66d, 0xb00327c8, 0xbf597fc7] @
     [0xc6e00bf3, 0xd5a79147, 0x06ca6351, 0x14292967] @
     [0x27b70a85, 0x2e1b2138, 0x4d2c6dfc, 0x53380d13] @
     [0x650a7354, 0x766a0abb, 0x81c2c92e, 0x92722c85] @
     [0xa2bfe8a1, 0xa81a664b, 0xc24b8b70, 0xc76c51a3] @
     [0xd192e819, 0xd6990624, 0xf40e3585, 0x106aa070] @
     [0x19a4c116, 0x1e376c08, 0x2748774c, 0x34b0bcb5] @
     [0x391c0cb3, 0x4ed8aa4a, 0x5b9cca4f, 0x682e6ff3] @
     [0x748f82ee, 0x78a5636f, 0x84c87814, 0x8cc70208] @
     [0x90befffa, 0xa4506ceb, 0xbef9a3f7, 0xc67178f2]"

record sha256_ctx =
  sc_h :: "u32 list"
  sc_nbits :: u64
  sc_buf :: "u8 list"
  sc_buflen :: nat

definition rotr :: "u32 \<Rightarrow> nat \<Rightarrow> u32" where
  "rotr x n = drop_bit n x OR push_bit (32 - n) x"

text \<open>Big-endian load of the sixteen words of a block.\<close>

definition load_be :: "u8 list \<Rightarrow> nat \<Rightarrow> u32" where
  "load_be p i = push_bit 24 (ucast (p ! (i * 4))) OR push_bit 16 (ucast (p ! (i * 4 + 1))) OR
     push_bit 8 (ucast (p ! (i * 4 + 2))) OR ucast (p ! (i * 4 + 3))"

text \<open>The next word of the message schedule, after the words \<open>w\<close>.\<close>

definition sched_next :: "u32 list \<Rightarrow> u32 list" where
  "sched_next w =
     (let i = length w;
          s0 = rotr (w ! (i - 15)) 7 XOR rotr (w ! (i - 15)) 18 XOR drop_bit 3 (w ! (i - 15));
          s1 = rotr (w ! (i - 2)) 17 XOR rotr (w ! (i - 2)) 19 XOR drop_bit 10 (w ! (i - 2))
      in w @ [w ! (i - 16) + s0 + w ! (i - 7) + s1])"

fun schedule :: "nat \<Rightarrow> u32 list \<Rightarrow> u32 list" where
  "schedule 0 w = w"
| "schedule (Suc n) w = schedule n (sched_next w)"

type_synonym regs = "u32 \<times> u32 \<times> u32 \<times> u32 \<times> u32 \<times> u32 \<times> u32 \<times> u32"

definition sha_round :: "u32 \<times> u32 \<Rightarrow> regs \<Rightarrow> regs" where
  "sha_round kw r = (case kw of (k, w) \<Rightarrow> case r of (a, b, cc, d, e, f, g, h) \<Rightarrow>
     (let S1 = rotr e 6 XOR rotr e 11 XOR rotr e 25;
          ch = (e AND f) XOR (NOT e AND g);
          t1 = h + S1 + ch + k + w;
          S0 = rotr a 2 XOR rotr a 13 XOR rotr a 22;
          maj = (a AND b) XOR (a AND cc) XOR (b AND cc);
          t2 = S0 + maj
      in (t1 + t2, a, b, cc, d + t1, e, f, g)))"

fun sha_rounds :: "u32 list \<Rightarrow> u32 list \<Rightarrow> regs \<Rightarrow> regs" where
  "sha_rounds (k # ks) (w # ws) r = sha_rounds ks ws (sha_round (k, w) r)"
| "sha_rounds ks ws r = r"

definition regs_of :: "u32 list \<Rightarrow> regs" where
  "regs_of h = (h ! 0, h ! 1, h ! 2, h ! 3, h ! 4, h ! 5, h ! 6, h ! 7)"

definition add_regs :: "u32 list \<Rightarrow> regs \<Rightarrow> u32 list" where
  "add_regs h0 r = (case r of (a, b, cc, d, e, f, g, h) \<Rightarrow>
     [h0 ! 0 + a, h0 ! 1 + b, h0 ! 2 + cc, h0 ! 3 + d, h0 ! 4 + e, h0 ! 5 + f, h0 ! 6 + g, h0 ! 7 + h])"

definition compress :: "u32 list \<Rightarrow> u8 list \<Rightarrow> u32 list" where
  "compress h p =
     (let w = schedule 48 (map (load_be p) [0..<16])
      in add_regs h (sha_rounds K w (regs_of h)))"

definition sha256_block :: "sha256_ctx \<Rightarrow> u8 list \<Rightarrow> sha256_ctx" where
  "sha256_block c p = c\<lparr>sc_h := compress (sc_h c) p\<rparr>"

section \<open>The streaming context\<close>

definition H0 :: "u32 list" where
  "H0 = [0x6a09e667, 0xbb67ae85, 0x3c6ef372, 0xa54ff53a, 0x510e527f, 0x9b05688c, 0x1f83d9ab, 0x5be0cd19]"

text \<open>The bytes of \<open>buf\<close> that \<open>sha256_init\<close> does not set are whatever the caller's context held.\<close>

definition sha256_init :: "u8 list \<Rightarrow> sha256_ctx" where
  "sha256_init old = \<lparr>sc_h = H0, sc_nbits = 0, sc_buf = old, sc_buflen = 0\<rparr>"

definition put_bytes :: "u8 list \<Rightarrow> nat \<Rightarrow> u8 list \<Rightarrow> u8 list" where
  "put_bytes buf at bs = take at buf @ bs @ drop (at + length bs) buf"

text \<open>One pass of the copy loop: the context and the bytes left.\<close>

definition update_pass :: "sha256_ctx \<Rightarrow> u8 list \<Rightarrow> sha256_ctx \<times> u8 list" where
  "update_pass c data =
     (let space = SHA256_BLOCK_LEN - sc_buflen c;
          tk = (if length data < space then length data else space);
          c1 = c\<lparr>sc_buf := put_bytes (sc_buf c) (sc_buflen c) (take tk data), sc_buflen := sc_buflen c + tk\<rparr>;
          c2 = (if sc_buflen c1 = SHA256_BLOCK_LEN then (sha256_block c1 (sc_buf c1))\<lparr>sc_buflen := 0\<rparr> else c1)
      in (c2, drop tk data))"

partial_function (option) update_loop :: "sha256_ctx \<Rightarrow> u8 list \<Rightarrow> sha256_ctx option" where
  [code]: "update_loop c data =
     (if data = [] then Some c else (case update_pass c data of (c', rest) \<Rightarrow> update_loop c' rest))"

definition sha256_update :: "sha256_ctx \<Rightarrow> u8 list \<Rightarrow> sha256_ctx option" where
  "sha256_update c data = update_loop (c\<lparr>sc_nbits := sc_nbits c + of_nat (length data) * 8\<rparr>) data"

partial_function (option) pad_loop :: "u64 \<Rightarrow> sha256_ctx \<Rightarrow> sha256_ctx option" where
  [code]: "pad_loop nbits c =
     (if sc_buflen c = 56 then Some c
      else (case sha256_update c [0] of None \<Rightarrow> None | Some c' \<Rightarrow> pad_loop nbits (c'\<lparr>sc_nbits := nbits\<rparr>)))"

definition be64 :: "u64 \<Rightarrow> u8 list" where
  "be64 x = map (\<lambda>i. ucast (drop_bit (56 - i * 8) x)) [0..<8]"

definition be32 :: "u32 \<Rightarrow> u8 list" where
  "be32 x = [ucast (drop_bit 24 x), ucast (drop_bit 16 x), ucast (drop_bit 8 x), ucast x]"

definition sha256_final :: "sha256_ctx \<Rightarrow> u8 list option" where
  "sha256_final c =
     (let nbits = sc_nbits c in
      case sha256_update c [0x80] of
        None \<Rightarrow> None
      | Some c1 \<Rightarrow>
          (case pad_loop nbits (c1\<lparr>sc_nbits := nbits\<rparr>) of
             None \<Rightarrow> None
           | Some c2 \<Rightarrow>
               (case sha256_update c2 (be64 nbits) of
                  None \<Rightarrow> None
                | Some c3 \<Rightarrow> Some (concat (map be32 (sc_h c3))))))"

definition sha256 :: "u8 list \<Rightarrow> u8 list \<Rightarrow> u8 list option" where
  "sha256 old data =
     (case sha256_update (sha256_init old) data of None \<Rightarrow> None | Some c \<Rightarrow> sha256_final c)"

section \<open>HMAC and PBKDF2\<close>

text \<open>One of the two passes of HMAC: the padded key xored with a constant, then the data.\<close>

definition hmac_pass :: "u8 list \<Rightarrow> u8 list \<Rightarrow> u8 \<Rightarrow> u8 list \<Rightarrow> u8 list option" where
  "hmac_pass old k x data =
     (case sha256_update (sha256_init old) (map (\<lambda>b. b XOR x) k) of
        None \<Rightarrow> None
      | Some c \<Rightarrow> (case sha256_update c data of None \<Rightarrow> None | Some c' \<Rightarrow> sha256_final c'))"

definition hmac_key :: "u8 list \<Rightarrow> u8 list \<Rightarrow> u8 list option" where
  "hmac_key old key =
     (if length key > SHA256_BLOCK_LEN
      then map_option (\<lambda>d. d @ replicate (SHA256_BLOCK_LEN - SHA256_DIGEST_LEN) 0) (sha256 old key)
      else Some (key @ replicate (SHA256_BLOCK_LEN - length key) 0))"

definition hmac_sha256 :: "u8 list \<Rightarrow> u8 list \<Rightarrow> u8 list \<Rightarrow> u8 list option" where
  "hmac_sha256 old key data =
     (case hmac_key old key of
        None \<Rightarrow> None
      | Some k \<Rightarrow> (case hmac_pass old k 0x36 data of None \<Rightarrow> None | Some inner \<Rightarrow> hmac_pass old k 0x5c inner))"

text \<open>The iterations of one block after the first, from the last \<open>u\<close> and the running xor \<open>t\<close>.\<close>

fun pbkdf2_iter :: "u8 list \<Rightarrow> u8 list \<Rightarrow> nat \<Rightarrow> u8 list \<Rightarrow> u8 list \<Rightarrow> u8 list option" where
  "pbkdf2_iter old pass 0 u t = Some t"
| "pbkdf2_iter old pass (Suc n) u t =
     (case hmac_sha256 old pass u of None \<Rightarrow> None | Some u' \<Rightarrow> pbkdf2_iter old pass n u' (map2 (XOR) t u'))"

definition pbkdf2_block :: "u8 list \<Rightarrow> u8 list \<Rightarrow> u8 list \<Rightarrow> u32 \<Rightarrow> u32 \<Rightarrow> u8 list option" where
  "pbkdf2_block old pass salt iterations blk =
     (case hmac_sha256 old pass (take 128 salt @ be32 blk) of
        None \<Rightarrow> None
      | Some u \<Rightarrow> pbkdf2_iter old pass (unat (iterations - 1)) u u)"

text \<open>The output loop, from block number \<open>blk\<close> with \<open>left\<close> bytes of key still to produce.\<close>

function pbkdf2_loop :: "u8 list \<Rightarrow> u8 list \<Rightarrow> u8 list \<Rightarrow> u32 \<Rightarrow> u32 \<Rightarrow> nat \<Rightarrow> u8 list option" where
  "pbkdf2_loop old pass salt iterations blk left =
     (if left = 0 then Some []
      else (case pbkdf2_block old pass salt iterations blk of
              None \<Rightarrow> None
            | Some t \<Rightarrow>
                (let tk = (if left > SHA256_DIGEST_LEN then SHA256_DIGEST_LEN else left)
                 in map_option (\<lambda>rest. take tk t @ rest) (pbkdf2_loop old pass salt iterations (blk + 1) (left - tk)))))"
  by pat_completeness auto
termination by (relation "measure (\<lambda>(old, pass, salt, it, blk, left). left)") (auto simp: SHA256_DIGEST_LEN_def)

declare pbkdf2_loop.simps [simp del]

definition pbkdf2_sha256 :: "u8 list \<Rightarrow> u8 list \<Rightarrow> u8 list \<Rightarrow> u32 \<Rightarrow> nat \<Rightarrow> u8 list option" where
  "pbkdf2_sha256 old pass salt iterations dklen =
     pbkdf2_loop old pass salt (if iterations < 1 then 1 else iterations) 1 dklen"

end
