(* ===== verification/Sha256_Spec.thy ===== *)
theory Sha256_Spec
  imports Sha256
begin

text \<open>
  The streaming implementation equals the definition of the standard (pad the whole message, fold the
  block function over its 64-byte blocks), for any split of the message into updates; HMAC and PBKDF2
  over it are those of RFC 2104 and RFC 8018.
\<close>

section \<open>The standard\<close>

fun sha_blocks :: "u8 list \<Rightarrow> u8 list list" where
  "sha_blocks m = (if length m < 64 then [] else take 64 m # sha_blocks (drop 64 m))"

declare sha_blocks.simps [simp del]

definition fips_pad :: "u8 list \<Rightarrow> u8 list" where
  "fips_pad m = m @ [0x80] @ replicate ((119 - length m mod 64) mod 64) 0 @ be64 (of_nat (length m) * 8)"

definition fips_sha256 :: "u8 list \<Rightarrow> u8 list" where
  "fips_sha256 m = concat (map be32 (foldl compress H0 (sha_blocks (fips_pad m))))"

definition rfc_key :: "u8 list \<Rightarrow> u8 list" where
  "rfc_key key = (let k = (if length key > 64 then fips_sha256 key else key) in k @ replicate (64 - length k) 0)"

definition rfc_hmac :: "u8 list \<Rightarrow> u8 list \<Rightarrow> u8 list" where
  "rfc_hmac key m =
     fips_sha256 (map (\<lambda>b. b XOR 0x5c) (rfc_key key) @ fips_sha256 (map (\<lambda>b. b XOR 0x36) (rfc_key key) @ m))"

text \<open>\<open>U_1 = PRF(P, S || INT(i))\<close>, \<open>U_j = PRF(P, U_(j-1))\<close>, and the block is their xor.\<close>

fun rfc_u :: "u8 list \<Rightarrow> u8 list \<Rightarrow> nat \<Rightarrow> u8 list" where
  "rfc_u pass s 0 = rfc_hmac pass s"
| "rfc_u pass s (Suc j) = rfc_hmac pass (rfc_u pass s j)"

fun rfc_block :: "u8 list \<Rightarrow> u8 list \<Rightarrow> nat \<Rightarrow> u8 list" where
  "rfc_block pass s 0 = rfc_u pass s 0"
| "rfc_block pass s (Suc j) = map2 (XOR) (rfc_block pass s j) (rfc_u pass s (Suc j))"

definition rfc_pbkdf2 :: "u8 list \<Rightarrow> u8 list \<Rightarrow> nat \<Rightarrow> nat \<Rightarrow> u8 list" where
  "rfc_pbkdf2 pass salt iterations dklen =
     take dklen (concat (map (\<lambda>i. rfc_block pass (salt @ be32 (of_nat (i + 1))) (iterations - 1))
       [0..<(dklen + 31) div 32]))"

section \<open>Blocks\<close>

lemma sha_blocks_short [simp]: "length m < 64 \<Longrightarrow> sha_blocks m = []"
  by (simp add: sha_blocks.simps)

lemma sha_blocks_step: "length b = 64 \<Longrightarrow> sha_blocks (b @ m) = b # sha_blocks m"
  by (subst sha_blocks.simps) simp

lemma sha_blocks_append:
  "length m = 64 * n \<Longrightarrow> sha_blocks (m @ d) = sha_blocks m @ sha_blocks d"
proof (induction n arbitrary: m)
  case (Suc n)
  then obtain b r where m: "m = b @ r" "length b = 64" "length r = 64 * n"
    by (metis append_take_drop_id length_drop length_take add_diff_cancel_left' le_add1 min.absorb2 mult_Suc_right)
  then show ?case using Suc.IH [OF m(3)] sha_blocks_step by simp
qed simp

section \<open>What a context has absorbed\<close>

definition absorbed :: "sha256_ctx \<Rightarrow> u8 list \<Rightarrow> bool" where
  "absorbed c m \<longleftrightarrow> sc_h c = foldl compress H0 (sha_blocks m) \<and> sc_buflen c = length m mod 64 \<and>
     take (sc_buflen c) (sc_buf c) = drop (64 * (length m div 64)) m \<and> length (sc_buf c) = 64"

lemma absorbed_init: "length old = 64 \<Longrightarrow> absorbed (sha256_init old) []"
  by (simp add: absorbed_def sha256_init_def)

lemma absorbed_nbits [simp]: "absorbed (c\<lparr>sc_nbits := x\<rparr>) m = absorbed c m"
  by (simp add: absorbed_def)

text \<open>The whole blocks, \<open>q\<close> bytes, and the tail of \<open>r\<close> bytes of an absorbed message.\<close>

lemma absorbedE:
  assumes "absorbed c m"
  obtains r q where "r < 64" and "q + r = length m" and "length m mod 64 = r" and "64 * (length m div 64) = q"
    and "64 dvd q" and "sc_h c = foldl compress H0 (sha_blocks (take q m))" and "sc_buflen c = r"
    and "take r (sc_buf c) = drop q m" and "length (sc_buf c) = 64"
proof -
  let ?q = "64 * (length m div 64)"
  have "sha_blocks m = sha_blocks (take ?q m)"
    using sha_blocks_append [of "take ?q m" "length m div 64" "drop ?q m"] by simp
  then show ?thesis using assms that [of "length m mod 64" ?q] unfolding absorbed_def by auto
qed

lemma absorbedI:
  assumes "r < 64" and "q + r = length m" and "64 dvd q" and "sc_h c = foldl compress H0 (sha_blocks (take q m))"
    and "sc_buflen c = r" and "take r (sc_buf c) = drop q m" and "length (sc_buf c) = 64"
  shows "absorbed c m"
proof -
  obtain n where n: "q = 64 * n" using assms(3) by (auto elim: dvdE)
  have "length m mod 64 = r" "length m div 64 = n" unfolding assms(2) [symmetric] n using assms(1) by simp_all
  moreover have "sha_blocks m = sha_blocks (take q m)"
    using sha_blocks_append [of "take q m" n "drop q m"] assms(1,2) n by simp
  ultimately show ?thesis using assms n by (simp add: absorbed_def)
qed

lemma pass_fills:
  assumes a: "absorbed c m" and d: "64 - length m mod 64 \<le> length d" and u: "update_pass c d = (c', rest)"
  shows "absorbed c' (m @ take (64 - length m mod 64) d) \<and> rest = drop (64 - length m mod 64) d \<and> sc_nbits c' = sc_nbits c"
proof -
  obtain r q where r: "r < 64" "q + r = length m" "length m mod 64 = r" and q: "64 dvd q"
    and c: "sc_h c = foldl compress H0 (sha_blocks (take q m))" "sc_buflen c = r" "take r (sc_buf c) = drop q m"
      "length (sc_buf c) = 64"
    using absorbedE [OF a] by metis
  define b where "b = drop q m @ take (64 - r) d"
  have lb: "length b = 64" using r d by (simp add: b_def)
  have put: "put_bytes (sc_buf c) r (take (64 - r) d) = b"
    using c r d by (simp add: put_bytes_def b_def)
  have full: "m @ take (64 - r) d = take q m @ b" unfolding b_def by simp
  obtain n where n: "q = 64 * n" using q by (auto elim: dvdE)
  have bl: "sha_blocks (take q m @ b) = sha_blocks (take q m) @ [b]"
    using sha_blocks_append [of "take q m" n b] sha_blocks_step [OF lb, of "[]"] r n by simp
  have c': "c' = c\<lparr>sc_buf := b, sc_buflen := 0, sc_h := compress (sc_h c) b\<rparr>" "rest = drop (64 - r) d"
    using u d r(1,3) put c(2) by (auto simp: update_pass_def Let_def SHA256_BLOCK_LEN_def sha256_block_def split: if_splits)
  have "absorbed c' (m @ take (64 - r) d)"
    by (rule absorbedI [where q = "q + 64" and r = 0])
      (use r q c c' lb d bl full in \<open>auto simp: dvd_add\<close>)
  then show ?thesis using c' r(3) by simp
qed

lemma pass_partial:
  assumes a: "absorbed c m" and d: "length d < 64 - length m mod 64" and u: "update_pass c d = (c', rest)"
  shows "absorbed c' (m @ d) \<and> rest = [] \<and> sc_nbits c' = sc_nbits c"
proof -
  obtain r q where r: "r < 64" "q + r = length m" "length m mod 64 = r" and q: "64 dvd q"
    and c: "sc_h c = foldl compress H0 (sha_blocks (take q m))" "sc_buflen c = r" "take r (sc_buf c) = drop q m"
      "length (sc_buf c) = 64"
    using absorbedE [OF a] by metis
  have c': "c' = c\<lparr>sc_buf := put_bytes (sc_buf c) r d, sc_buflen := r + length d\<rparr>" "rest = []"
    using u d r(1,3) c(2) by (auto simp: update_pass_def Let_def SHA256_BLOCK_LEN_def split: if_splits)
  have "absorbed c' (m @ d)"
    by (rule absorbedI [where q = q and r = "r + length d"])
      (use r q c c' d in \<open>auto simp: put_bytes_def\<close>)
  then show ?thesis using c' by simp
qed

lemma update_loop_ok:
  "absorbed c m \<Longrightarrow> \<exists>c'. update_loop c d = Some c' \<and> absorbed c' (m @ d) \<and> sc_nbits c' = sc_nbits c"
proof (induction "length d" arbitrary: c m d rule: less_induct)
  case less
  show ?case
  proof (cases "d = []")
    case True
    then show ?thesis using less.prems by (subst update_loop.simps) simp
  next
    case ne: False
    obtain c1 rest where u: "update_pass c d = (c1, rest)" by fastforce
    have step: "update_loop c d = update_loop c1 rest" using ne u by (subst update_loop.simps) simp
    show ?thesis
    proof (cases "64 - length m mod 64 \<le> length d")
      case True
      let ?t = "64 - length m mod 64"
      have P: "absorbed c1 (m @ take ?t d)" "rest = drop ?t d" "sc_nbits c1 = sc_nbits c"
        using pass_fills [OF less.prems True u] by auto
      have "0 < ?t" by simp
      moreover have "0 < length d" using ne by simp
      ultimately have "length rest < length d" unfolding P(2) length_drop by (rule diff_less)
      from less.hyps [OF this P(1)] P(2,3) step show ?thesis by simp
    next
      case False
      then have P: "absorbed c1 (m @ d)" "rest = []" "sc_nbits c1 = sc_nbits c"
        using pass_partial [OF less.prems _ u] by auto
      then have "update_loop c1 rest = Some c1" by (subst update_loop.simps) simp
      with P step show ?thesis by simp
    qed
  qed
qed

lemma sha256_update_ok:
  assumes "absorbed c m"
  obtains c' where "sha256_update c d = Some c'" "absorbed c' (m @ d)" "sc_nbits c' = sc_nbits c + of_nat (length d) * 8"
  using update_loop_ok [of "c\<lparr>sc_nbits := sc_nbits c + of_nat (length d) * 8\<rparr>" m d] assms
  by (auto simp: sha256_update_def)

section \<open>Finishing\<close>

lemma absorbed_len: "absorbed c m \<Longrightarrow> sc_buflen c = length m mod 64"
  by (simp add: absorbed_def)

text \<open>The padding loop adds zeroes until 56 bytes of the last block are filled.\<close>

lemma pad_loop_ok:
  "absorbed c m \<Longrightarrow> sc_nbits c = nb \<Longrightarrow> (length m + z) mod 64 = 56 \<Longrightarrow> z < 64 \<Longrightarrow>
   \<exists>c'. pad_loop nb c = Some c' \<and> absorbed c' (m @ replicate z 0) \<and> sc_nbits c' = nb"
proof (induction z arbitrary: c m)
  case 0
  then show ?case using absorbed_len by (subst pad_loop.simps) simp
next
  case (Suc z)
  have ne: "sc_buflen c \<noteq> 56"
  proof
    assume "sc_buflen c = 56"
    then have "(length m + Suc z) mod 64 = length m mod 64" using absorbed_len [OF Suc.prems(1)] Suc.prems(3) by simp
    with mod_shift_neq [of "Suc z" 64 "length m"] Suc.prems(4) show False by simp
  qed
  obtain c1 where c1: "sha256_update c [0] = Some c1" "absorbed c1 (m @ [0])"
    using sha256_update_ok [OF Suc.prems(1), of "[0]"] by metis
  have "(length (m @ [0 :: u8]) + z) mod 64 = 56" "z < 64" using Suc.prems(3,4) by simp_all
  then obtain c' where "pad_loop nb (c1\<lparr>sc_nbits := nb\<rparr>) = Some c'" "absorbed c' ((m @ [0]) @ replicate z 0)" "sc_nbits c' = nb"
    using Suc.IH [of "c1\<lparr>sc_nbits := nb\<rparr>" "m @ [0]"] c1(2) by auto
  then show ?case using ne c1(1) by (subst pad_loop.simps) (simp add: replicate_app_Cons_same)
qed

lemma length_be64 [simp]: "length (be64 x) = 8"
  by (simp add: be64_def)

lemma sha256_final_ok:
  assumes a: "absorbed c m" and n: "sc_nbits c = of_nat (length m) * 8"
  shows "sha256_final c = Some (fips_sha256 m)"
proof -
  let ?nb = "of_nat (length m) * 8 :: u64" and ?z = "(119 - length m mod 64) mod 64"
  obtain c1 where c1: "sha256_update c [0x80] = Some c1" "absorbed c1 (m @ [0x80])"
    using sha256_update_ok [OF a, of "[0x80]"] by metis
  define r where "r = length m mod 64"
  have "r < 64" by (simp add: r_def)
  then have "?z = (if r \<le> 55 then 55 - r else 119 - r)" unfolding r_def [symmetric] by (auto simp: mod_if)
  then have "(r + (1 + ?z)) mod 64 = 56" using \<open>r < 64\<close> by auto
  then have z: "(length (m @ [0x80 :: u8]) + ?z) mod 64 = 56" "?z < 64"
    unfolding r_def mod_add_left_eq by (simp_all add: add.assoc)
  obtain c2 where c2: "pad_loop ?nb (c1\<lparr>sc_nbits := ?nb\<rparr>) = Some c2" "absorbed c2 ((m @ [0x80]) @ replicate ?z 0)"
    using pad_loop_ok [of "c1\<lparr>sc_nbits := ?nb\<rparr>" "m @ [0x80]" ?nb ?z] c1(2) z by auto
  obtain c3 where c3: "sha256_update c2 (be64 ?nb) = Some c3" "absorbed c3 (((m @ [0x80]) @ replicate ?z 0) @ be64 ?nb)"
    using sha256_update_ok [OF c2(2), of "be64 ?nb"] by metis
  have "sc_h c3 = foldl compress H0 (sha_blocks (fips_pad m))"
    using c3(2) by (simp add: absorbed_def fips_pad_def)
  then show ?thesis using c1(1) c2(1) c3(1) n by (simp add: sha256_final_def fips_sha256_def)
qed

text \<open>Any split of the message into updates.\<close>

fun update_all :: "sha256_ctx \<Rightarrow> u8 list list \<Rightarrow> sha256_ctx option" where
  "update_all c [] = Some c"
| "update_all c (d # ds) = (case sha256_update c d of None \<Rightarrow> None | Some c' \<Rightarrow> update_all c' ds)"

lemma update_all_ok:
  "absorbed c m \<Longrightarrow> sc_nbits c = of_nat (length m) * 8 \<Longrightarrow>
   \<exists>c'. update_all c ds = Some c' \<and> absorbed c' (m @ concat ds) \<and> sc_nbits c' = of_nat (length (m @ concat ds)) * 8"
proof (induction ds arbitrary: c m)
  case (Cons d ds)
  obtain c1 where c1: "sha256_update c d = Some c1" "absorbed c1 (m @ d)" "sc_nbits c1 = sc_nbits c + of_nat (length d) * 8"
    using sha256_update_ok [OF Cons.prems(1), of d] by metis
  have "sc_nbits c1 = of_nat (length (m @ d)) * 8" using c1(3) Cons.prems(2) by (simp add: distrib_right)
  from Cons.IH [OF c1(2) this] c1(1) show ?case by simp
qed simp

lemma sha256_split_ok:
  assumes "length old = 64"
  shows "Option.bind (update_all (sha256_init old) ds) sha256_final = Some (fips_sha256 (concat ds))"
proof -
  have "sc_nbits (sha256_init old) = of_nat (length ([] :: u8 list)) * 8" by (simp add: sha256_init_def)
  from update_all_ok [OF absorbed_init [OF assms] this, of ds] obtain c where
    "update_all (sha256_init old) ds = Some c" "absorbed c (concat ds)" "sc_nbits c = of_nat (length (concat ds)) * 8"
    by auto
  then show ?thesis using sha256_final_ok by simp
qed

lemma sha256_ok: "length old = 64 \<Longrightarrow> sha256 old m = Some (fips_sha256 m)"
  using sha256_split_ok [of old "[m]"] by (cases "sha256_update (sha256_init old) m") (simp_all add: sha256_def)

section \<open>HMAC and PBKDF2\<close>

lemma hmac_pass_ok:
  "length old = 64 \<Longrightarrow> hmac_pass old k x d = Some (fips_sha256 (map (\<lambda>b. b XOR x) k @ d))"
  using sha256_split_ok [of old "[map (\<lambda>b. b XOR x) k, d]"]
  by (auto simp: hmac_pass_def split: option.splits bind_splits)

lemma length_add_regs [simp]: "length (add_regs h r) = 8"
  by (simp add: add_regs_def split: prod.splits)

lemma length_foldl_compress: "length h = 8 \<Longrightarrow> length (foldl compress h bs) = 8"
  by (induction bs arbitrary: h) (auto simp: compress_def Let_def)

lemma length_fips [simp]: "length (fips_sha256 m) = 32"
proof -
  have "length (concat (map be32 h)) = 4 * length h" for h by (induction h) (auto simp: be32_def)
  then show ?thesis using length_foldl_compress [of H0] by (simp add: fips_sha256_def H0_def)
qed

lemma hmac_key_ok: "length old = 64 \<Longrightarrow> hmac_key old key = Some (rfc_key key)"
  by (auto simp: hmac_key_def rfc_key_def sha256_ok SHA256_BLOCK_LEN_def SHA256_DIGEST_LEN_def Let_def)

lemma hmac_ok: "length old = 64 \<Longrightarrow> hmac_sha256 old key m = Some (rfc_hmac key m)"
  by (simp add: hmac_sha256_def hmac_key_ok hmac_pass_ok rfc_hmac_def)

lemma pbkdf2_iter_ok:
  "length old = 64 \<Longrightarrow>
   pbkdf2_iter old pass n (rfc_u pass s j) (rfc_block pass s j) = Some (rfc_block pass s (j + n))"
proof (induction n arbitrary: j)
  case (Suc n)
  then show ?case using Suc.IH [of "Suc j"] by (simp add: hmac_ok)
qed simp

lemma pbkdf2_block_ok:
  "length old = 64 \<Longrightarrow> length salt \<le> 128 \<Longrightarrow> pbkdf2_block old pass salt it blk =
     Some (rfc_block pass (salt @ be32 blk) (unat (it - 1)))"
  using pbkdf2_iter_ok [of old pass "unat (it - 1)" "salt @ be32 blk" 0] by (simp add: pbkdf2_block_def hmac_ok)

lemma length_rfc_hmac [simp]: "length (rfc_hmac k m) = 32"
  by (simp add: rfc_hmac_def)

lemma length_rfc_block [simp]: "length (rfc_block pass s n) = 32"
proof -
  have u: "length (rfc_u pass s j) = 32" for j by (cases j) simp_all
  show ?thesis using u by (induction n) (simp_all del: rfc_u.simps)
qed

lemma pbkdf2_loop_ok:
  assumes "length old = 64" and "length salt \<le> 128"
  shows "pbkdf2_loop old pass salt it (of_nat (k + 1)) left =
    Some (take left (concat (map (\<lambda>i. rfc_block pass (salt @ be32 (of_nat (i + 1))) (unat (it - 1))) [k..<k + (left + 31) div 32])))"
proof (induction left arbitrary: k rule: less_induct)
  case (less left)
  show ?case
  proof (cases "left = 0")
    case True
    then show ?thesis by (simp add: pbkdf2_loop.simps)
  next
    case False
    let ?tk = "if left > SHA256_DIGEST_LEN then SHA256_DIGEST_LEN else left"
    let ?b = "\<lambda>i. rfc_block pass (salt @ be32 (of_nat (i + 1))) (unat (it - 1))"
    have lt: "left - ?tk < left" using False by (simp add: SHA256_DIGEST_LEN_def)
    have up: "[k..<k + (left + 31) div 32] = k # [Suc k..<Suc k + (left - ?tk + 31) div 32]"
    proof -
      have "(left + 31) div 32 = Suc ((left - ?tk + 31) div 32)"
      proof (cases "left > 32")
        case True
        then have "left + 31 = (left - 32 + 31) + 32" by simp
        then have "(left + 31) div 32 = (left - 32 + 31 + 32) div 32" by simp
        also have "\<dots> = Suc ((left - 32 + 31) div 32)" by (subst div_add_self2) simp_all
        finally show ?thesis using True by (simp add: SHA256_DIGEST_LEN_def)
      next
        case f: False
        then have "(left + 31) div 32 = 1" using False by (intro div_nat_eqI) simp_all
        then show ?thesis using f by (simp add: SHA256_DIGEST_LEN_def)
      qed
      then show ?thesis by (simp add: upt_conv_Cons)
    qed
    have "pbkdf2_loop old pass salt it (of_nat (k + 1)) left =
        map_option (\<lambda>rest. take ?tk (?b k) @ rest) (pbkdf2_loop old pass salt it (of_nat (Suc k + 1)) (left - ?tk))"
      using False pbkdf2_block_ok [OF assms] by (subst pbkdf2_loop.simps) (simp add: Let_def add.commute)
    also have "\<dots> = Some (take left (concat (map ?b [k..<k + (left + 31) div 32])))"
      unfolding up less.IH [OF lt] by (auto simp: SHA256_DIGEST_LEN_def)
    finally show ?thesis .
  qed
qed

section \<open>Properties\<close>

text \<open>C6: hashing returns, and however a message is cut into updates the digest is that of the standard: the
  padded message (a 1 bit, zeroes, the 64-bit length) in 64-byte blocks, folded with the block
  function, whatever the buffer held before.\<close>

theorem sha256_streaming_correct:
  assumes "length old = SHA256_BLOCK_LEN"
  shows "Option.bind (update_all (sha256_init old) ds) sha256_final = Some (fips_sha256 (concat ds)) \<and>
    sha256 old m = Some (fips_sha256 m) \<and> length (fips_sha256 m) = SHA256_DIGEST_LEN"
  using assms sha256_split_ok sha256_ok by (simp add: SHA256_BLOCK_LEN_def SHA256_DIGEST_LEN_def)

theorem sha256_streaming_correct_witness:
  "Option.bind (update_all (sha256_init (replicate 64 0)) [[0x61], [0x62, 0x63]]) sha256_final = sha256 (replicate 64 0) [0x61, 0x62, 0x63]"
proof -
  have "length (replicate 64 (0 :: u8)) = SHA256_BLOCK_LEN" by (simp add: SHA256_BLOCK_LEN_def)
  from sha256_streaming_correct [OF this, of "[[0x61], [0x62, 0x63]]" "[0x61, 0x62, 0x63]"] show ?thesis by simp
qed



text \<open>Rotations by the constants of the round functions, as products, which evaluate faster.\<close>

lemma rotr_code [code]: "rotr x n =
  (if n = 2 then drop_bit 2 x OR x * 0x40000000 else if n = 6 then drop_bit 6 x OR x * 0x4000000
   else if n = 7 then drop_bit 7 x OR x * 0x2000000 else if n = 11 then drop_bit 11 x OR x * 0x200000
   else if n = 13 then drop_bit 13 x OR x * 0x80000 else if n = 17 then drop_bit 17 x OR x * 0x8000
   else if n = 18 then drop_bit 18 x OR x * 0x4000 else if n = 19 then drop_bit 19 x OR x * 0x2000
   else if n = 22 then drop_bit 22 x OR x * 0x400 else if n = 25 then drop_bit 25 x OR x * 0x80
   else drop_bit n x OR push_bit (32 - n) x)"
  by (simp add: rotr_def push_bit_eq_mult)


end
