(* ===== verification/Charset.thy ===== *)
theory Charset
  imports Dos_Prelude
begin

text \<open>
  ISO-8859-2 and UTF-8, \<open>kernel/core/charset.c\<close>: the two conversions and the test for UTF-8 text.
  Buffers are byte lists; the output list is what was written, its length the returned count, and
  \<open>cap\<close> the room the caller gave.  A converted text comes back unchanged.
\<close>

section \<open>The code\<close>

definition l2_hi :: "u32 list" where
  "l2_hi = [
    0x00A0,0x0104,0x02D8,0x0141,0x00A4,0x013D,0x015A,0x00A7,0x00A8,0x0160,0x015E,0x0164,0x0179,0x00AD,0x017D,0x017B,
    0x00B0,0x0105,0x02DB,0x0142,0x00B4,0x013E,0x015B,0x02C7,0x00B8,0x0161,0x015F,0x0165,0x017A,0x02DD,0x017E,0x017C,
    0x0154,0x00C1,0x00C2,0x0102,0x00C4,0x0139,0x0106,0x00C7,0x010C,0x00C9,0x0118,0x00CB,0x011A,0x00CD,0x00CE,0x010E,
    0x0110,0x0143,0x0147,0x00D3,0x00D4,0x0150,0x00D6,0x00D7,0x0158,0x016E,0x00DA,0x0170,0x00DC,0x00DD,0x0162,0x00DF,
    0x0155,0x00E1,0x00E2,0x0103,0x00E4,0x013A,0x0107,0x00E7,0x010D,0x00E9,0x0119,0x00EB,0x011B,0x00ED,0x00EE,0x010F,
    0x0111,0x0144,0x0148,0x00F3,0x00F4,0x0151,0x00F6,0x00F7,0x0159,0x016F,0x00FA,0x0171,0x00FC,0x00FD,0x0163,0x02D9]"

definition l2_to_ucs :: "u8 \<Rightarrow> u32" where
  "l2_to_ucs b = (if b < 0xA0 then ucast b else l2_hi ! unat (b - 0xA0))"

text \<open>The search of the table, from index \<open>i\<close>; \<open>None\<close> is the result -1.\<close>

fun l2_search :: "u32 list \<Rightarrow> nat \<Rightarrow> u32 \<Rightarrow> nat option" where
  "l2_search [] i u = None"
| "l2_search (x # xs) i u = (if x = u then Some (0xA0 + i) else l2_search xs (i + 1) u)"

definition ucs_to_l2 :: "u32 \<Rightarrow> nat option" where
  "ucs_to_l2 u = (if u < 0xA0 then Some (unat u) else l2_search l2_hi 0 u)"

definition utf8_char :: "u32 \<Rightarrow> u8 list" where
  "utf8_char u =
     (if u < 0x80 then [ucast u]
      else if u < 0x800 then [ucast (0xC0 OR drop_bit 6 u), ucast (0x80 OR (u AND 0x3F))]
      else [ucast (0xE0 OR drop_bit 12 u), ucast (0x80 OR (drop_bit 6 u AND 0x3F)), ucast (0x80 OR (u AND 0x3F))])"

fun to_utf8_loop :: "nat \<Rightarrow> u8 list \<Rightarrow> u8 list \<Rightarrow> u8 list" where
  "to_utf8_loop cap [] out = out"
| "to_utf8_loop cap (b # bs) out =
     (let cs = utf8_char (l2_to_ucs b)
      in if length out + length cs > cap then out else to_utf8_loop cap bs (out @ cs))"

definition charset_latin2_to_utf8 :: "u8 list \<Rightarrow> nat \<Rightarrow> u8 list" where
  "charset_latin2_to_utf8 ins cap = to_utf8_loop cap ins []"

text \<open>The length a lead byte announces (0: none) and the bits it carries.\<close>

definition lead_len :: "u8 \<Rightarrow> nat" where
  "lead_len b = (if b < 0x80 then 1 else if b AND 0xE0 = 0xC0 then 2 else if b AND 0xF0 = 0xE0 then 3
     else if b AND 0xF8 = 0xF0 then 4 else 0)"

definition lead_bits :: "u8 \<Rightarrow> u32" where
  "lead_bits b = (if b < 0x80 then ucast b else if b AND 0xE0 = 0xC0 then ucast (b AND 0x1F)
     else if b AND 0xF0 = 0xE0 then ucast (b AND 0x0F) else ucast (b AND 0x07))"

definition is_cont :: "u8 \<Rightarrow> bool" where "is_cont c \<longleftrightarrow> c AND 0xC0 = 0x80"

function utf8_text_loop :: "u8 list \<Rightarrow> bool \<Rightarrow> bool" where
  "utf8_text_loop s multi =
     (if s = [] then multi
      else let len = lead_len (hd s)
           in if len = 0 \<or> len > length s then False
              else if \<not> list_all is_cont (take (len - 1) (tl s)) then False
              else utf8_text_loop (drop len s) (if len > 1 then True else multi))"
  by pat_completeness auto
termination by (relation "measure (\<lambda>(s, multi). length s)") auto

declare utf8_text_loop.simps [simp del]

definition charset_is_utf8_text :: "u8 list \<Rightarrow> bool" where
  "charset_is_utf8_text s = utf8_text_loop s False"

text \<open>The continuation bytes folded into the character; \<open>None\<close> at the first byte that is none.\<close>

fun cont_bits :: "u32 \<Rightarrow> u8 list \<Rightarrow> u32 option" where
  "cont_bits u [] = Some u"
| "cont_bits u (c # cs) = (if is_cont c then cont_bits (push_bit 6 u OR ucast (c AND 0x3F)) cs else None)"

text \<open>One step at a non-empty input: the byte written and how many are consumed.\<close>

definition from_utf8_step :: "u8 list \<Rightarrow> u8 \<times> nat" where
  "from_utf8_step ins =
     (let b = hd ins; len = lead_len b
      in if len = 0 \<or> len > length ins then (63, 1)
         else (case cont_bits (lead_bits b) (take (len - 1) (tl ins)) of
                 None \<Rightarrow> (63, 1)
               | Some u \<Rightarrow> ((case ucs_to_l2 u of None \<Rightarrow> 63 | Some l2 \<Rightarrow> of_nat l2), len)))"

lemma from_utf8_step_pos: "0 < snd (from_utf8_step ins)"
  by (auto simp: from_utf8_step_def Let_def split: option.splits)

function from_utf8_loop :: "nat \<Rightarrow> u8 list \<Rightarrow> u8 list \<Rightarrow> u8 list" where
  "from_utf8_loop cap ins out =
     (if ins = [] \<or> length out \<ge> cap then out
      else from_utf8_loop cap (drop (snd (from_utf8_step ins)) ins) (out @ [fst (from_utf8_step ins)]))"
  by pat_completeness auto
termination
  by (relation "measure (\<lambda>(cap, ins, out). length ins)") (auto simp: from_utf8_step_pos)

declare from_utf8_loop.simps [simp del]

definition charset_utf8_to_latin2 :: "u8 list \<Rightarrow> nat \<Rightarrow> u8 list" where
  "charset_utf8_to_latin2 ins cap = from_utf8_loop cap ins []"

section \<open>One character\<close>

text \<open>A character of two bytes is read back from them.\<close>

definition pair_good :: "u32 \<Rightarrow> bool" where
  "pair_good u \<longleftrightarrow> 0x80 \<le> u \<and> u < 0x800 \<and> lead_len (ucast (0xC0 OR drop_bit 6 u)) = 2 \<and>
     is_cont (ucast (0x80 OR (u AND 0x3F))) \<and>
     cont_bits (lead_bits (ucast (0xC0 OR drop_bit 6 u))) [ucast (0x80 OR (u AND 0x3F))] = Some u"

lemma pair_good_low: "list_all pair_good (map of_nat [0x80..<0xA0])"
  by code_simp

lemma pair_good_hi: "list_all pair_good l2_hi"
  by code_simp

lemma l2_hi_facts: "distinct l2_hi" "list_all (\<lambda>u. 0xA0 \<le> u) l2_hi" "length l2_hi = 96"
  by (simp_all add: l2_hi_def)

lemma l2_search_nth: "distinct xs \<Longrightarrow> i < length xs \<Longrightarrow> l2_search xs j (xs ! i) = Some (0xA0 + j + i)"
proof (induction xs arbitrary: i j)
  case (Cons x xs)
  then show ?case by (cases i) auto
qed simp

lemma low_bytes: "b < 0x80 \<Longrightarrow> utf8_char (l2_to_ucs b) = [b]"
proof -
  assume b: "b < 0x80"
  then have "ucast b < (0x80 :: u32)" by (simp add: word_less_nat_alt unsigned_ucast_eq take_bit_nat_eq_self)
  moreover have "b < 0xA0" using b by (rule less_trans) simp
  moreover have "ucast (ucast b :: u32) = b" by (rule bit_word_eqI) (simp add: bit_simps)
  ultimately show ?thesis by (simp add: utf8_char_def l2_to_ucs_def)
qed

lemma high_bytes:
  assumes "\<not> b < 0x80"
  shows "pair_good (l2_to_ucs b)" and "ucs_to_l2 (l2_to_ucs b) = Some (unat b)"
proof -
  have ub: "unat b < 256" "128 \<le> unat b"
    using unsigned_less [of b, where ?'a = nat] assms by (simp_all add: not_less word_le_nat_alt)
  show "pair_good (l2_to_ucs b)" and "ucs_to_l2 (l2_to_ucs b) = Some (unat b)"
  proof (atomize (full), cases "b < 0xA0")
    case True
    then have "unat b < 0xA0" by (simp add: word_less_nat_alt)
    then have "of_nat (unat b) \<in> (of_nat ` {0x80..<0xA0} :: u32 set)" using ub by (intro imageI) simp
    then have "pair_good (of_nat (unat b))"
      using pair_good_low [unfolded list_all_iff set_map set_upt] by blast
    then have "pair_good (ucast b)" by simp
    moreover have "unat (ucast b :: u32) = unat b" using ub by (simp add: unsigned_ucast_eq take_bit_nat_eq_self)
    ultimately show "pair_good (l2_to_ucs b) \<and> ucs_to_l2 (l2_to_ucs b) = Some (unat b)"
      using True by (simp add: l2_to_ucs_def ucs_to_l2_def word_less_nat_alt)
  next
    case False
    then have d: "unat (b - 0xA0) = unat b - 0xA0" "0xA0 \<le> unat b" by (simp_all add: unat_sub_le not_less word_le_nat_alt)
    then have i: "unat (b - 0xA0) < length l2_hi" using ub l2_hi_facts(3) by simp
    have m: "l2_hi ! unat (b - 0xA0) \<in> set l2_hi" using i by simp
    then have "\<not> l2_hi ! unat (b - 0xA0) < 0xA0" using l2_hi_facts(2) by (auto simp: list_all_iff not_less)
    moreover have "pair_good (l2_hi ! unat (b - 0xA0))" using m pair_good_hi by (simp add: list_all_iff)
    ultimately show "pair_good (l2_to_ucs b) \<and> ucs_to_l2 (l2_to_ucs b) = Some (unat b)"
      using False d l2_search_nth [OF l2_hi_facts(1) i, of 0] by (simp add: l2_to_ucs_def ucs_to_l2_def)
  qed
qed

lemma utf8_char_cases:
  obtains "b < 0x80" "utf8_char (l2_to_ucs b) = [b]"
  | x y u where "\<not> b < 0x80" "utf8_char (l2_to_ucs b) = [x, y]" "lead_len x = 2" "is_cont y"
      "cont_bits (lead_bits x) [y] = Some u" "ucs_to_l2 u = Some (unat b)"
proof (cases "b < 0x80")
  case True
  then show ?thesis using that(1) low_bytes by blast
next
  case False
  note H = high_bytes [OF False]
  then have "utf8_char (l2_to_ucs b) =
      [ucast (0xC0 OR drop_bit 6 (l2_to_ucs b)), ucast (0x80 OR (l2_to_ucs b AND 0x3F))]"
    by (auto simp: utf8_char_def pair_good_def not_less)
  then show ?thesis using that(2) [OF False] H by (auto simp: pair_good_def)
qed

section \<open>Whole texts\<close>

lemma to_utf8_loop_all:
  "length out + 2 * length bs \<le> cap \<Longrightarrow>
   to_utf8_loop cap bs out = out @ concat (map (\<lambda>b. utf8_char (l2_to_ucs b)) bs)"
proof (induction bs arbitrary: out)
  case (Cons b bs)
  have "length (utf8_char (l2_to_ucs b)) \<le> 2" by (rule utf8_char_cases [of b]) auto
  then show ?case using Cons by (simp add: Let_def)
qed simp

lemma to_utf8_loop_cap: "length out \<le> cap \<Longrightarrow> length (to_utf8_loop cap bs out) \<le> cap"
  by (induction bs arbitrary: out) (auto simp: Let_def)

lemma from_utf8_loop_cap: "length out \<le> cap \<Longrightarrow> length (from_utf8_loop cap ins out) \<le> cap"
proof (induction cap ins out rule: from_utf8_loop.induct)
  case (1 cap ins out)
  then show ?case by (subst from_utf8_loop.simps) auto
qed

lemma step_encoded: "from_utf8_step (utf8_char (l2_to_ucs b) @ rest) = (b, length (utf8_char (l2_to_ucs b)))"
proof (rule utf8_char_cases [of b])
  assume "b < 0x80" "utf8_char (l2_to_ucs b) = [b]"
  moreover have "ucast b < (0xA0 :: u32)" "unat (ucast b :: u32) = unat b"
    using calculation(1) by (simp_all add: word_less_nat_alt unsigned_ucast_eq take_bit_nat_eq_self)
  ultimately show ?thesis by (simp add: from_utf8_step_def lead_len_def lead_bits_def ucs_to_l2_def)
next
  fix x y u
  assume "\<not> b < 0x80" "utf8_char (l2_to_ucs b) = [x, y]" "lead_len x = 2" "is_cont y"
    "cont_bits (lead_bits x) [y] = Some u" "ucs_to_l2 u = Some (unat b)"
  then show ?thesis by (simp add: from_utf8_step_def Let_def)
qed

lemma from_utf8_encoded:
  "length out + length bs \<le> cap \<Longrightarrow>
   from_utf8_loop cap (concat (map (\<lambda>b. utf8_char (l2_to_ucs b)) bs)) out = out @ bs"
proof (induction bs arbitrary: out)
  case Nil
  then show ?case by (subst from_utf8_loop.simps) simp
next
  case (Cons b bs)
  have "utf8_char (l2_to_ucs b) \<noteq> []" by (rule utf8_char_cases [of b]) auto
  then show ?case using Cons by (subst from_utf8_loop.simps) (simp add: step_encoded)
qed

lemma utf8_text_encoded:
  "utf8_text_loop (concat (map (\<lambda>b. utf8_char (l2_to_ucs b)) bs)) multi = (multi \<or> (\<exists>b \<in> set bs. \<not> b < 0x80))"
proof (induction bs arbitrary: multi)
  case Nil
  then show ?case by (subst utf8_text_loop.simps) simp
next
  case (Cons b bs)
  show ?case
  proof (rule utf8_char_cases [of b])
    assume "b < 0x80" "utf8_char (l2_to_ucs b) = [b]"
    then show ?thesis using Cons by (subst utf8_text_loop.simps) (simp add: lead_len_def)
  next
    fix x y assume "\<not> b < 0x80" "utf8_char (l2_to_ucs b) = [x, y]" "lead_len x = 2" "is_cont y"
    then show ?thesis using Cons by (subst utf8_text_loop.simps) simp
  qed
qed

section \<open>Properties\<close>

text \<open>C29: a Latin-2 text converted to UTF-8 (with two bytes of room per character) and back (with one) is
  unchanged; the UTF-8 is recognised as such exactly when the text has a byte above 0x7F.\<close>

theorem charset_roundtrip:
  assumes "2 * length s \<le> cap" and "length s \<le> cap'"
  shows "charset_utf8_to_latin2 (charset_latin2_to_utf8 s cap) cap' = s \<and>
    charset_is_utf8_text (charset_latin2_to_utf8 s cap) = (\<exists>b \<in> set s. \<not> b < 0x80)"
  using assms to_utf8_loop_all [of "[]" s cap] from_utf8_encoded [of "[]" s cap'] utf8_text_encoded [of s False]
  by (simp add: charset_latin2_to_utf8_def charset_utf8_to_latin2_def charset_is_utf8_text_def)

theorem charset_roundtrip_witness:
  "charset_utf8_to_latin2 (charset_latin2_to_utf8 [0x61, 0xF5, 0xFB] 6) 3 = [0x61, 0xF5, 0xFB] \<and>
   charset_latin2_to_utf8 [0x61, 0xF5, 0xFB] 6 = [0x61, 0xC5, 0x91, 0xC5, 0xB1]"
proof
  show "charset_utf8_to_latin2 (charset_latin2_to_utf8 [0x61, 0xF5, 0xFB] 6) 3 = [0x61, 0xF5, 0xFB]"
    using charset_roundtrip [of "[0x61, 0xF5, 0xFB]" 6 3] by simp
  show "charset_latin2_to_utf8 [0x61, 0xF5, 0xFB] 6 = [0x61, 0xC5, 0x91, 0xC5, 0xB1]" by code_simp
qed

text \<open>C30: neither conversion writes past the room it was given, whatever the input.\<close>

theorem charset_stays_in_buffer:
  "length (charset_latin2_to_utf8 s cap) \<le> cap \<and> length (charset_utf8_to_latin2 t cap') \<le> cap'"
  by (simp add: charset_latin2_to_utf8_def charset_utf8_to_latin2_def to_utf8_loop_cap from_utf8_loop_cap)

end
