(* ===== verification/Partition.thy ===== *)
theory Partition
  imports Dos_Prelude
begin

text \<open>
  MBR and GPT partition tables, \<open>kernel/core/partition.c\<close>.  A C buffer is a function from offsets to
  bytes; a disk is its name, sector count and sectors, with the sectors that cannot be read and
  whether its driver writes (\<open>struct block_device\<close> over a driver that does what it reports).  The table
  \<open>g_parts\<close> is a list of \<open>PART_MAX\<close> slots.  Whether \<open>blk_register\<close> takes a name, which devices are
  mounted, whether an allocation succeeds and the random bytes are arguments.
\<close>

type_synonym cbuf = "nat \<Rightarrow> u8"

definition PART_MAX :: nat where "PART_MAX = 32"
definition SEC :: nat where "SEC = 512"

record disk =
  dk_name :: string
  dk_secsize :: u32
  dk_count :: u64
  dk_data :: "u64 \<Rightarrow> cbuf"
  dk_bad :: "u64 \<Rightarrow> bool"
  dk_writes :: bool

record part =
  pt_disk :: string
  pt_start :: u64
  pt_count :: u64
  pt_num :: nat
  pt_name :: string
  pt_type :: string
  pt_label :: string
  pt_writes :: bool

type_synonym parts = "part option list"

record part_env =
  pe_register :: "string \<Rightarrow> bool"
  pe_mounted :: "string \<Rightarrow> bool"
  pe_alloc :: bool
  pe_write :: "nat \<Rightarrow> bool"
  pe_rand1 :: cbuf
  pe_rand2 :: cbuf
  pe_sig :: u32

section \<open>Little-endian helpers and the checksum\<close>

definition le32 :: "cbuf \<Rightarrow> nat \<Rightarrow> u32" where
  "le32 p i = ucast (p i) OR push_bit 8 (ucast (p (i + 1))) OR push_bit 16 (ucast (p (i + 2))) OR push_bit 24 (ucast (p (i + 3)))"

definition le64 :: "cbuf \<Rightarrow> nat \<Rightarrow> u64" where
  "le64 p i = ucast (le32 p i) OR push_bit 32 (ucast (le32 p (i + 4)))"

definition put32 :: "cbuf \<Rightarrow> nat \<Rightarrow> u32 \<Rightarrow> cbuf" where
  "put32 p i v = p(i := ucast v, i + 1 := ucast (drop_bit 8 v), i + 2 := ucast (drop_bit 16 v), i + 3 := ucast (drop_bit 24 v))"

definition put64 :: "cbuf \<Rightarrow> nat \<Rightarrow> u64 \<Rightarrow> cbuf" where
  "put64 p i v = put32 (put32 p i (ucast v)) (i + 4) (ucast (drop_bit 32 v))"

definition crc_bit :: "u32 \<Rightarrow> u32" where
  "crc_bit c = drop_bit 1 c XOR (0xEDB88320 AND - (c AND 1))"

fun crc_loop :: "cbuf \<Rightarrow> nat \<Rightarrow> nat \<Rightarrow> u32 \<Rightarrow> u32" where
  "crc_loop p i 0 c = c"
| "crc_loop p i (Suc n) c =
     crc_loop p (i + 1) n (crc_bit (crc_bit (crc_bit (crc_bit (crc_bit (crc_bit (crc_bit (crc_bit (c XOR ucast (p i))))))))))"

definition crc32 :: "cbuf \<Rightarrow> nat \<Rightarrow> u32" where
  "crc32 p n = NOT (crc_loop p 0 n 0xFFFFFFFF)"

section \<open>The devices\<close>

definition disk_read :: "disk \<Rightarrow> u64 \<Rightarrow> nat \<Rightarrow> cbuf option" where
  "disk_read d lba n =
     (if list_ex (\<lambda>i. dk_bad d (lba + of_nat i)) [0..<n] then None
      else Some (\<lambda>i. dk_data d (lba + of_nat (i div SEC)) (i mod SEC)))"

definition disk_write :: "disk \<Rightarrow> u64 \<Rightarrow> nat \<Rightarrow> cbuf \<Rightarrow> disk" where
  "disk_write d lba n b =
     d\<lparr>dk_data := (\<lambda>s. if unat (s - lba) < n then (\<lambda>i. b (unat (s - lba) * SEC + i)) else dk_data d s)\<rparr>"

definition p_read :: "disk \<Rightarrow> part \<Rightarrow> u64 \<Rightarrow> u32 \<Rightarrow> cbuf option" where
  "p_read d p lba count =
     (if lba \<ge> pt_count p \<or> ucast count > pt_count p - lba then None
      else disk_read d (pt_start p + lba) (unat count))"

definition p_write :: "disk \<Rightarrow> part \<Rightarrow> u64 \<Rightarrow> u32 \<Rightarrow> cbuf \<Rightarrow> disk option" where
  "p_write d p lba count b =
     (if \<not> dk_writes d then None
      else if lba \<ge> pt_count p \<or> ucast count > pt_count p - lba then None
      else Some (disk_write d (pt_start p + lba) (unat count) b))"

section \<open>Adding a partition\<close>

definition is_digit :: "char \<Rightarrow> bool" where
  "is_digit c \<longleftrightarrow> 48 \<le> (of_char c :: nat) \<and> (of_char c :: nat) \<le> 57"

definition part_name :: "string \<Rightarrow> nat \<Rightarrow> string" where
  "part_name disk_name num =
     (let n = take 10 disk_name;
          n1 = (if n \<noteq> [] \<and> is_digit (last n) then n @ ''p'' else n);
          n2 = (if num \<ge> 10 then n1 @ [char_of (48 + num div 10)] else n1)
      in n2 @ [char_of (48 + num mod 10)])"

definition str_put :: "nat \<Rightarrow> string \<Rightarrow> string" where
  "str_put cap s = take (cap - 1) s"

fun free_slot :: "parts \<Rightarrow> nat option" where
  "free_slot [] = None"
| "free_slot (None # ps) = Some 0"
| "free_slot (Some p # ps) = map_option Suc (free_slot ps)"

definition add_part ::
    "part_env \<Rightarrow> disk \<Rightarrow> nat \<Rightarrow> u64 \<Rightarrow> u64 \<Rightarrow> string \<Rightarrow> string \<Rightarrow> parts \<Rightarrow> bool \<times> parts" where
  "add_part env d num start count type label ps =
     (if count = 0 \<or> start \<ge> dk_count d \<or> count > dk_count d - start then (False, ps)
      else (case free_slot ps of
              None \<Rightarrow> (False, ps)
            | Some i \<Rightarrow>
                (let p = \<lparr>pt_disk = dk_name d, pt_start = start, pt_count = count, pt_num = num,
                          pt_name = part_name (dk_name d) num, pt_type = str_put 24 type, pt_label = str_put 40 label,
                          pt_writes = dk_writes d\<rparr>
                 in if pe_register env (pt_name p) then (True, ps[i := Some p]) else (False, ps))))"

section \<open>MBR\<close>

definition mbr_type :: "u8 \<Rightarrow> string" where
  "mbr_type t =
     (if t = 0x07 then ''exFAT/NTFS'' else if t = 0x0B \<or> t = 0x0C then ''FAT32''
      else if t = 0x0E \<or> t = 0x06 then ''FAT16'' else if t = 0x83 then ''Linux''
      else if t = 0x82 then ''Linux swap'' else if t = 0xEF then ''EFI system'' else ''MBR'')"

definition is_extended :: "u8 \<Rightarrow> bool" where
  "is_extended t \<longleftrightarrow> t = 0x05 \<or> t = 0x0F \<or> t = 0x85"

definition count_added :: "nat \<Rightarrow> bool \<times> parts \<Rightarrow> nat \<times> parts" where
  "count_added found r = (if fst r then found + 1 else found, snd r)"

text \<open>The logical partition of one extended boot record: the next number and the scan so far.\<close>

definition ebr_logical :: "part_env \<Rightarrow> disk \<Rightarrow> cbuf \<Rightarrow> u64 \<Rightarrow> nat \<Rightarrow> nat \<times> parts \<Rightarrow> nat \<times> nat \<times> parts" where
  "ebr_logical env d b ebr num st =
     (if b (446 + 4) \<noteq> 0 \<and> le32 b (446 + 12) \<noteq> 0 then
        (num + 1, count_added (fst st) (add_part env d num (ebr + ucast (le32 b (446 + 8))) (ucast (le32 b (446 + 12)))
                    (mbr_type (b (446 + 4))) [] (snd st)))
      else (num, st))"

text \<open>The chain of extended boot records, at most \<open>k\<close> more: the partitions found so far and the table.\<close>

fun ebr_chain :: "part_env \<Rightarrow> disk \<Rightarrow> nat \<Rightarrow> u64 \<Rightarrow> u64 \<Rightarrow> nat \<Rightarrow> nat \<times> parts \<Rightarrow> nat \<times> parts" where
  "ebr_chain env d 0 ext ebr num st = st"
| "ebr_chain env d (Suc k) ext ebr num st =
     (if ebr \<ge> dk_count d then st
      else (case disk_read d ebr 1 of
              None \<Rightarrow> st
            | Some b \<Rightarrow>
                if b 510 \<noteq> 0x55 \<or> b 511 \<noteq> 0xAA then st
                else (case ebr_logical env d b ebr num st of (num', st') \<Rightarrow>
                        if \<not> is_extended (b (446 + 16 + 4)) \<or> le32 b (446 + 16 + 8) = 0 then st'
                        else ebr_chain env d k ext (ext + ucast (le32 b (446 + 16 + 8))) num' st')))"

definition mbr_entry :: "part_env \<Rightarrow> disk \<Rightarrow> cbuf \<Rightarrow> nat \<Rightarrow> nat \<times> parts \<Rightarrow> nat \<times> parts" where
  "mbr_entry env d s0 i st =
     (let e = 446 + i * 16; type = s0 (e + 4); start = le32 s0 (e + 8); cnt = le32 s0 (e + 12)
      in if type = 0 \<or> cnt = 0 then st
         else if \<not> is_extended type then
           count_added (fst st) (add_part env d (i + 1) (ucast start) (ucast cnt) (mbr_type type) [] (snd st))
         else ebr_chain env d 64 (ucast start) (ucast start) 5 st)"

definition scan_mbr :: "part_env \<Rightarrow> disk \<Rightarrow> cbuf \<Rightarrow> parts \<Rightarrow> nat \<times> parts" where
  "scan_mbr env d s0 ps = fold (mbr_entry env d s0) [0..<4] (0, ps)"

section \<open>GPT\<close>

definition GUID_BASIC_DATA :: "u8 list" where
  "GUID_BASIC_DATA = [0xA2,0xA0,0xD0,0xEB, 0xE5,0xB9, 0x33,0x44, 0x87,0xC0, 0x68,0xB6,0xB7,0x26,0x99,0xC7]"
definition GUID_EFI_SYS :: "u8 list" where
  "GUID_EFI_SYS = [0x28,0x73,0x2A,0xC1, 0x1F,0xF8, 0xD2,0x11, 0xBA,0x4B, 0x00,0xA0,0xC9,0x3E,0xC9,0x3B]"
definition GUID_LINUX_FS :: "u8 list" where
  "GUID_LINUX_FS = [0xAF,0x3D,0xC6,0x0F, 0x83,0x84, 0x72,0x47, 0x8E,0x79, 0x3D,0x69,0xD8,0x47,0x7D,0xE4]"

definition gpt_sig :: "u8 list" where
  "gpt_sig = [0x45, 0x46, 0x49, 0x20, 0x50, 0x41, 0x52, 0x54]"

text \<open>The first bytes of a buffer at an offset.\<close>

definition bytes_at :: "cbuf \<Rightarrow> nat \<Rightarrow> nat \<Rightarrow> u8 list" where
  "bytes_at p i n = map (\<lambda>k. p (i + k)) [0..<n]"

definition gpt_type :: "u8 list \<Rightarrow> string" where
  "gpt_type g =
     (if g = GUID_BASIC_DATA then ''basic data'' else if g = GUID_EFI_SYS then ''EFI system''
      else if g = GUID_LINUX_FS then ''Linux'' else ''GPT'')"

text \<open>The header at \<open>lba\<close> and its entries, or the negative code of the first check that fails.\<close>

definition gpt_load :: "part_env \<Rightarrow> disk \<Rightarrow> u64 \<Rightarrow> int + (cbuf \<times> u32 \<times> u32)" where
  "gpt_load env d lba =
     (if lba \<ge> dk_count d then Inl (- 1)
      else (case disk_read d lba 1 of
              None \<Rightarrow> Inl (- 1)
            | Some hdr \<Rightarrow>
                if bytes_at hdr 0 8 \<noteq> gpt_sig then Inl (- 2)
                else let hsz = le32 hdr 12
                     in if hsz < 92 \<or> unat hsz > SEC then Inl (- 3)
                        else if crc32 (put32 hdr 16 0) (unat hsz) \<noteq> le32 hdr 16 then Inl (- 4)
                        else let n = le32 hdr 80; esz = le32 hdr 84
                             in if esz < 128 \<or> esz > 1024 \<or> n = 0 \<or> n > 1024 then Inl (- 5)
                                else let bytes = n * esz; secs = (bytes + of_nat SEC - 1) div of_nat SEC
                                     in if \<not> pe_alloc env then Inl (- 6)
                                        else (case disk_read d (le64 hdr 72) (unat secs) of
                                                None \<Rightarrow> Inl (- 7)
                                              | Some e \<Rightarrow>
                                                  if crc32 e (unat bytes) \<noteq> le32 hdr 88 then Inl (- 8)
                                                  else Inr (e, n, esz))))"

text \<open>The name of an entry: UTF-16LE, its ASCII part.\<close>

fun gpt_label :: "cbuf \<Rightarrow> nat \<Rightarrow> nat \<Rightarrow> nat \<Rightarrow> string" where
  "gpt_label e base k 0 = []"
| "gpt_label e base k (Suc n) =
     (let ch = ucast (e (base + 56 + 2 * k)) OR push_bit 8 (ucast (e (base + 57 + 2 * k))) :: u16
      in if ch = 0 then []
         else (if ch < 0x80 \<and> ch \<ge> 0x20 then char_of (unat ch) else CHR ''?'') # gpt_label e base (k + 1) n)"

definition gpt_entry :: "part_env \<Rightarrow> disk \<Rightarrow> cbuf \<Rightarrow> u32 \<Rightarrow> nat \<Rightarrow> nat \<times> parts \<Rightarrow> nat \<times> parts" where
  "gpt_entry env d ents esz i st =
     (let base = i * unat esz; g = bytes_at ents base 16; first = le64 ents (base + 32); lst = le64 ents (base + 40)
      in if list_all (\<lambda>b. b = 0) g then st
         else if lst < first then st
         else count_added (fst st)
                (add_part env d (i + 1) first (lst - first + 1) (gpt_type g) (gpt_label ents base 0 36) (snd st)))"

definition scan_gpt :: "part_env \<Rightarrow> disk \<Rightarrow> parts \<Rightarrow> nat \<times> parts" where
  "scan_gpt env d ps =
     (case (case gpt_load env d 1 of Inr x \<Rightarrow> Some x
            | Inl rc \<Rightarrow> (case gpt_load env d (dk_count d - 1) of Inr x \<Rightarrow> Some x | Inl rb \<Rightarrow> None)) of
        None \<Rightarrow> (0, ps)
      | Some (ents, n, esz) \<Rightarrow> fold (gpt_entry env d ents esz) [0..<min (unat n) 99] (0, ps))"

text \<open>A file-system boot sector, told from a table by its signature.\<close>

definition fs_boot_sector :: "cbuf \<Rightarrow> bool" where
  "fs_boot_sector s0 \<longleftrightarrow>
     s0 3 = 0x45 \<and> s0 4 = 0x58 \<and> s0 5 = 0x46 \<and> s0 6 = 0x41 \<and> s0 7 = 0x54 \<or>
     s0 82 = 0x46 \<and> s0 83 = 0x41 \<and> s0 84 = 0x54 \<or> s0 54 = 0x46 \<and> s0 55 = 0x41 \<and> s0 56 = 0x54"

definition part_scan :: "part_env \<Rightarrow> disk \<Rightarrow> parts \<Rightarrow> nat \<times> parts" where
  "part_scan env d ps =
     (if dk_secsize d \<noteq> of_nat SEC \<or> dk_count d < 64 then (0, ps)
      else if \<not> pe_alloc env then (0, ps)
      else (case disk_read d 0 1 of
              None \<Rightarrow> (0, ps)
            | Some s0 \<Rightarrow>
                if s0 510 = 0x55 \<and> s0 511 = 0xAA then
                  (if list_ex (\<lambda>i. s0 (446 + i * 16 + 4) = 0xEE) [0..<4] then scan_gpt env d ps
                   else if \<not> fs_boot_sector s0 then scan_mbr env d s0 ps else (0, ps))
                else (0, ps)))"

definition part_forget :: "disk \<Rightarrow> parts \<Rightarrow> parts" where
  "part_forget d ps = map (\<lambda>x. case x of None \<Rightarrow> None | Some p \<Rightarrow> if pt_disk p \<noteq> dk_name d then Some p else None) ps"

section \<open>Writing a table\<close>

definition busy :: "part_env \<Rightarrow> disk \<Rightarrow> parts \<Rightarrow> bool" where
  "busy env d ps \<longleftrightarrow> pe_mounted env (dk_name d) \<or>
     list_ex (\<lambda>x. case x of None \<Rightarrow> False | Some p \<Rightarrow> pt_disk p = dk_name d \<and> pe_mounted env (pt_name p)) ps"

fun store_bytes :: "cbuf \<Rightarrow> nat \<Rightarrow> u8 list \<Rightarrow> cbuf" where
  "store_bytes p i [] = p"
| "store_bytes p i (b # bs) = store_bytes (p(i := b)) (i + 1) bs"

definition START :: u64 where "START = 2048"

text \<open>A version-4 identifier over sixteen random bytes.\<close>

definition v4_guid :: "cbuf \<Rightarrow> u8 list" where
  "v4_guid r = map (\<lambda>k. if k = 7 then (r k AND 0x0F) OR 0x40 else if k = 8 then (r k AND 0x3F) OR 0x80 else r k) [0..<16]"

definition mbr_sector :: "part_env \<Rightarrow> u64 \<Rightarrow> cbuf" where
  "mbr_sector env tot =
     (let cnt = (if tot - START > 0xFFFFFFFF then 0xFFFFFFFF else tot - START);
          b1 = store_bytes (\<lambda>i. 0) 446 [0x00, 0xFE, 0xFF, 0xFF, 0x07, 0xFE, 0xFF, 0xFF];
          b2 = put32 (put32 b1 (446 + 8) (ucast START)) (446 + 12) (ucast cnt);
          b3 = put32 b2 440 (pe_sig env)
      in b3(510 := 0x55, 511 := 0xAA))"

definition last_usable :: "u64 \<Rightarrow> u64" where "last_usable tot = tot - 34"
definition gpt_end :: "u64 \<Rightarrow> u64" where "gpt_end tot = ((last_usable tot + 1) div 2048) * 2048 - 1"

definition gpt_name :: "u8 list" where
  "gpt_name = [0x64, 0x2d, 0x6f, 0x73, 0x20, 0x64, 0x61, 0x74, 0x61]"

fun put_wide :: "cbuf \<Rightarrow> nat \<Rightarrow> u8 list \<Rightarrow> cbuf" where
  "put_wide p i [] = p"
| "put_wide p i (b # bs) = put_wide (p(i := b)) (i + 2) bs"

definition gpt_ents :: "part_env \<Rightarrow> u64 \<Rightarrow> cbuf" where
  "gpt_ents env tot =
     (let e1 = store_bytes (\<lambda>i. 0) 0 GUID_BASIC_DATA;
          e2 = store_bytes e1 16 (v4_guid (pe_rand1 env));
          e3 = put64 (put64 e2 32 START) 40 (gpt_end tot)
      in put_wide e3 56 gpt_name)"

text \<open>The primary header before its checksum and with it, and the backup: the same header naming itself.\<close>

definition gpt_hdr0 :: "part_env \<Rightarrow> u64 \<Rightarrow> cbuf" where
  "gpt_hdr0 env tot =
     (let h1 = store_bytes (\<lambda>i. 0) 0 gpt_sig;
          h2 = put32 (put32 h1 8 0x00010000) 12 92;
          h3 = put64 (put64 h2 24 1) 32 (tot - 1);
          h4 = put64 (put64 h3 40 34) 48 (last_usable tot);
          h5 = store_bytes h4 56 (v4_guid (pe_rand2 env));
          h6 = put64 h5 72 2
      in put32 (put32 (put32 h6 80 128) 84 128) 88 (crc32 (gpt_ents env tot) (128 * 128)))"

definition gpt_hdr :: "part_env \<Rightarrow> u64 \<Rightarrow> cbuf" where
  "gpt_hdr env tot = (let h = gpt_hdr0 env tot in put32 h 16 (crc32 h 92))"

definition gpt_backup_hdr :: "part_env \<Rightarrow> u64 \<Rightarrow> cbuf" where
  "gpt_backup_hdr env tot =
     (let b1 = put64 (put64 (put64 (gpt_hdr env tot) 24 (tot - 1)) 32 1) 72 (tot - 33);
          b2 = put32 b1 16 0
      in put32 b2 16 (crc32 b2 92))"

definition protective_mbr :: "u64 \<Rightarrow> cbuf" where
  "protective_mbr tot =
     (let m1 = store_bytes (\<lambda>i. 0) 447 [0x00, 0x02, 0x00, 0xEE, 0xFF, 0xFF, 0xFF];
          m2 = put32 (put32 m1 (446 + 8) 1) (446 + 12) (if tot - 1 > 0xFFFFFFFF then 0xFFFFFFFF else ucast (tot - 1))
      in m2(510 := 0x55, 511 := 0xAA))"

text \<open>The first 34 sectors of a fresh GPT disk.\<close>

definition gpt_front :: "part_env \<Rightarrow> u64 \<Rightarrow> cbuf" where
  "gpt_front env tot = (\<lambda>i.
     if i < SEC then protective_mbr tot i
     else if i < 2 * SEC then gpt_hdr env tot (i - SEC)
     else gpt_ents env tot (i - 2 * SEC))"

text \<open>The writes in order; the first that fails (the \<open>pe_write\<close> of the environment) ends the call and is
  taken to have written nothing.\<close>

definition write_table :: "part_env \<Rightarrow> disk \<Rightarrow> bool \<Rightarrow> bool \<times> disk" where
  "write_table env d gpt =
     (let tot = dk_count d
      in if \<not> gpt then (if pe_write env 0 then (True, disk_write d 0 1 (mbr_sector env tot)) else (False, d))
         else if \<not> pe_write env 0 then (False, d)
         else let d1 = disk_write d 0 34 (gpt_front env tot)
              in if \<not> pe_write env 1 then (False, d1)
                 else let d2 = disk_write d1 (tot - 33) 32 (gpt_ents env tot)
                      in if \<not> pe_write env 2 then (False, d2)
                         else (True, disk_write d2 (tot - 1) 1 (gpt_backup_hdr env tot)))"

definition part_create_one :: "part_env \<Rightarrow> disk \<Rightarrow> bool \<Rightarrow> parts \<Rightarrow> int \<times> disk \<times> parts" where
  "part_create_one env d gpt ps =
     (if \<not> dk_writes d then (- 1, d, ps)
      else if dk_secsize d \<noteq> of_nat SEC \<or> dk_count d < 8192 then (- 3, d, ps)
      else if busy env d ps then (- 2, d, ps)
      else if \<not> pe_alloc env then (- 4, d, ps)
      else (case write_table env d gpt of
              (False, d') \<Rightarrow> (- 5, d', ps)
            | (True, d') \<Rightarrow>
                (case part_scan env d' (part_forget d ps) of (n, ps') \<Rightarrow> (if n = 1 then 0 else - 6, d', ps'))))"

end
