(* ===== verification/Partition_Table.thy ===== *)
theory Partition_Table
  imports Partition_Spec
begin

text \<open>
  A fresh table is read back: what \<open>part_scan\<close> finds on a disk that \<open>part_create_one\<close> wrote.
\<close>

section \<open>Reading what was written\<close>

lemmas buf_simps = put32_other put64_other le32_put32_other le32_put64_other le64_put64_other le64_put32_other
  store_bytes_at store_wide_at

lemma read_one:
  assumes "\<not> dk_bad d s"
  obtains b where "disk_read d s 1 = Some b" "\<And>i. i < 512 \<Longrightarrow> b i = dk_data d s i"
  using that [of "\<lambda>i. dk_data d (s + of_nat (i div SEC)) (i mod SEC)"] assms
  by (simp add: disk_read_def SEC_def)

text \<open>A buffer that agrees with another on the first sector.\<close>

definition sector_eq :: "cbuf \<Rightarrow> cbuf \<Rightarrow> bool" where
  "sector_eq p q \<longleftrightarrow> (\<forall>i < 512. p i = q i)"

lemma sector_eqD:
  assumes "sector_eq p q"
  shows "i < 512 \<Longrightarrow> p i = q i" and "i + 4 \<le> 512 \<Longrightarrow> le32 p i = le32 q i" and "i + 8 \<le> 512 \<Longrightarrow> le64 p i = le64 q i"
    and "n \<le> 512 \<Longrightarrow> crc32 p n = crc32 q n" and "i + n \<le> 512 \<Longrightarrow> bytes_at p i n = bytes_at q i n"
  using assms by (auto simp: sector_eq_def intro!: le_cong crc32_cong bytes_at_cong)

section \<open>MBR\<close>

definition mbr_count :: "u64 \<Rightarrow> u64" where
  "mbr_count tot = (if tot - START > 0xFFFFFFFF then 0xFFFFFFFF else tot - START)"

lemma mbr_sector_bytes:
  "mbr_sector env tot 510 = 0x55" "mbr_sector env tot 511 = 0xAA" "mbr_sector env tot 450 = 7"
  "mbr_sector env tot 466 = 0" "mbr_sector env tot 482 = 0" "mbr_sector env tot 498 = 0"
  "mbr_sector env tot 3 = 0" "mbr_sector env tot 54 = 0" "mbr_sector env tot 82 = 0"
  by (simp_all add: mbr_sector_def Let_def buf_simps)

lemma mbr_sector_entry:
  "le32 (mbr_sector env tot) 454 = 2048" "le32 (mbr_sector env tot) 458 = ucast (mbr_count tot)"
proof -
  have u: "le32 (p(510 := x, 511 := y)) i = le32 p i" if "i + 3 < 510" for p x y i
    using that by (simp add: le32_def)
  show "le32 (mbr_sector env tot) 454 = 2048" "le32 (mbr_sector env tot) 458 = ucast (mbr_count tot)"
    by (simp_all add: mbr_sector_def Let_def u buf_simps mbr_count_def START_def)
qed

lemma mbr_count_ok:
  assumes "8192 \<le> tot"
  shows "ucast (ucast (mbr_count tot) :: u32) = mbr_count tot" and "mbr_count tot \<noteq> 0"
    and "mbr_count tot \<le> tot - 2048" and "(2048 :: u64) < tot" and "(ucast (mbr_count tot) :: u32) \<noteq> 0"
proof -
  have t: "8192 \<le> unat tot" using assms by (simp add: word_le_nat_alt)
  show lt: "2048 < tot" using t by (simp add: word_less_nat_alt)
  have d: "unat (tot - 2048) = unat tot - 2048" using t by (subst unat_sub_le) (simp_all add: word_le_nat_alt)
  have "mbr_count tot \<le> 0xFFFFFFFF" by (auto simp: mbr_count_def not_less)
  then have "unat (mbr_count tot) < 2 ^ 32" by (simp add: word_le_nat_alt)
  then have "unat (ucast (ucast (mbr_count tot) :: u32) :: u64) = unat (mbr_count tot)"
    by (simp add: unsigned_ucast_eq unsigned_take_bit_eq take_bit_nat_eq_self)
  then show cc: "ucast (ucast (mbr_count tot) :: u32) = mbr_count tot" by (simp only: word_unat_eq_iff)
  show nz: "mbr_count tot \<noteq> 0" using d t by (auto simp: mbr_count_def START_def)
  show "(ucast (mbr_count tot) :: u32) \<noteq> 0" using cc nz by (metis unsigned_0)
  show "mbr_count tot \<le> tot - 2048" using d t by (auto simp: mbr_count_def START_def word_le_nat_alt word_less_nat_alt)
qed

text \<open>The partition a fresh table describes.\<close>

definition fresh_part :: "disk \<Rightarrow> bool \<Rightarrow> part" where
  "fresh_part d gpt = \<lparr>pt_disk = dk_name d, pt_start = 2048,
     pt_count = (if gpt then gpt_end (dk_count d) - 2048 + 1 else mbr_count (dk_count d)), pt_num = 1,
     pt_name = part_name (dk_name d) 1, pt_type = (if gpt then ''basic data'' else ''exFAT/NTFS''),
     pt_label = (if gpt then ''d-os data'' else []), pt_writes = dk_writes d\<rparr>"

lemma add_fresh:
  assumes "free_slot ps = Some i" and "pe_register env (part_name (dk_name d) 1)" and "c \<noteq> 0" and "2048 < dk_count d"
    and "c \<le> dk_count d - 2048"
  shows "add_part env d 1 2048 c type label ps =
    (True, ps[i := Some \<lparr>pt_disk = dk_name d, pt_start = 2048, pt_count = c, pt_num = 1,
       pt_name = part_name (dk_name d) 1, pt_type = str_put 24 type, pt_label = str_put 40 label, pt_writes = dk_writes d\<rparr>])"
  using assms by (simp add: add_part_def Let_def not_le)

lemma scan_mbr_fresh:
  assumes b: "sector_eq b (mbr_sector env (dk_count d))" and t: "8192 \<le> dk_count d"
    and f: "free_slot ps = Some i" and r: "pe_register env (part_name (dk_name d) 1)"
  shows "scan_mbr env d b ps = (1, ps[i := Some (fresh_part d False)])"
proof -
  note E = sector_eqD [OF b] and M = mbr_sector_bytes mbr_sector_entry and C = mbr_count_ok [OF t]
  have e0: "mbr_entry env d b 0 (0, ps) = (1, ps[i := Some (fresh_part d False)])"
    using add_fresh [OF f r C(2,4,3)] E(1) [of 450] E(2) [of 454] E(2) [of 458] C(1,2) M
    by (simp add: mbr_entry_def Let_def is_extended_def count_added_def mbr_type_def fresh_part_def str_put_def C(5))
  have "mbr_entry env d b (Suc 0) st = st" "mbr_entry env d b 2 st = st" "mbr_entry env d b 3 st = st" for st
    using E(1) [of 466] E(1) [of 482] E(1) [of 498] M by (simp_all add: mbr_entry_def Let_def)
  moreover have "[0..<4] = [0, Suc 0, 2, 3]" by (simp add: upt_rec numeral_2_eq_2 numeral_3_eq_3)
  ultimately show ?thesis using e0 by (simp add: scan_mbr_def)
qed

section \<open>GPT\<close>

lemma put32_put32 [simp]: "put32 (put32 p i a) i b = put32 p i b"
  by (auto simp: put32_def)

lemma put32_same: "p i = 0 \<Longrightarrow> p (i + 1) = 0 \<Longrightarrow> p (i + 2) = 0 \<Longrightarrow> p (i + 3) = 0 \<Longrightarrow> put32 p i 0 = p"
  by (auto simp: put32_def)

text \<open>A header that passes the checks, for the entries of disk size \<open>tot\<close> at sector \<open>elba\<close>.\<close>

definition good_hdr :: "part_env \<Rightarrow> u64 \<Rightarrow> cbuf \<Rightarrow> u64 \<Rightarrow> bool" where
  "good_hdr env tot h elba \<longleftrightarrow> bytes_at h 0 8 = gpt_sig \<and> le32 h 12 = 92 \<and> le32 h 80 = 128 \<and> le32 h 84 = 128 \<and>
     le64 h 72 = elba \<and> le32 h 88 = crc32 (gpt_ents env tot) 16384 \<and> crc32 (put32 h 16 0) 92 = le32 h 16"

lemma length_v4 [simp]: "length (v4_guid r) = 16"
  by (simp add: v4_guid_def)

lemma upt_8: "[0..<8] = [0, 1, 2, 3, 4, 5, 6, 7]"
  by (simp add: upt_rec)

lemma hdr0_zero: "16 \<le> i \<Longrightarrow> i < 20 \<Longrightarrow> gpt_hdr0 env tot i = 0"
  by (simp add: gpt_hdr0_def Let_def buf_simps gpt_sig_def)

lemma hdr0_fields:
  "le32 (gpt_hdr0 env tot) 12 = 92" "le32 (gpt_hdr0 env tot) 80 = 128" "le32 (gpt_hdr0 env tot) 84 = 128"
  "le64 (gpt_hdr0 env tot) 72 = 2" "le32 (gpt_hdr0 env tot) 88 = crc32 (gpt_ents env tot) 16384"
proof -
  have s: "le32 (store_bytes p i bs) j = le32 p j" if "j + 3 < i" for p i bs j
    using that by (simp add: le32_def store_bytes_at)
  show "le32 (gpt_hdr0 env tot) 12 = 92" "le32 (gpt_hdr0 env tot) 80 = 128" "le32 (gpt_hdr0 env tot) 84 = 128"
    "le64 (gpt_hdr0 env tot) 72 = 2" "le32 (gpt_hdr0 env tot) 88 = crc32 (gpt_ents env tot) 16384"
    by (simp_all add: gpt_hdr0_def Let_def buf_simps s)
qed

lemma hdr0_sig: "bytes_at (gpt_hdr0 env tot) 0 8 = gpt_sig"
  by (simp add: gpt_hdr0_def Let_def bytes_at_def upt_8 buf_simps gpt_sig_def)

lemma bytes_at_put32: "n \<le> i \<Longrightarrow> bytes_at (put32 p i v) 0 n = bytes_at p 0 n"
  by (simp add: bytes_at_def put32_other)

lemma bytes_at_put64: "n \<le> i \<Longrightarrow> bytes_at (put64 p i v) 0 n = bytes_at p 0 n"
  by (simp add: bytes_at_def put64_other)

lemma primary_good: "good_hdr env tot (gpt_hdr env tot) 2"
proof -
  have "put32 (gpt_hdr0 env tot) 16 0 = gpt_hdr0 env tot" by (rule put32_same) (simp_all add: hdr0_zero)
  then show ?thesis
    by (simp add: good_hdr_def gpt_hdr_def Let_def buf_simps hdr0_fields bytes_at_put32 hdr0_sig)
qed

lemma backup_good: "good_hdr env tot (gpt_backup_hdr env tot) (tot - 33)"
  by (simp add: good_hdr_def gpt_backup_hdr_def gpt_hdr_def Let_def buf_simps hdr0_fields bytes_at_put32 bytes_at_put64 hdr0_sig)

lemma gpt_load_good:
  assumes lba: "lba < dk_count d" and r: "disk_read d lba 1 = Some hdr" and h: "sector_eq hdr h" "good_hdr env tot h elba"
    and e: "disk_read d elba 32 = Some e" "\<And>i. i < 16384 \<Longrightarrow> e i = gpt_ents env tot i" and al: "pe_alloc env"
  shows "gpt_load env d lba = Inr (e, 128, 128)"
proof -
  note E = sector_eqD [OF h(1)] and G = h(2) [unfolded good_hdr_def]
  have p: "sector_eq (put32 hdr 16 0) (put32 h 16 0)" using h(1) by (simp add: sector_eq_def put32_def)
  have c: "crc32 (put32 hdr 16 0) 92 = le32 hdr 16" using sector_eqD(4) [OF p, of 92] E(2) [of 16] G by simp
  have ce: "crc32 e 16384 = le32 hdr 88" using crc32_cong [of 16384 e "gpt_ents env tot"] e(2) E(2) [of 88] G by simp
  have "bytes_at hdr 0 8 = gpt_sig" "le32 hdr 12 = 92" "le32 hdr 80 = 128" "le32 hdr 84 = 128" "le64 hdr 72 = elba"
    using E(5) [of 0 8] E(2) [of 12] E(2) [of 80] E(2) [of 84] E(3) [of 72] G by simp_all
  then show ?thesis using lba r c ce e(1) al by (simp add: gpt_load_def Let_def SEC_def not_le)
qed

section \<open>The entries\<close>

lemma gpt_end_nat: "8192 \<le> tot \<Longrightarrow> unat (gpt_end tot) = (unat tot - 33) div 2048 * 2048 - 1"
proof -
  assume "8192 \<le> tot"
  then have t: "8192 \<le> unat tot" by (simp add: word_le_nat_alt)
  have tt: "unat tot < 2 ^ 64" using unsigned_less [of tot, where ?'a = nat] by simp
  have l: "unat (last_usable tot + 1) = unat tot - 33"
    using t by (simp add: last_usable_def unat_add_lt unat_sub_le word_le_nat_alt)
  let ?q = "(last_usable tot + 1) div 2048"
  have q: "unat ?q = (unat tot - 33) div 2048" using l by (simp add: unat_div)
  have "unat (?q * 2048) = (unat tot - 33) div 2048 * 2048"
  proof -
    have "(unat tot - 33) div 2048 * 2048 \<le> unat tot - 33" by (rule div_times_less_eq_dividend)
    then have "unat ?q * unat (2048 :: u64) < 2 ^ 64" unfolding q using tt by simp
    then show ?thesis unfolding unat_word_ariths(2) using q by simp
  qed
  moreover have "1 \<le> (unat tot - 33) div 2048 * 2048" using t by simp
  ultimately show ?thesis unfolding gpt_end_def by (subst unat_sub_le) (simp_all add: word_le_nat_alt)
qed

lemma gpt_end_ok:
  assumes "8192 \<le> tot"
  shows "2048 \<le> gpt_end tot" and "gpt_end tot - 2048 + 1 \<noteq> 0" and "gpt_end tot - 2048 + 1 \<le> tot - 2048" and "(2048 :: u64) < tot"
proof -
  have t: "8192 \<le> unat tot" using assms by (simp add: word_le_nat_alt)
  have tt: "unat tot < 2 ^ 64" using unsigned_less [of tot, where ?'a = nat] by simp
  define N where "N = (unat tot - 33) div 2048 * 2048"
  have E: "unat (gpt_end tot) = N - 1" unfolding N_def by (rule gpt_end_nat [OF assms])
  have "3 \<le> (unat tot - 33) div 2048" using t div_le_mono [of 8159 "unat tot - 33" 2048] by simp
  then have ge: "6144 \<le> N" by (simp add: N_def)
  have le: "N \<le> unat tot - 33" unfolding N_def by (rule div_times_less_eq_dividend)
  show a: "2048 \<le> gpt_end tot" using E ge by (simp add: word_le_nat_alt)
  have "unat (gpt_end tot - 2048) = unat (gpt_end tot) - 2048" using a by (simp add: unat_sub_le)
  then have c: "unat (gpt_end tot - 2048 + 1) = unat (gpt_end tot) - 2047"
    using E ge le tt by (subst unat_add_lt) simp_all
  show "(2048 :: u64) < tot" using t by (simp add: word_less_nat_alt)
  have "unat (gpt_end tot - 2048 + 1) \<noteq> 0" using c E ge by simp
  then show "gpt_end tot - 2048 + 1 \<noteq> 0" by (metis unsigned_0)
  have "unat (tot - 2048) = unat tot - 2048" using t by (subst unat_sub_le) (simp_all add: word_le_nat_alt)
  then show "gpt_end tot - 2048 + 1 \<le> tot - 2048" using c E le t by (simp add: word_le_nat_alt)
qed

lemma ents_beyond: "128 \<le> j \<Longrightarrow> gpt_ents env tot j = 0"
  by (simp add: gpt_ents_def Let_def buf_simps GUID_BASIC_DATA_def gpt_name_def)

lemma ents_fields:
  "le64 (gpt_ents env tot) 32 = 2048" "le64 (gpt_ents env tot) 40 = gpt_end tot"
proof -
  have w: "le64 (put_wide p i bs) j = le64 p j" if "j + 7 < i" for p i bs j
    using that by (intro le_cong(2)) (auto simp: store_wide_at)
  show "le64 (gpt_ents env tot) 32 = 2048" "le64 (gpt_ents env tot) 40 = gpt_end tot"
    by (simp_all add: gpt_ents_def Let_def buf_simps w START_def)
qed

lemma upt_16: "[0..<16] = [0, 1, 2, 3, 4, 5, 6, 7, 8, 9, 10, 11, 12, 13, 14, 15]"
  by (simp add: upt_rec)

lemma ents_guid: "bytes_at (gpt_ents env tot) 0 16 = GUID_BASIC_DATA"
  by (simp add: gpt_ents_def Let_def bytes_at_def upt_16 buf_simps GUID_BASIC_DATA_def)

lemma gpt_label_rec:
  "0 < n \<Longrightarrow> gpt_label e b k n =
     (let ch = ucast (e (b + 56 + 2 * k)) OR push_bit 8 (ucast (e (b + 57 + 2 * k))) :: u16
      in if ch = 0 then []
         else (if ch < 0x80 \<and> ch \<ge> 0x20 then char_of (unat ch) else CHR ''?'') # gpt_label e b (k + 1) (n - 1))"
  by (cases n) (simp_all add: Let_def)

lemma ents_name_bytes:
  "gpt_ents env tot 56 = 0x64" "gpt_ents env tot 58 = 0x2d" "gpt_ents env tot 60 = 0x6f" "gpt_ents env tot 62 = 0x73"
  "gpt_ents env tot 64 = 0x20" "gpt_ents env tot 66 = 0x64" "gpt_ents env tot 68 = 0x61" "gpt_ents env tot 70 = 0x74"
  "gpt_ents env tot 72 = 0x61" "gpt_ents env tot 74 = 0"
  "gpt_ents env tot 57 = 0" "gpt_ents env tot 59 = 0" "gpt_ents env tot 61 = 0" "gpt_ents env tot 63 = 0"
  "gpt_ents env tot 65 = 0" "gpt_ents env tot 67 = 0" "gpt_ents env tot 69 = 0" "gpt_ents env tot 71 = 0"
  "gpt_ents env tot 73 = 0" "gpt_ents env tot 75 = 0"
  by (simp_all add: gpt_ents_def Let_def gpt_name_def GUID_BASIC_DATA_def buf_simps)

lemma ents_label:
  assumes "\<And>i. i < 128 \<Longrightarrow> e i = gpt_ents env tot i"
  shows "gpt_label e 0 0 36 = ''d-os data''"
  by (simp add: gpt_label_rec assms ents_name_bytes Let_def char_of_def bit_0)

lemma fold_skip: "(\<And>i st. i \<in> set is \<Longrightarrow> f i st = st) \<Longrightarrow> fold f is st = st"
  by (induction "is") auto

lemma scan_ents_fresh:
  assumes e: "\<And>i. i < 16384 \<Longrightarrow> e i = gpt_ents env (dk_count d) i" and t: "8192 \<le> dk_count d"
    and f: "free_slot ps = Some i" and r: "pe_register env (part_name (dk_name d) 1)"
  shows "fold (gpt_entry env d e 128) [0..<99] (0, ps) = (1, ps[i := Some (fresh_part d True)])"
proof -
  note G = gpt_end_ok [OF t]
  have guid: "bytes_at e 0 16 = GUID_BASIC_DATA"
    using bytes_at_cong [of 0 16 e "gpt_ents env (dk_count d)"] e ents_guid by simp
  have fl: "le64 e 32 = 2048" "le64 e 40 = gpt_end (dk_count d)"
    using le_cong(2) [of 32 e "gpt_ents env (dk_count d)"] le_cong(2) [of 40 e "gpt_ents env (dk_count d)"] e ents_fields by simp_all
  have lab: "gpt_label e 0 0 36 = ''d-os data''" by (rule ents_label) (simp add: e)
  have nz: "\<not> list_all (\<lambda>b. b = 0) GUID_BASIC_DATA" by (simp add: GUID_BASIC_DATA_def)
  have e0: "gpt_entry env d e 128 0 (0, ps) = (1, ps[i := Some (fresh_part d True)])"
    using add_fresh [OF f r G(2,4,3)] guid fl lab nz G(1)
    by (simp add: gpt_entry_def Let_def count_added_def gpt_type_def fresh_part_def str_put_def)
  have skip: "gpt_entry env d e 128 j st = st" if "j \<in> set [1..<99]" for j st
  proof -
    have "e (j * 128 + k) = 0" if "k < 16" for k
      using e [of "j * 128 + k"] ents_beyond [of "j * 128 + k"] that \<open>j \<in> set [1..<99]\<close> by simp
    then have "list_all (\<lambda>b. b = 0) (bytes_at e (j * 128) 16)" by (auto simp: bytes_at_def list_all_iff)
    then show ?thesis by (simp add: gpt_entry_def Let_def)
  qed
  have u: "[0..<99] = 0 # [1..<99]" by (simp add: upt_conv_Cons)
  show ?thesis unfolding u using e0 fold_skip [of "[1..<99]" "gpt_entry env d e 128"] skip by simp
qed

section \<open>The disk after a write\<close>

text \<open>A disk holds a fresh GPT front, and a fresh backup.\<close>

definition has_mbr :: "disk \<Rightarrow> bool" where
  "has_mbr d \<longleftrightarrow> \<not> dk_bad d 0 \<and> sector_eq (dk_data d 0) (protective_mbr (dk_count d))"

definition has_table :: "part_env \<Rightarrow> disk \<Rightarrow> u64 \<Rightarrow> u64 \<Rightarrow> bool" where
  "has_table env d lba elba \<longleftrightarrow> lba < dk_count d \<and> \<not> dk_bad d lba \<and>
     (\<exists>h. sector_eq (dk_data d lba) h \<and> good_hdr env (dk_count d) h elba) \<and>
     (\<forall>k < 32. \<not> dk_bad d (elba + of_nat k) \<and> (\<forall>i < 512. dk_data d (elba + of_nat k) i = gpt_ents env (dk_count d) (k * 512 + i)))"

lemma load_table:
  assumes h: "has_table env d lba elba" and al: "pe_alloc env"
  shows "\<exists>e. gpt_load env d lba = Inr (e, 128, 128) \<and> (\<forall>i < 16384. e i = gpt_ents env (dk_count d) i)"
proof -
  note H = h [unfolded has_table_def]
  obtain g where g: "sector_eq (dk_data d lba) g" "good_hdr env (dk_count d) g elba" using H by blast
  from H have "\<not> dk_bad d lba" by simp
  then obtain b where b: "disk_read d lba 1 = Some b" "\<And>i. i < 512 \<Longrightarrow> b i = dk_data d lba i" by (rule read_one) blast
  have bg: "sector_eq b g" using g(1) b(2) by (simp add: sector_eq_def)
  let ?e = "\<lambda>i. dk_data d (elba + of_nat (i div SEC)) (i mod SEC)"
  have e: "disk_read d elba 32 = Some ?e" using H by (auto simp: disk_read_def list_ex_iff)
  have ei: "?e i = gpt_ents env (dk_count d) i" if "i < 16384" for i
  proof -
    have "i div 512 < 32" "i mod 512 < 512" using that by auto
    then show ?thesis using H by (simp add: SEC_def)
  qed
  have "gpt_load env d lba = Inr (?e, 128, 128)"
    using gpt_load_good [OF _ b(1) bg g(2) e ei al] H by blast
  then show ?thesis using ei by blast
qed

lemma mbr_bytes:
  "protective_mbr tot 510 = 0x55" "protective_mbr tot 511 = 0xAA" "protective_mbr tot 450 = 0xEE"
  by (simp_all add: protective_mbr_def Let_def buf_simps)

lemma scan_table:
  assumes m: "has_mbr d" and sz: "dk_secsize d = 512" "8192 \<le> dk_count d" and al: "pe_alloc env"
    and tab: "has_table env d 1 2 \<or> (\<exists>rc. gpt_load env d 1 = Inl rc) \<and> has_table env d (dk_count d - 1) (dk_count d - 33)"
    and f: "free_slot ps = Some i" and r: "pe_register env (part_name (dk_name d) 1)"
  shows "part_scan env d ps = (1, ps[i := Some (fresh_part d True)])"
proof -
  from m have "\<not> dk_bad d 0" by (simp add: has_mbr_def)
  then obtain b where b: "disk_read d 0 1 = Some b" "\<And>i. i < 512 \<Longrightarrow> b i = dk_data d 0 i" by (rule read_one) blast
  have bs: "b 510 = 0x55" "b 511 = 0xAA" "b 450 = 0xEE"
    using m b(2) [of 510] b(2) [of 511] b(2) [of 450] mbr_bytes by (simp_all add: has_mbr_def sector_eq_def)
  have ee: "list_ex (\<lambda>i. b (446 + i * 16 + 4) = 0xEE) [0..<4]"
    using bs(3) by (auto simp: list_ex_iff intro!: bexI [of _ 0])
  have "\<exists>e. scan_gpt env d ps = fold (gpt_entry env d e 128) [0..<99] (0, ps) \<and> (\<forall>i < 16384. e i = gpt_ents env (dk_count d) i)"
    using tab load_table [OF _ al, of d 1 2] load_table [OF _ al, of d "dk_count d - 1" "dk_count d - 33"]
    by (auto simp: scan_gpt_def) blast+
  then have "scan_gpt env d ps = (1, ps[i := Some (fresh_part d True)])"
    using scan_ents_fresh [OF _ sz(2) f r] by auto
  moreover have "64 \<le> dk_count d" using sz(2) by (simp add: word_le_nat_alt)
  ultimately show ?thesis using b(1) bs ee al sz(1) by (simp add: part_scan_def SEC_def not_less)
qed

text \<open>The three writes of a fresh GPT.\<close>

definition fresh_gpt :: "part_env \<Rightarrow> disk \<Rightarrow> disk" where
  "fresh_gpt env d =
     disk_write (disk_write (disk_write d 0 34 (gpt_front env (dk_count d))) (dk_count d - 33) 32 (gpt_ents env (dk_count d)))
       (dk_count d - 1) 1 (gpt_backup_hdr env (dk_count d))"

lemma disk_write_same [simp]:
  "dk_bad (disk_write d l n b) = dk_bad d" "dk_count (disk_write d l n b) = dk_count d"
  "dk_secsize (disk_write d l n b) = dk_secsize d" "dk_name (disk_write d l n b) = dk_name d"
  "dk_writes (disk_write d l n b) = dk_writes d"
  by (simp_all add: disk_write_def)

lemma fresh_gpt_same [simp]:
  "dk_bad (fresh_gpt env d) = dk_bad d" "dk_count (fresh_gpt env d) = dk_count d"
  "dk_secsize (fresh_gpt env d) = dk_secsize d" "dk_name (fresh_gpt env d) = dk_name d"
  "dk_writes (fresh_gpt env d) = dk_writes d"
  by (simp_all add: fresh_gpt_def)

lemma disk_write_data:
  "dk_data (disk_write d l n b) s = (if unat (s - l) < n then (\<lambda>i. b (unat (s - l) * 512 + i)) else dk_data d s)"
  by (simp add: disk_write_def SEC_def)

lemma unat_below: "x < y \<Longrightarrow> unat (x - y :: u64) = unat x + 2 ^ 64 - unat y"
  by (simp add: unat_sub_if' word_less_nat_alt)

lemma fresh_front:
  assumes t: "8192 \<le> dk_count d" and s: "unat s < 34"
  shows "dk_data (fresh_gpt env d) s = (\<lambda>i. gpt_front env (dk_count d) (unat s * 512 + i))"
proof -
  have u: "8192 \<le> unat (dk_count d)" using t by (simp add: word_le_nat_alt)
  have b: "unat (dk_count d - 33) = unat (dk_count d) - 33" "unat (dk_count d - 1) = unat (dk_count d) - 1"
    using u by (simp_all add: unat_sub_le word_le_nat_alt)
  have tt: "unat (dk_count d) < 2 ^ 64" using unsigned_less [of "dk_count d", where ?'a = nat] by simp
  have "s < dk_count d - 33" "s < dk_count d - 1" using b s u by (simp_all add: word_less_nat_alt)
  then have "32 \<le> unat (s - (dk_count d - 33))" "1 \<le> unat (s - (dk_count d - 1))"
    using b u tt by (simp_all add: unat_below)
  then show ?thesis using s by (simp add: fresh_gpt_def disk_write_data)
qed

lemma fresh_back:
  assumes t: "8192 \<le> dk_count d"
  shows "dk_data (fresh_gpt env d) (dk_count d - 1) = gpt_backup_hdr env (dk_count d)"
    and "k < 32 \<Longrightarrow> dk_data (fresh_gpt env d) (dk_count d - 33 + of_nat k) = (\<lambda>i. gpt_ents env (dk_count d) (k * 512 + i))"
proof -
  show "dk_data (fresh_gpt env d) (dk_count d - 1) = gpt_backup_hdr env (dk_count d)"
    by (simp add: fresh_gpt_def disk_write_data)
  assume k: "k < 32"
  then have uk: "unat (of_nat k :: u64) = k" by (simp add: unat_of_nat_lt)
  have "dk_count d - 33 + of_nat k \<noteq> dk_count d - 1"
  proof
    assume "dk_count d - 33 + of_nat k = dk_count d - 1"
    then have "(of_nat k :: u64) = 32" by (simp add: algebra_simps)
    then have "unat (of_nat k :: u64) = unat (32 :: u64)" by (rule arg_cong)
    then show False using uk k by simp
  qed
  then have "unat (dk_count d - 33 + of_nat k - (dk_count d - 1)) \<noteq> 0"
    by (simp add: unsigned_eq_0_iff)
  then show "dk_data (fresh_gpt env d) (dk_count d - 33 + of_nat k) = (\<lambda>i. gpt_ents env (dk_count d) (k * 512 + i))"
    using k uk by (simp add: fresh_gpt_def disk_write_data)
qed

lemma fresh_holds:
  assumes t: "8192 \<le> dk_count d" and nb: "\<And>s. \<not> dk_bad d s"
  shows "has_mbr (fresh_gpt env d)" and "has_table env (fresh_gpt env d) 1 2"
    and "has_table env (fresh_gpt env d) (dk_count d - 1) (dk_count d - 33)"
proof -
  have u: "8192 \<le> unat (dk_count d)" using t by (simp add: word_le_nat_alt)
  show "has_mbr (fresh_gpt env d)"
    using nb fresh_front [OF t, of 0] by (simp add: has_mbr_def sector_eq_def gpt_front_def SEC_def)
  have h: "sector_eq (dk_data (fresh_gpt env d) 1) (gpt_hdr env (dk_count d))"
    using fresh_front [OF t, of 1] by (simp add: sector_eq_def gpt_front_def SEC_def)
  have e: "dk_data (fresh_gpt env d) (2 + of_nat k) i = gpt_ents env (dk_count d) (k * 512 + i)" if "k < 32" for k i
  proof -
    have uk: "unat (2 + of_nat k :: u64) = k + 2" using that by (simp add: unat_add_lt unat_of_nat_lt)
    have "dk_data (fresh_gpt env d) (2 + of_nat k) i = gpt_front env (dk_count d) ((k + 2) * 512 + i)"
      using fresh_front [OF t, of "2 + of_nat k"] uk that by simp
    then show ?thesis by (simp add: gpt_front_def SEC_def)
  qed
  have "1 < dk_count d" using u by (simp add: word_less_nat_alt)
  then show "has_table env (fresh_gpt env d) 1 2" using h e nb primary_good by (auto simp: has_table_def)
  have "dk_count d - 1 < dk_count d" using u by (simp add: word_less_nat_alt unat_sub_le word_le_nat_alt)
  then show "has_table env (fresh_gpt env d) (dk_count d - 1) (dk_count d - 33)"
    using fresh_back [OF t, where env = env] nb backup_good [of env "dk_count d"] by (auto simp: has_table_def sector_eq_def)
qed

lemma scan_fresh_mbr:
  assumes nb: "\<not> dk_bad d 0" and sz: "dk_secsize d = 512" "8192 \<le> dk_count d" and al: "pe_alloc env"
    and f: "free_slot ps = Some i" and r: "pe_register env (part_name (dk_name d) 1)"
  shows "part_scan env (disk_write d 0 1 (mbr_sector env (dk_count d))) ps = (1, ps[i := Some (fresh_part d False)])"
proof -
  let ?d = "disk_write d 0 1 (mbr_sector env (dk_count d))"
  have "\<not> dk_bad ?d 0" using nb by simp
  then obtain b where b: "disk_read ?d 0 1 = Some b" "\<And>i. i < 512 \<Longrightarrow> b i = dk_data ?d 0 i" by (rule read_one) blast
  have s: "sector_eq b (mbr_sector env (dk_count ?d))" using b(2) by (simp add: sector_eq_def disk_write_data)
  note E = sector_eqD(1) [OF s] and M = mbr_sector_bytes
  have "b 510 = 0x55" "b 511 = 0xAA" "b 3 = 0" "b 54 = 0" "b 82 = 0" using E M by simp_all
  moreover have "\<not> list_ex (\<lambda>i. b (446 + i * 16 + 4) = 0xEE) [0..<4]"
    using E M by (simp add: upt_rec)
  moreover have "64 \<le> dk_count d" using sz(2) by (simp add: word_le_nat_alt)
  moreover have "scan_mbr env ?d b ps = (1, ps[i := Some (fresh_part ?d False)])"
    using scan_mbr_fresh [OF s _ f] sz r by simp
  moreover have "fresh_part ?d False = fresh_part d False" by (simp add: fresh_part_def)
  ultimately show ?thesis using b(1) al sz(1) by (simp add: part_scan_def SEC_def not_less fs_boot_sector_def)
qed

section \<open>The properties\<close>

text \<open>A small disk and an environment in which everything succeeds.\<close>

definition blank_disk :: disk where
  "blank_disk = \<lparr>dk_name = ''vdb'', dk_secsize = 512, dk_count = 8192, dk_data = (\<lambda>s i. 0), dk_bad = (\<lambda>s. False), dk_writes = True\<rparr>"

definition calm_env :: part_env where
  "calm_env = \<lparr>pe_register = (\<lambda>n. True), pe_mounted = (\<lambda>n. False), pe_alloc = True, pe_write = (\<lambda>k. True),
     pe_rand1 = (\<lambda>i. of_nat i), pe_rand2 = (\<lambda>i. 7), pe_sig = 0xC0FFEE\<rparr>"

lemmas calm_simps = blank_disk_def calm_env_def

text \<open>C7: Whatever a disk holds - any table, any loop of extended records, any bad checksum - a scan
  keeps every partition already in the table, adds exactly as many as it reports, and every partition it
  adds for this disk lies inside the disk.\<close>

lemma part_scan_inside:
  assumes "part_scan env d ps = (n, ps')" and "parts_inside d ps"
  shows "parts_inside d ps' \<and> length ps' = length ps \<and> used ps' = used ps + n \<and>
    (\<forall>p. Some p \<in> set ps \<longrightarrow> Some p \<in> set ps')"
  using part_scan_ok [of d ps env] assms by (auto simp: scan_ok_def parts_inside_def)

lemma part_scan_inside_witness:
  "part_scan calm_env (disk_write blank_disk 0 1 (mbr_sector calm_env 8192)) [None, None] =
     (1, [Some (fresh_part blank_disk False), None]) \<and>
   parts_inside (disk_write blank_disk 0 1 (mbr_sector calm_env 8192)) [Some (fresh_part blank_disk False), None] \<and>
   used [Some (fresh_part blank_disk False), None] = used [None, None] + 1"
proof -
  have s: "part_scan calm_env (disk_write blank_disk 0 1 (mbr_sector calm_env 8192)) [None, None] =
     (1, [Some (fresh_part blank_disk False), None])"
    using scan_fresh_mbr [of blank_disk calm_env "[None, None]" 0] by (simp add: calm_simps)
  then show ?thesis using part_scan_inside [OF s] by (simp add: parts_inside_def)
qed

lemma in_part:
  assumes i: "inside d p" and l: "lba < pt_count p" "ucast count \<le> pt_count p - lba" and k: "k < unat (count :: u32)"
  shows "unat (pt_start p + lba + of_nat k) = unat (pt_start p) + unat lba + k"
    and "unat lba + k < unat (pt_count p)" and "unat (pt_start p) + unat (pt_count p) \<le> unat (dk_count d)"
proof -
  have a: "unat (pt_count p - lba) = unat (pt_count p) - unat lba" using l(1) by (simp add: unat_sub_le)
  have c: "unat (ucast count :: u64) = unat count"
    using unsigned_less [of count, where ?'a = nat] by (simp add: unsigned_ucast_eq take_bit_nat_eq_self)
  have "unat count \<le> unat (pt_count p) - unat lba" using l(2) a c by (simp add: word_le_nat_alt)
  then show b: "unat lba + k < unat (pt_count p)" using k l(1) by (simp add: word_less_nat_alt)
  have "unat (dk_count d - pt_start p) = unat (dk_count d) - unat (pt_start p)" 
    using i by (intro unat_sub_le) (simp add: inside_def order_less_imp_le)
  then show e: "unat (pt_start p) + unat (pt_count p) \<le> unat (dk_count d)"
    using i unfolding inside_def word_le_nat_alt word_less_nat_alt by linarith
  have tt: "unat (dk_count d) < 2 ^ 64" using unsigned_less [of "dk_count d", where ?'a = nat] by simp
  have ck: "unat (of_nat k :: u64) = k" using k unsigned_less [of count, where ?'a = nat] by (simp add: unat_of_nat_lt)
  show "unat (pt_start p + lba + of_nat k) = unat (pt_start p) + unat lba + k"
    using b e tt ck by (simp add: unat_add_lt)
qed

text \<open>C33: Reads and writes through a partition stay in it: for a partition that lies inside its disk, a
  write that succeeds changes no sector outside the partition, reads back what was written, and its
  sectors all exist on the disk.\<close>

lemma partition_io_confined:
  assumes i: "inside d p" and w: "p_write d p lba count b = Some d'"
  shows "(\<forall>s. dk_data d' s \<noteq> dk_data d s \<longrightarrow> pt_start p \<le> s \<and> s - pt_start p < pt_count p \<and> s < dk_count d) \<and>
    ((\<forall>s. \<not> dk_bad d s) \<longrightarrow> (\<exists>c. p_read d' p lba count = Some c \<and> (\<forall>i < unat count * 512. c i = b i)))"
proof -
  have l: "lba < pt_count p" "ucast count \<le> pt_count p - lba" and d': "d' = disk_write d (pt_start p + lba) (unat count) b"
    using w by (auto simp: p_write_def not_le not_less split: if_splits)
  have "\<forall>s. dk_data d' s \<noteq> dk_data d s \<longrightarrow> pt_start p \<le> s \<and> s - pt_start p < pt_count p \<and> s < dk_count d"
  proof (intro allI impI)
    fix s assume "dk_data d' s \<noteq> dk_data d s"
    then have k: "unat (s - (pt_start p + lba)) < unat count" by (auto simp: d' disk_write_data split: if_splits)
    define k where "k = unat (s - (pt_start p + lba))"
    have s: "s = pt_start p + lba + of_nat k" by (simp add: k_def)
    note P = in_part [OF i l k [folded k_def], folded s]
    have st: "pt_start p \<le> s" using P by (simp add: word_le_nat_alt)
    then have "unat (s - pt_start p) = unat lba + k" using P(1) by (simp add: unat_sub_le)
    then show "pt_start p \<le> s \<and> s - pt_start p < pt_count p \<and> s < dk_count d"
      using st P by (simp add: word_less_nat_alt)
  qed
  moreover have "(\<forall>s. \<not> dk_bad d s) \<longrightarrow> (\<exists>c. p_read d' p lba count = Some c \<and> (\<forall>i < unat count * 512. c i = b i))"
  proof
    assume nb: "\<forall>s. \<not> dk_bad d s"
    have "dk_data d' (pt_start p + lba + of_nat (i div 512)) (i mod 512) = b i" if "i < unat count * 512" for i
    proof -
      have "i div 512 < unat count" using that by (simp add: less_mult_imp_div_less)
      then have "unat (of_nat (i div 512) :: u64) = i div 512"
        using unsigned_less [of count, where ?'a = nat] by (simp add: unat_of_nat_lt)
      then show ?thesis using \<open>i div 512 < unat count\<close> by (simp add: d' disk_write_data)
    qed
    then show "\<exists>c. p_read d' p lba count = Some c \<and> (\<forall>i < unat count * 512. c i = b i)"
      using l nb by (simp add: p_read_def disk_read_def d' SEC_def not_le not_less list_ex_iff)
  qed
  ultimately show ?thesis by blast
qed

lemma partition_io_confined_witness:
  "\<exists>d'. p_write blank_disk (fresh_part blank_disk False) 5 2 (\<lambda>i. 9) = Some d' \<and>
     (\<forall>s. dk_data d' s \<noteq> dk_data blank_disk s \<longrightarrow> 2048 \<le> s \<and> s < 8192) \<and>
     (\<exists>c. p_read d' (fresh_part blank_disk False) 5 2 = Some c \<and> c 1023 = 9)"
proof -
  have i: "inside blank_disk (fresh_part blank_disk False)"
    by (simp add: inside_def fresh_part_def mbr_count_def START_def calm_simps)
  obtain d' where w: "p_write blank_disk (fresh_part blank_disk False) 5 2 (\<lambda>i. 9) = Some d'"
    by (simp add: p_write_def fresh_part_def mbr_count_def START_def calm_simps)
  have "\<forall>s. \<not> dk_bad blank_disk s" "pt_start (fresh_part blank_disk False) = 2048" "dk_count blank_disk = 8192"
    by (simp_all add: blank_disk_def fresh_part_def)
  with partition_io_confined [OF i w] w show ?thesis by fastforce
qed



text \<open>C32: The backup table serves: when the sectors 1 to 33 of a disk with a fresh GPT are damaged or
  unreadable in any way the loader notices, a scan still finds the same partition.\<close>

lemma gpt_backup_serves:
  assumes d: "dk_secsize d = 512" "8192 \<le> dk_count d" "\<forall>s. \<not> dk_bad d s"
    and e: "pe_alloc env" "pe_register env (part_name (dk_name d) 1)" and f: "free_slot ps = Some i"
    and dmg: "d' = fresh_gpt env d\<lparr>dk_data := data, dk_bad := bad\<rparr>"
      "\<forall>s. s = 0 \<or> 34 \<le> s \<longrightarrow> \<not> bad s \<and> data s = dk_data (fresh_gpt env d) s"
    and noticed: "gpt_load env d' 1 = Inl rc"
  shows "part_scan env d' ps = part_scan env (fresh_gpt env d) ps \<and> part_scan env d' ps = (1, ps[i := Some (fresh_part d True)])"
proof -
  have u: "8192 \<le> unat (dk_count d)" using d(2) by (simp add: word_le_nat_alt)
  have hi: "\<not> bad s \<and> data s = dk_data (fresh_gpt env d) s" if "34 \<le> unat s" for s
    using dmg(2) that by (simp add: word_le_nat_alt)
  have b: "34 \<le> unat (dk_count d - 1)" using u by (simp add: unat_sub_le word_le_nat_alt)
  have k: "34 \<le> unat (dk_count d - 33 + of_nat k)" if "k < 32" for k
  proof -
    have tt: "unat (dk_count d) < 2 ^ 64" using unsigned_less [of "dk_count d", where ?'a = nat] by simp
    have "unat (dk_count d - 33) = unat (dk_count d) - 33" "unat (of_nat k :: u64) = k"
      using u that by (simp_all add: unat_sub_le word_le_nat_alt unat_of_nat_lt)
    then show ?thesis using u tt that by (simp add: unat_add_lt)
  qed
  note F = fresh_holds [of d env, OF d(2)]
  have m: "has_mbr d'" using F(1) d(3) dmg by (simp add: has_mbr_def)
  have t: "has_table env d' (dk_count d' - 1) (dk_count d' - 33)"
    using F(3) d(3) hi [OF b] hi [OF k] dmg(1) by (simp add: has_table_def)
  have p: "fresh_part d' True = fresh_part d True" "fresh_part (fresh_gpt env d) True = fresh_part d True"
    by (simp_all add: dmg(1) fresh_part_def)
  have s: "part_scan env d' ps = (1, ps[i := Some (fresh_part d True)])"
    using scan_table [OF m _ _ e(1) _ f] t noticed d e p by (auto simp: dmg(1))
  have "part_scan env (fresh_gpt env d) ps = (1, ps[i := Some (fresh_part d True)])"
    using scan_table [OF F(1) _ _ e(1) _ f] F(2) d e p by simp
  with s show ?thesis by simp
qed

lemma gpt_backup_serves_witness:
  "part_scan calm_env (fresh_gpt calm_env blank_disk\<lparr>dk_data := (dk_data (fresh_gpt calm_env blank_disk))(1 := (\<lambda>i. 0)),
      dk_bad := (\<lambda>s. s = 2)\<rparr>) [None] = (1, [Some (fresh_part blank_disk True)])"
proof -
  let ?d = "fresh_gpt calm_env blank_disk\<lparr>dk_data := (dk_data (fresh_gpt calm_env blank_disk))(1 := (\<lambda>i. 0)), dk_bad := (\<lambda>s. s = 2)\<rparr>"
  have far: "s \<noteq> 1 \<and> s \<noteq> 2" if "s = 0 \<or> 34 \<le> s" for s :: u64
    using that by (auto simp: word_le_nat_alt)
  have "gpt_load calm_env ?d 1 = Inl (- 2)"
    by (simp add: gpt_load_def disk_read_def bytes_at_def gpt_sig_def upt_8) (simp add: blank_disk_def word_le_nat_alt)
  then show ?thesis
    using gpt_backup_serves [of blank_disk calm_env "[None]" 0 ?d, OF _ _ _ _ _ _ refl, THEN conjunct2] far by (simp add: calm_simps)
qed

end
