(* ===== verification/Printf.thy ===== *)
theory Printf
  imports Dos_Prelude
begin

text \<open>
  The kernel formatter, \<open>kernel/core/printf.c\<close>, on a machine with 64-bit \<open>long\<close> and pointers.  What
  \<open>emit\<close> sends out is the returned string; the variadic arguments are a list of typed values, and a
  conversion that fetches an argument of another type (undefined in C) returns \<open>None\<close>.
\<close>

section \<open>Numbers\<close>

function dec_loop :: "u64 \<Rightarrow> string" where
  "dec_loop v = (if v = 0 then [] else char_of (48 + unat (v mod 10)) # dec_loop (v div 10))"
  by auto
termination
  by (relation "measure unat") (simp_all add: unat_div word_gt_0 unat_gt_0)

declare dec_loop.simps [simp del]

definition put_dec :: "u64 \<Rightarrow> string" where
  "put_dec v = (if v = 0 then ''0'' else rev (dec_loop v))"

definition hex_digits :: string where "hex_digits = ''0123456789abcdef''"

text \<open>The digits of \<open>v\<close>, least significant first, at least \<open>min_digits\<close> of them; \<open>n\<close> are already out.\<close>

function hex_loop :: "u64 \<Rightarrow> nat \<Rightarrow> nat \<Rightarrow> string" where
  "hex_loop v n min_digits =
     (if v = 0 \<and> n \<ge> min_digits then []
      else hex_digits ! unat (v AND 0xF) # hex_loop (drop_bit 4 v) (n + 1) min_digits)"
  by auto
termination
proof (relation "measure (\<lambda>(v, n, m). unat v + (m - n))", goal_cases)
  case (2 v n m)
  have "unat (drop_bit 4 v) = unat v div 16" by (simp add: drop_bit_eq_div unat_div)
  then show ?case using 2 by (cases "v = 0") (auto simp: word_gt_0 unat_gt_0 intro!: add_less_le_mono)
qed simp

declare hex_loop.simps [simp del]

definition put_hex :: "u64 \<Rightarrow> nat \<Rightarrow> string" where
  "put_hex v min_digits = (if v = 0 \<and> min_digits = 0 then ''0'' else rev (hex_loop v 0 min_digits))"

section \<open>Arguments and formats\<close>

datatype length_mod = LM_DEFAULT | LM_LONG | LM_LONGLONG | LM_SIZE_T

text \<open>A variadic argument: an \<open>int\<close>, a \<open>long\<close> (also \<open>size_t\<close>), a \<open>long long\<close>, a string or a pointer.\<close>

datatype va = VInt u32 | VLong u64 | VLongLong u64 | VStr "string option" | VPtr u64

fun fetch_unsigned :: "length_mod \<Rightarrow> va list \<Rightarrow> (u64 \<times> va list) option" where
  "fetch_unsigned LM_DEFAULT (VInt x # ap) = Some (ucast x, ap)"
| "fetch_unsigned LM_LONG (VLong x # ap) = Some (x, ap)"
| "fetch_unsigned LM_LONGLONG (VLongLong x # ap) = Some (x, ap)"
| "fetch_unsigned LM_SIZE_T (VLong x # ap) = Some (x, ap)"
| "fetch_unsigned _ _ = None"

fun fetch_signed :: "length_mod \<Rightarrow> va list \<Rightarrow> (u64 \<times> va list) option" where
  "fetch_signed LM_DEFAULT (VInt x # ap) = Some (scast x, ap)"
| "fetch_signed LM_LONG (VLong x # ap) = Some (x, ap)"
| "fetch_signed LM_LONGLONG (VLongLong x # ap) = Some (x, ap)"
| "fetch_signed LM_SIZE_T (VLong x # ap) = Some (x, ap)"
| "fetch_signed _ _ = None"

fun parse_length :: "string \<Rightarrow> length_mod \<times> string" where
  "parse_length [] = (LM_DEFAULT, [])"
| "parse_length (c # f) =
     (if c = CHR ''l'' then (case f of d # g \<Rightarrow> if d = CHR ''l'' then (LM_LONGLONG, g) else (LM_LONG, f) | [] \<Rightarrow> (LM_LONG, f))
      else if c = CHR ''z'' then (LM_SIZE_T, f) else (LM_DEFAULT, c # f))"

definition signed_dec :: "u64 \<Rightarrow> string" where
  "signed_dec v = (if v <s 0 then CHR ''-'' # put_dec (- v) else put_dec v)"

definition convert :: "length_mod \<Rightarrow> char \<Rightarrow> va list \<Rightarrow> (string \<times> va list) option" where
  "convert lm c ap =
     (if c = CHR ''s'' then (case ap of VStr s # ap' \<Rightarrow> Some (case s of None \<Rightarrow> ''(null)'' | Some t \<Rightarrow> t, ap') | _ \<Rightarrow> None)
      else if c = CHR ''c'' then (case ap of VInt x # ap' \<Rightarrow> Some ([char_of (unat (ucast x :: u8))], ap') | _ \<Rightarrow> None)
      else if c = CHR ''d'' \<or> c = CHR ''i'' then map_option (map_prod signed_dec id) (fetch_signed lm ap)
      else if c = CHR ''u'' then map_option (map_prod put_dec id) (fetch_unsigned lm ap)
      else if c = CHR ''x'' then map_option (map_prod (\<lambda>v. put_hex v 0) id) (fetch_unsigned lm ap)
      else if c = CHR ''p'' then (case ap of VPtr v # ap' \<Rightarrow> Some (''0x'' @ put_hex v 16, ap') | _ \<Rightarrow> None)
      else if c = CHR ''%'' then Some (''%'', ap)
      else Some ([CHR ''%'', c], ap))"

lemma parse_length_le: "length (snd (parse_length f)) \<le> length f"
  by (cases f) (auto split: list.splits)

function kvprintf_raw :: "string \<Rightarrow> va list \<Rightarrow> string option" where
  "kvprintf_raw [] ap = Some []"
| "kvprintf_raw (c # f) ap =
     (if c \<noteq> CHR ''%'' then map_option ((#) c) (kvprintf_raw f ap)
      else (case parse_length f of (lm, g) \<Rightarrow>
              (case g of
                 [] \<Rightarrow> Some []
               | d # h \<Rightarrow>
                   (case convert lm d ap of
                      None \<Rightarrow> None
                    | Some (out, ap') \<Rightarrow> map_option ((@) out) (kvprintf_raw h ap')))))"
  by pat_completeness auto
termination
proof (relation "measure (\<lambda>(f, ap). length f)", goal_cases)
  case (3 c f ap lm g)
  then show ?case using parse_length_le [of f] by (cases "parse_length f") auto
qed simp_all

section \<open>Reading numbers back\<close>

definition digit_value :: "char \<Rightarrow> nat" where
  "digit_value c = (let n = of_char c in if n \<le> 57 then n - 48 else n - 87)"

definition read_base :: "nat \<Rightarrow> string \<Rightarrow> nat" where
  "read_base b s = foldl (\<lambda>a c. a * b + digit_value c) 0 s"

definition read_signed :: "string \<Rightarrow> int" where
  "read_signed s = (if s \<noteq> [] \<and> hd s = CHR ''-'' then - int (read_base 10 (tl s)) else int (read_base 10 s))"

definition is_dec :: "char \<Rightarrow> bool" where
  "is_dec c \<longleftrightarrow> 48 \<le> (of_char c :: nat) \<and> (of_char c :: nat) \<le> 57"

lemma read_base_rev_Cons: "read_base b (rev (c # cs)) = read_base b (rev cs) * b + digit_value c"
  by (simp add: read_base_def)

lemma of_char_dec: "n < 10 \<Longrightarrow> (of_char (char_of (48 + n)) :: nat) = 48 + n"
  by simp

lemma digit_value_dec: "n < 10 \<Longrightarrow> digit_value (char_of (48 + n)) = n"
  by (simp add: digit_value_def Let_def)

lemma dec_loop_reads: "read_base 10 (rev (dec_loop v)) = unat v \<and> list_all is_dec (dec_loop v)"
proof (induction v rule: dec_loop.induct)
  case (1 v)
  show ?case
  proof (cases "v = 0")
    case True
    then show ?thesis by (simp add: dec_loop.simps read_base_def)
  next
    case False
    have m: "unat (v mod 10) < 10" by (simp add: unat_mod)
    have "read_base 10 (rev (dec_loop v)) = unat (v div 10) * 10 + unat (v mod 10)"
      using 1 False m by (subst dec_loop.simps) (simp only: read_base_rev_Cons digit_value_dec if_False simp_thms)
    moreover have "unat (v div 10) * 10 + unat (v mod 10) = unat v" by (simp add: unat_div unat_mod)
    moreover have "list_all is_dec (dec_loop v)"
      using 1 False m by (subst dec_loop.simps) (auto simp: is_dec_def list_all_iff)
    ultimately show ?thesis by simp
  qed
qed

lemma put_dec_reads: "read_base 10 (put_dec v) = unat v" "list_all is_dec (put_dec v)" "put_dec v \<noteq> []"
proof -
  show "read_base 10 (put_dec v) = unat v"
    using dec_loop_reads [of v] by (simp add: put_dec_def read_base_def digit_value_def)
  show "list_all is_dec (put_dec v)"
    using dec_loop_reads [of v] by (simp add: put_dec_def is_dec_def list_all_iff)
  show "put_dec v \<noteq> []" by (simp add: put_dec_def dec_loop.simps)
qed

lemma dec_loop_length: "unat v < 10 ^ k \<Longrightarrow> length (dec_loop v) \<le> k"
proof (induction k arbitrary: v)
  case 0
  then have "v = 0" by (simp add: unat_eq_zero)
  then show ?case by (simp add: dec_loop.simps)
next
  case (Suc k)
  then have "unat (v div 10) < 10 ^ k" by (simp add: unat_div less_mult_imp_div_less mult.commute)
  with Suc.IH show ?case by (subst dec_loop.simps) auto
qed

lemma put_dec_length: "length (put_dec v) \<le> 20"
proof -
  have "unat v < 10 ^ 20" using unsigned_less [of v, where ?'a = nat] by (simp add: less_trans)
  from dec_loop_length [OF this] show ?thesis by (simp add: put_dec_def)
qed

lemma dec_no_minus: "is_dec c \<Longrightarrow> c \<noteq> CHR ''-''"
  by (auto simp: is_dec_def)

lemma signed_dec_reads: "read_signed (signed_dec v) = sint v" "length (signed_dec v) \<le> 21"
proof -
  note P = put_dec_reads [of v]
  show "read_signed (signed_dec v) = sint v"
  proof (cases "v <s 0")
    case True
    then have n: "sint v < 0" by (simp add: word_sless_alt)
    then have "sint v = uint v - 2 ^ 64" "v \<noteq> 0" by (auto simp: sint_if split: if_splits)
    moreover have "uint (- v) = 2 ^ 64 - uint v" 
      using \<open>v \<noteq> 0\<close> uint_lt2p [of v] by (simp add: uint_word_ariths zmod_zminus1_eq_if uint_0_iff mod_pos_pos_trivial)
    ultimately have "int (unat (- v)) = - sint v" by simp
    then show ?thesis using True put_dec_reads(1) [of "- v"] by (simp add: signed_dec_def read_signed_def)
  next
    case False
    then have "0 \<le> sint v" by (simp add: word_sless_alt)
    then have "sint v = uint v" using uint_lt2p [of v] by (auto simp: sint_if split: if_splits)
    moreover have "hd (put_dec v) \<noteq> CHR ''-''" using P(2,3) dec_no_minus by (cases "put_dec v") auto
    ultimately show ?thesis using False P(1) by (simp add: signed_dec_def read_signed_def)
  qed
  show "length (signed_dec v) \<le> 21"
    using put_dec_length [of v] put_dec_length [of "- v"] by (simp add: signed_dec_def)
qed

lemma hex_digit: "n < 16 \<Longrightarrow> digit_value (hex_digits ! n) = n"
proof -
  assume "n < 16"
  then have "n \<in> set [0..<16]" by simp
  moreover have "\<forall>n \<in> set [0..<16]. digit_value (hex_digits ! n) = n" by code_simp
  ultimately show ?thesis by blast
qed

lemma hex_loop_reads: "read_base 16 (rev (hex_loop v n m)) = unat v"
proof (induction v n m rule: hex_loop.induct)
  case (1 v n m)
  show ?case
  proof (cases "v = 0 \<and> m \<le> n")
    case True
    then show ?thesis by (simp add: hex_loop.simps read_base_def)
  next
    case False
    have a: "unat (v AND 0xF) = unat v mod 16" using unat_and_mask [of v 4] by (simp add: mask_eq_exp_minus_1)
    have d: "unat (drop_bit 4 v) = unat v div 16" by (simp add: drop_bit_eq_div unat_div)
    have "unat v mod 16 < 16" by simp
    then have "read_base 16 (rev (hex_loop v n m)) = unat v div 16 * 16 + unat v mod 16"
      using 1 [OF False] False a d by (subst hex_loop.simps) (simp only: read_base_rev_Cons hex_digit if_False)
    then show ?thesis by simp
  qed
qed

lemma hex_loop_length: "unat v < 16 ^ k \<Longrightarrow> length (hex_loop v n m) \<le> max k (m - n)"
proof (induction v n m arbitrary: k rule: hex_loop.induct)
  case (1 v n m)
  show ?case
  proof (cases "v = 0 \<and> m \<le> n")
    case True
    then show ?thesis by (simp add: hex_loop.simps)
  next
    case False
    have d: "unat (drop_bit 4 v) = unat v div 16" by (simp add: drop_bit_eq_div unat_div)
    have "unat (drop_bit 4 v) < 16 ^ (k - 1)"
      using 1(2) d by (cases k) (auto simp: less_mult_imp_div_less mult.commute)
    from 1(1) [OF False this] have "length (hex_loop v n m) \<le> Suc (max (k - 1) (m - (n + 1)))"
      using False by (subst hex_loop.simps) simp
    moreover have "0 < k \<or> n < m" using False 1(2) by (cases k) (auto simp: unat_eq_zero)
    ultimately show ?thesis by (auto simp: max_def split: if_splits)
  qed
qed

lemma put_hex_reads: "read_base 16 (put_hex v m) = unat v" "length (put_hex v m) \<le> max 16 m"
proof -
  show "read_base 16 (put_hex v m) = unat v"
    using hex_loop_reads [of v 0 m] by (simp add: put_hex_def read_base_def digit_value_def)
  have "unat v < 16 ^ 16" using unsigned_less [of v, where ?'a = nat] by simp
  from hex_loop_length [OF this, of 0 m] show "length (put_hex v m) \<le> max 16 m" by (auto simp: put_hex_def)
qed

lemma hex_loop_min: "m - n \<le> length (hex_loop v n m)"
proof (induction v n m rule: hex_loop.induct)
  case (1 v n m)
  then show ?case by (subst hex_loop.simps) auto
qed

section \<open>Whole formats\<close>

text \<open>A format as the caller means it: text and conversions, each with its argument.\<close>

datatype piece = PText string | PSigned length_mod va | PUnsigned length_mod va | PHex length_mod va | PPtr u64
  | PStr "string option" | PChar u32 | PPercent

fun mod_text :: "length_mod \<Rightarrow> string" where
  "mod_text LM_DEFAULT = []" | "mod_text LM_LONG = ''l''" | "mod_text LM_LONGLONG = ''ll''" | "mod_text LM_SIZE_T = ''z''"

fun piece_fmt :: "piece \<Rightarrow> string" where
  "piece_fmt (PText s) = s"
| "piece_fmt (PSigned lm x) = CHR ''%'' # mod_text lm @ ''d''"
| "piece_fmt (PUnsigned lm x) = CHR ''%'' # mod_text lm @ ''u''"
| "piece_fmt (PHex lm x) = CHR ''%'' # mod_text lm @ ''x''"
| "piece_fmt (PPtr v) = ''%p''" | "piece_fmt (PStr s) = ''%s''" | "piece_fmt (PChar x) = ''%c''" | "piece_fmt PPercent = ''%%''"

fun piece_args :: "piece \<Rightarrow> va list" where
  "piece_args (PSigned lm x) = [x]" | "piece_args (PUnsigned lm x) = [x]" | "piece_args (PHex lm x) = [x]"
| "piece_args (PPtr v) = [VPtr v]" | "piece_args (PStr s) = [VStr s]" | "piece_args (PChar x) = [VInt x]"
| "piece_args _ = []"

text \<open>An argument of the type its conversion expects, and its value: \<open>int\<close> and \<open>long\<close> as they are in C.\<close>

fun typed :: "length_mod \<Rightarrow> va \<Rightarrow> bool" where
  "typed LM_DEFAULT (VInt x) = True" | "typed LM_LONG (VLong x) = True" | "typed LM_LONGLONG (VLongLong x) = True"
| "typed LM_SIZE_T (VLong x) = True" | "typed _ _ = False"

fun signed_value :: "va \<Rightarrow> int" where
  "signed_value (VInt x) = sint x" | "signed_value (VLong x) = sint x" | "signed_value (VLongLong x) = sint x"
| "signed_value _ = 0"

fun unsigned_value :: "va \<Rightarrow> nat" where
  "unsigned_value (VInt x) = unat x" | "unsigned_value (VLong x) = unat x" | "unsigned_value (VLongLong x) = unat x"
| "unsigned_value _ = 0"

fun piece_ok :: "piece \<Rightarrow> bool" where
  "piece_ok (PText s) \<longleftrightarrow> CHR ''%'' \<notin> set s"
| "piece_ok (PSigned lm x) \<longleftrightarrow> typed lm x" | "piece_ok (PUnsigned lm x) \<longleftrightarrow> typed lm x" | "piece_ok (PHex lm x) \<longleftrightarrow> typed lm x"
| "piece_ok _ \<longleftrightarrow> True"

text \<open>The text of a piece: numbers read back as the value that was passed.\<close>

fun shows_piece :: "piece \<Rightarrow> string \<Rightarrow> bool" where
  "shows_piece (PText s) t \<longleftrightarrow> t = s"
| "shows_piece (PSigned lm x) t \<longleftrightarrow> read_signed t = signed_value x \<and> length t \<le> 21"
| "shows_piece (PUnsigned lm x) t \<longleftrightarrow> read_base 10 t = unsigned_value x \<and> list_all is_dec t \<and> length t \<le> 20"
| "shows_piece (PHex lm x) t \<longleftrightarrow> read_base 16 t = unsigned_value x \<and> length t \<le> 16"
| "shows_piece (PPtr v) t \<longleftrightarrow> take 2 t = ''0x'' \<and> length t = 18 \<and> read_base 16 (drop 2 t) = unat v"
| "shows_piece (PStr s) t \<longleftrightarrow> t = (case s of None \<Rightarrow> ''(null)'' | Some u \<Rightarrow> u)"
| "shows_piece (PChar x) t \<longleftrightarrow> t = [char_of (unat x mod 256)]"
| "shows_piece PPercent t \<longleftrightarrow> t = ''%''"

lemma printf_text: "CHR ''%'' \<notin> set s \<Longrightarrow> kvprintf_raw (s @ f) ap = map_option ((@) s) (kvprintf_raw f ap)"
  by (induction s) (cases "kvprintf_raw f ap"; auto)+

lemma parse_mod: "d \<noteq> CHR ''l'' \<Longrightarrow> d \<noteq> CHR ''z'' \<Longrightarrow> parse_length (mod_text lm @ d # f) = (lm, d # f)"
  by (cases lm) auto

lemma sint_scast_up: "sint (scast (x :: u32) :: u64) = sint x"
  by (simp add: sint_up_scast is_up)

lemma unat_ucast_up: "unat (ucast (x :: u32) :: u64) = unat x"
  using unsigned_less [of x, where ?'a = nat] by (simp add: unsigned_ucast_eq take_bit_nat_eq_self)

lemma fetch_signed_typed: "typed lm x \<Longrightarrow> \<exists>v. sint v = signed_value x \<and> (\<forall>ap. fetch_signed lm (x # ap) = Some (v, ap))"
  by (cases lm; cases x) (auto simp: sint_scast_up)

lemma fetch_unsigned_typed: "typed lm x \<Longrightarrow> \<exists>v. unat v = unsigned_value x \<and> (\<forall>ap. fetch_unsigned lm (x # ap) = Some (v, ap))"
  by (cases lm; cases x) (auto simp: unat_ucast_up)

lemma printf_conv:
  assumes "d \<noteq> CHR ''l''" "d \<noteq> CHR ''z''" "convert lm d ap = Some (t, ap')"
  shows "kvprintf_raw ((CHR ''%'' # mod_text lm @ [d]) @ f) ap = map_option ((@) t) (kvprintf_raw f ap')"
  using assms parse_mod [of d lm f] by simp

lemma printf_piece:
  assumes "piece_ok p"
  shows "\<exists>t. shows_piece p t \<and> (\<forall>f ap. kvprintf_raw (piece_fmt p @ f) (piece_args p @ ap) = map_option ((@) t) (kvprintf_raw f ap))"
proof (cases p)
  case (PText s)
  then show ?thesis using assms printf_text by auto
next
  case (PSigned lm x)
  then obtain v where v: "sint v = signed_value x" "\<And>ap. fetch_signed lm (x # ap) = Some (v, ap)"
    using assms fetch_signed_typed by fastforce
  then have "convert lm CHR ''d'' (x # ap) = Some (signed_dec v, ap)" for ap by (simp add: convert_def)
  with PSigned v(1) signed_dec_reads [of v] printf_conv [of "CHR ''d''" lm] show ?thesis
    by (intro exI [of _ "signed_dec v"]) auto
next
  case (PUnsigned lm x)
  then obtain v where v: "unat v = unsigned_value x" "\<And>ap. fetch_unsigned lm (x # ap) = Some (v, ap)"
    using assms fetch_unsigned_typed by fastforce
  then have "convert lm CHR ''u'' (x # ap) = Some (put_dec v, ap)" for ap by (simp add: convert_def)
  with PUnsigned v(1) put_dec_reads [of v] put_dec_length [of v] printf_conv [of "CHR ''u''" lm] show ?thesis
    by (intro exI [of _ "put_dec v"]) auto
next
  case (PHex lm x)
  then obtain v where v: "unat v = unsigned_value x" "\<And>ap. fetch_unsigned lm (x # ap) = Some (v, ap)"
    using assms fetch_unsigned_typed by fastforce
  then have "convert lm CHR ''x'' (x # ap) = Some (put_hex v 0, ap)" for ap by (simp add: convert_def)
  with PHex v(1) put_hex_reads [of v 0] printf_conv [of "CHR ''x''" lm] show ?thesis
    by (intro exI [of _ "put_hex v 0"]) auto
next
  case (PPtr v)
  have "length (put_hex v 16) = 16"
    using put_hex_reads(2) [of v 16] hex_loop_min [of 16 0 v] by (simp add: put_hex_def)
  then show ?thesis using PPtr put_hex_reads(1) [of v 16]
    by (intro exI [of _ "''0x'' @ put_hex v 16"]) (auto simp: convert_def)
next
  case (PChar x)
  have "unat (ucast x :: u8) = unat x mod 256" by (simp add: unsigned_ucast_eq take_bit_eq_mod)
  then show ?thesis using PChar by (intro exI [of _ "[char_of (unat x mod 256)]"]) (auto simp: convert_def)
next
  case PPercent
  then show ?thesis by (auto simp: convert_def)
next
  case (PStr s)
  then show ?thesis by (auto simp: convert_def)
qed

text \<open>C34: A call that passes to each conversion an argument of its type prints, in order, the text of the
  format and for every conversion a text that reads back as the argument - signed and unsigned decimal
  of \<open>int\<close>, \<open>long\<close> and \<open>long long\<close> over their whole range, the smallest negative numbers included,
  hexadecimal, pointers of exactly 16 digits, characters and strings - and never needs more digits than
  the formatter's 24-byte buffer has.\<close>

theorem kprintf_prints_arguments:
  assumes "list_all piece_ok ps"
  shows "\<exists>ts. kvprintf_raw (concat (map piece_fmt ps)) (concat (map piece_args ps)) = Some (concat ts) \<and>
    list_all2 shows_piece ps ts"
  using assms
proof (induction ps)
  case (Cons p ps)
  then obtain ts where ts: "kvprintf_raw (concat (map piece_fmt ps)) (concat (map piece_args ps)) = Some (concat ts)"
    "list_all2 shows_piece ps ts" by auto
  obtain t where t: "shows_piece p t"
    "\<And>f ap. kvprintf_raw (piece_fmt p @ f) (piece_args p @ ap) = map_option ((@) t) (kvprintf_raw f ap)"
    using printf_piece [of p] Cons.prems by auto
  from ts t show ?case by (intro exI [of _ "t # ts"]) simp
qed simp

theorem kprintf_prints_arguments_witness:
  "\<exists>t u. kvprintf_raw ''pid %d at %p'' [VInt 0xFFFFFFFF, VPtr 0x1000] = Some (''pid '' @ t @ '' at '' @ u) \<and>
     read_signed t = - 1 \<and> length u = 18 \<and> read_base 16 (drop 2 u) = 4096"
proof -
  let ?ps = "[PText ''pid '', PSigned LM_DEFAULT (VInt 0xFFFFFFFF), PText '' at '', PPtr 0x1000]"
  have "list_all piece_ok ?ps" by simp
  from kprintf_prints_arguments [OF this] show ?thesis by (auto simp: list_all2_Cons1) blast
qed

end
