(* ===== verification/Basic.thy ===== *)
theory Basic
  imports Printf "HOL-Library.Signed_Division"
begin

text \<open>
  The Tiny-BASIC interpreter, \<open>kernel/core/basic.c\<close>.  A C string is the list of its characters before
  the terminating zero, a pointer into it the rest of the list.  A number is a 32-bit word read as
  signed.  The for- and gosub-stacks are lists with the top first.  \<open>ba_out\<close> is what the console shows,
  \<open>ba_in\<close> the keys still to come, \<open>ba_stops\<close> the answers \<open>task_should_stop\<close> will give (\<open>False\<close> when they
  run out), \<open>ba_ticks\<close> the timer when the generator is seeded, \<open>ba_files\<close> the file system.

  A computation gives a value, waits for a key (\<open>Blocked\<close>), raises the divide error of an x86 \<open>idiv\<close>
  (\<open>Trap\<close>), touches an array out of its bounds (\<open>Oob\<close>) or has no steps left (\<open>NoFuel\<close>).
\<close>

section \<open>State\<close>

definition BAS_MAX_LINES :: nat where "BAS_MAX_LINES = 256"
definition BAS_TEXT_LEN :: nat where "BAS_TEXT_LEN = 80"
definition BAS_STACK :: nat where "BAS_STACK = 8"

record bas_line =
  bl_num :: u32
  bl_text :: string

record for_entry =
  fo_var :: nat
  fo_limit :: u32
  fo_step :: u32
  fo_line :: nat

record basic =
  ba_prog :: "bas_line list"
  ba_vars :: "u32 list"
  ba_pc :: nat
  ba_err :: bool
  ba_for :: "for_entry list"
  ba_gosub :: "nat list"
  ba_rnd :: u32
  ba_out :: string
  ba_in :: string
  ba_stops :: "bool list"
  ba_ticks :: u32
  ba_files :: "string \<Rightarrow> string option"

datatype 'a run = Ok 'a | Blocked | Trap | Oob | NoFuel

fun bnd :: "'a run \<Rightarrow> ('a \<Rightarrow> 'b run) \<Rightarrow> 'b run" where
  "bnd (Ok x) f = f x"
| "bnd Blocked f = Blocked"
| "bnd Trap f = Trap"
| "bnd Oob f = Oob"
| "bnd NoFuel f = NoFuel"

definition print :: "string \<Rightarrow> basic \<Rightarrow> basic" where
  "print s b = b\<lparr>ba_out := ba_out b @ s\<rparr>"

section \<open>Characters\<close>

definition NUL :: char where "NUL = CHR 0x00"

definition peek :: "string \<Rightarrow> char" where
  "peek s = (case s of [] \<Rightarrow> NUL | c # t \<Rightarrow> c)"

definition up :: "char \<Rightarrow> char" where
  "up c = (if 97 \<le> (of_char c :: nat) \<and> (of_char c :: nat) \<le> 122 then char_of ((of_char c :: nat) - 32) else c)"

definition is_alpha :: "char \<Rightarrow> bool" where
  "is_alpha c \<longleftrightarrow> 65 \<le> (of_char (up c) :: nat) \<and> (of_char (up c) :: nat) \<le> 90"

definition is_space :: "char \<Rightarrow> bool" where
  "is_space c \<longleftrightarrow> c = CHR '' '' \<or> c = CHR 0x09"

definition skip_ws :: "string \<Rightarrow> string" where
  "skip_ws s = dropWhile is_space s"

definition var_index :: "char \<Rightarrow> nat" where
  "var_index c = of_char (up c) - 65"

text \<open>One letter that no other letter follows.\<close>

definition is_var :: "string \<Rightarrow> bool" where
  "is_var p \<longleftrightarrow> is_alpha (peek p) \<and> \<not> is_alpha (peek (tl p))"

fun kw_match :: "string \<Rightarrow> string \<Rightarrow> string option" where
  "kw_match q [] = Some q"
| "kw_match [] (w # ws) = None"
| "kw_match (c # q) (w # ws) = (if up c \<noteq> w then None else kw_match q ws)"

definition kw :: "string \<Rightarrow> string \<Rightarrow> string option" where
  "kw p word =
     (case kw_match (skip_ws p) word of
        None \<Rightarrow> None
      | Some q \<Rightarrow> if is_alpha (peek q) then None else Some q)"

text \<open>The digits at the front, added to \<open>v\<close>, and the rest.\<close>

fun number :: "u32 \<Rightarrow> string \<Rightarrow> u32 \<times> string" where
  "number v [] = (v, [])"
| "number v (c # s) = (if is_dec c then number (v * 10 + of_nat (of_char c - 48)) s else (v, c # s))"

section \<open>Expressions\<close>

type_synonym parsed = "u32 \<times> basic \<times> string"

definition fail :: "basic \<Rightarrow> string \<Rightarrow> parsed run" where
  "fail b s = Ok (0, b\<lparr>ba_err := True\<rparr>, s)"

definition get_var :: "basic \<Rightarrow> nat \<Rightarrow> u32 run" where
  "get_var b i = (if i < length (ba_vars b) then Ok (ba_vars b ! i) else Oob)"

definition set_var :: "basic \<Rightarrow> nat \<Rightarrow> u32 \<Rightarrow> basic run" where
  "set_var b i v = (if i < length (ba_vars b) then Ok (b\<lparr>ba_vars := (ba_vars b)[i := v]\<rparr>) else Oob)"

definition s_div :: "u32 \<Rightarrow> u32 \<Rightarrow> u32 run" where
  "s_div v d = (if sint v = - (2 ^ 31) \<and> sint d = - 1 then Trap else Ok (word_of_int (sint v sdiv sint d)))"

definition s_mod :: "u32 \<Rightarrow> u32 \<Rightarrow> u32 run" where
  "s_mod v d = (if sint v = - (2 ^ 31) \<and> sint d = - 1 then Trap else Ok (word_of_int (sint v smod sint d)))"

definition truth :: "bool \<Rightarrow> u32" where
  "truth x = (if x then 1 else 0)"

text \<open>The next random number below \<open>n\<close>.\<close>

definition rnd_next :: "u32 \<Rightarrow> basic \<Rightarrow> u32 \<times> basic" where
  "rnd_next n b =
     (if sint n \<le> 0 then (0, b)
      else let r0 = (if ba_rnd b = 0 then ba_ticks b OR 1 else ba_rnd b); r = r0 * 1103515245 + 12345
           in (drop_bit 16 r mod n, b\<lparr>ba_rnd := r\<rparr>))"

definition s_abs :: "u32 \<Rightarrow> u32" where
  "s_abs n = (if sint n < 0 then - n else n)"

text \<open>The relation after a sum: its width and its meaning.\<close>

definition rel_op :: "string \<Rightarrow> (nat \<times> (int \<Rightarrow> int \<Rightarrow> bool)) option" where
  "rel_op p =
     (if peek p = CHR ''<'' then
        (if peek (tl p) = CHR ''>'' then Some (2, (\<noteq>))
         else if peek (tl p) = CHR ''='' then Some (2, (\<le>)) else Some (1, (<)))
      else if peek p = CHR ''>'' then
        (if peek (tl p) = CHR ''='' then Some (2, (\<ge>)) else Some (1, (>)))
      else if peek p = CHR ''='' then Some (1, (=))
      else None)"

text \<open>The closing bracket of a call or a group, then the value \<open>f\<close> makes of what is inside.\<close>

definition close :: "parsed run \<Rightarrow> (u32 \<Rightarrow> basic \<Rightarrow> u32 \<times> basic) \<Rightarrow> parsed run" where
  "close r f = bnd r (\<lambda>(v, b, s).
     if peek (skip_ws s) \<noteq> CHR '')'' then fail b s
     else (case f v b of (v', b') \<Rightarrow> Ok (v', b', tl (skip_ws s))))"

text \<open>The grammar, from the inside out; \<open>rel\<close> is \<open>bas_rel\<close> one bracket deeper.\<close>

type_synonym parser = "basic \<Rightarrow> string \<Rightarrow> parsed run"

text \<open>What a factor starts with: a sign, a bracket or call with what it makes of its argument, a number, a
  variable, or nothing a factor can start with.\<close>

datatype head = HNeg string | HCall "u32 \<Rightarrow> basic \<Rightarrow> u32 \<times> basic" string | HNum u32 string | HVar nat string | HBad

definition call_head :: "(u32 \<Rightarrow> basic \<Rightarrow> u32 \<times> basic) \<Rightarrow> string \<Rightarrow> head" where
  "call_head f q = (if peek (skip_ws q) \<noteq> CHR ''('' then HBad else HCall f (tl (skip_ws q)))"

definition factor_head :: "string \<Rightarrow> head" where
  "factor_head p =
     (if peek p = CHR ''-'' then HNeg (tl p)
      else if peek p = CHR ''('' then HCall Pair (tl p)
      else if is_dec (peek p) then (case number 0 p of (v, q) \<Rightarrow> HNum v q)
      else (case kw p ''RND'' of
              Some q \<Rightarrow> call_head rnd_next q
            | None \<Rightarrow>
                (case kw p ''ABS'' of
                   Some q \<Rightarrow> call_head (\<lambda>v b. (s_abs v, b)) q
                 | None \<Rightarrow> if is_var p then HVar (var_index (peek p)) (tl p) else HBad)))"

primrec bas_factor :: "parser \<Rightarrow> nat \<Rightarrow> basic \<Rightarrow> string \<Rightarrow> parsed run" where
  "bas_factor rel 0 b s = NoFuel"
| "bas_factor rel (Suc n) b s =
     (case factor_head (skip_ws s) of
        HNeg q \<Rightarrow> bnd (bas_factor rel n b q) (\<lambda>(v, b', s'). Ok (- v, b', s'))
      | HCall f q \<Rightarrow> close (rel b q) f
      | HNum v q \<Rightarrow> Ok (v, b, q)
      | HVar i q \<Rightarrow> bnd (get_var b i) (\<lambda>v. Ok (v, b, q))
      | HBad \<Rightarrow> fail b s)"

text \<open>The operators of a term and of a sum; \<open>None\<close> as a result is a division by zero.\<close>

definition mul_op :: "char \<Rightarrow> (u32 \<Rightarrow> u32 \<Rightarrow> u32 option run) option" where
  "mul_op c =
     (if c = CHR ''*'' then Some (\<lambda>v d. Ok (Some (v * d)))
      else if c = CHR ''/'' then Some (\<lambda>v d. if d = 0 then Ok None else bnd (s_div v d) (\<lambda>q. Ok (Some q)))
      else if c = CHR ''%'' then Some (\<lambda>v d. if d = 0 then Ok None else bnd (s_mod v d) (\<lambda>q. Ok (Some q)))
      else None)"

definition add_op :: "char \<Rightarrow> (u32 \<Rightarrow> u32 \<Rightarrow> u32) option" where
  "add_op c = (if c = CHR ''+'' then Some (+) else if c = CHR ''-'' then Some (-) else None)"

primrec term_loop :: "parser \<Rightarrow> nat \<Rightarrow> u32 \<Rightarrow> basic \<Rightarrow> string \<Rightarrow> parsed run" where
  "term_loop rel 0 v b s = NoFuel"
| "term_loop rel (Suc n) v b s =
     (case mul_op (peek (skip_ws s)) of
        None \<Rightarrow> Ok (v, b, s)
      | Some f \<Rightarrow> bnd (bas_factor rel n b (tl (skip_ws s))) (\<lambda>(d, b', s').
          bnd (f v d) (\<lambda>x. case x of None \<Rightarrow> fail b' s' | Some q \<Rightarrow> term_loop rel n q b' s')))"

definition bas_term :: "parser \<Rightarrow> nat \<Rightarrow> basic \<Rightarrow> string \<Rightarrow> parsed run" where
  "bas_term rel n b s = bnd (bas_factor rel n b s) (\<lambda>(v, b', s'). term_loop rel n v b' s')"

primrec sum_loop :: "parser \<Rightarrow> nat \<Rightarrow> u32 \<Rightarrow> basic \<Rightarrow> string \<Rightarrow> parsed run" where
  "sum_loop rel 0 v b s = NoFuel"
| "sum_loop rel (Suc n) v b s =
     (case add_op (peek (skip_ws s)) of
        None \<Rightarrow> Ok (v, b, s)
      | Some f \<Rightarrow> bnd (bas_term rel n b (tl (skip_ws s))) (\<lambda>(d, b', s'). sum_loop rel n (f v d) b' s'))"

definition bas_sum :: "parser \<Rightarrow> nat \<Rightarrow> basic \<Rightarrow> string \<Rightarrow> parsed run" where
  "bas_sum rel n b s = bnd (bas_term rel n b s) (\<lambda>(v, b', s'). sum_loop rel n v b' s')"

primrec bas_rel :: "nat \<Rightarrow> basic \<Rightarrow> string \<Rightarrow> parsed run" where
  "bas_rel 0 b s = NoFuel"
| "bas_rel (Suc n) b s = bnd (bas_sum (bas_rel n) (Suc n) b s) (\<lambda>(v, b', s').
     let p = skip_ws s'
     in (case rel_op p of
           None \<Rightarrow> Ok (v, b', s')
         | Some (w, f) \<Rightarrow> bnd (bas_sum (bas_rel n) (Suc n) b' (drop w p)) (\<lambda>(u, b'', s'').
             Ok (truth (f (sint v) (sint u)), b'', s''))))"

text \<open>Steps enough for any text (\<open>expr_fuel_enough\<close>).\<close>

definition expr :: "basic \<Rightarrow> string \<Rightarrow> parsed run" where
  "expr b s = bas_rel (Suc (length s)) b s"

section \<open>The program store\<close>

fun find_line_idx :: "bas_line list \<Rightarrow> u32 \<Rightarrow> nat" where
  "find_line_idx [] num = 0"
| "find_line_idx (l # ls) num = (if sint (bl_num l) \<ge> sint num then 0 else Suc (find_line_idx ls num))"

definition line_at :: "bas_line list \<Rightarrow> nat \<Rightarrow> u32 \<Rightarrow> bool" where
  "line_at ls i num \<longleftrightarrow> i < length ls \<and> bl_num (ls ! i) = num"

definition store_line :: "basic \<Rightarrow> u32 \<Rightarrow> string \<Rightarrow> basic" where
  "store_line b num text =
     (let ls = ba_prog b; i = find_line_idx ls num; t = skip_ws text;
          l = \<lparr>bl_num = num, bl_text = take (BAS_TEXT_LEN - 1) t\<rparr>
      in if t = [] then (if line_at ls i num then b\<lparr>ba_prog := take i ls @ drop (Suc i) ls\<rparr> else b)
         else if line_at ls i num then b\<lparr>ba_prog := ls[i := l]\<rparr>
         else if length ls \<ge> BAS_MAX_LINES then print ''?PROGRAM FULL\<newline>'' b
         else b\<lparr>ba_prog := take i ls @ l # drop i ls\<rparr>)"

definition goto_idx :: "basic \<Rightarrow> u32 \<Rightarrow> nat option" where
  "goto_idx b num = (let i = find_line_idx (ba_prog b) num in if line_at (ba_prog b) i num then Some i else None)"

end
