(* ===== verification/Basic_Stmt.thy ===== *)
theory Basic_Stmt
  imports Basic
begin

text \<open>
  The statements, the run loop, loading and saving, and the prompt of the Tiny-BASIC interpreter,
  \<open>kernel/core/basic.c\<close>.
\<close>

section \<open>The console\<close>

text \<open>A line of at most \<open>cap - 1\<close> characters from the keys; \<open>buf\<close> is what has been typed.\<close>

fun read_keys :: "string \<Rightarrow> string \<Rightarrow> string \<Rightarrow> nat \<Rightarrow> (string \<times> string \<times> string) option" where
  "read_keys [] out buf cap = None"
| "read_keys (c # ks) out buf cap =
     (if c = CHR 0x0A then Some (buf, out @ [CHR 0x0A], ks)
      else if c = CHR 0x08 then
        (if buf \<noteq> [] then read_keys ks (out @ [CHR 0x08]) (butlast buf) cap else read_keys ks out buf cap)
      else if length buf < cap - 1 then read_keys ks (out @ [c]) (buf @ [c]) cap
      else read_keys ks out buf cap)"

text \<open>The characters before the first zero.\<close>

definition cstr :: "string \<Rightarrow> string" where
  "cstr s = takeWhile (\<lambda>c. c \<noteq> NUL) s"

definition bas_read_line :: "basic \<Rightarrow> nat \<Rightarrow> (string \<times> basic) run" where
  "bas_read_line b cap =
     (case read_keys (ba_in b) (ba_out b) [] cap of
        None \<Rightarrow> Blocked
      | Some (buf, out, ks) \<Rightarrow> Ok (cstr buf, b\<lparr>ba_out := out, ba_in := ks\<rparr>))"

definition task_should_stop :: "basic \<Rightarrow> bool \<times> basic" where
  "task_should_stop b = (ba_stops b \<noteq> [] \<and> hd (ba_stops b), b\<lparr>ba_stops := tl (ba_stops b)\<rparr>)"

section \<open>Statements\<close>

text \<open>A statement's code: go to the next line, go to \<open>ba_pc\<close>, end, or an error.\<close>

datatype code = Fall | Jump | End | Err

type_synonym stmt = "(code \<times> basic) run"

definition err :: "basic \<Rightarrow> stmt" where
  "err b = Ok (Err, b)"

text \<open>The text \<open>kprintf\<close> makes of a number.\<close>

definition dec :: "u32 \<Rightarrow> string" where
  "dec v = signed_dec (scast v)"

text \<open>The characters of a string literal and what follows its closing quote.\<close>

fun literal :: "string \<Rightarrow> string \<times> string option" where
  "literal [] = ([], None)"
| "literal (c # s) = (if c = CHR 0x22 then ([], Some s) else (case literal s of (t, r) \<Rightarrow> (c # t, r)))"

definition print_item :: "basic \<Rightarrow> string \<Rightarrow> (bool \<times> basic \<times> string) run" where
  "print_item b p =
     (if peek p = CHR 0x22 then
        (case literal (tl p) of
           (t, None) \<Rightarrow> Ok (False, print t b, [])
         | (t, Some r) \<Rightarrow> Ok (True, print t b, r))
      else bnd (expr b p) (\<lambda>(v, b', q). if ba_err b' then Ok (False, b', q) else Ok (True, print (dec v) b', q)))"

primrec print_items :: "nat \<Rightarrow> bool \<Rightarrow> basic \<Rightarrow> string \<Rightarrow> stmt" where
  "print_items 0 newline b p = NoFuel"
| "print_items (Suc n) newline b p =
     (if p = [] then Ok (Fall, if newline then print [CHR 0x0A] b else b)
      else bnd (print_item b p) (\<lambda>(ok, b', q).
        if \<not> ok then err b'
        else let q' = skip_ws q
             in if peek q' = CHR '';'' then print_items n False b' (skip_ws (tl q'))
                else if peek q' = CHR '','' then print_items n False (print ''    '' b') (skip_ws (tl q'))
                else if q' \<noteq> [] then err b'
                else Ok (Fall, print [CHR 0x0A] b')))"

definition st_print :: "basic \<Rightarrow> string \<Rightarrow> stmt" where
  "st_print b p = print_items (Suc (length p)) True b (skip_ws p)"

definition st_input :: "basic \<Rightarrow> string \<Rightarrow> stmt" where
  "st_input b p0 =
     (let p = skip_ws p0
      in if \<not> is_var p then err b
         else bnd (bas_read_line (print ''? '' b) 32) (\<lambda>(line, b1).
           case task_should_stop b1 of (stop, b2) \<Rightarrow>
             if stop then Ok (End, b2)
             else let q = skip_ws line; neg = (peek q = CHR ''-''); v = fst (number 0 (if neg then tl q else q))
                  in bnd (set_var b2 (var_index (peek p)) (if neg then - v else v)) (\<lambda>b3. Ok (Fall, b3))))"

definition jump :: "basic \<Rightarrow> u32 \<Rightarrow> stmt" where
  "jump b n = (case goto_idx b n of None \<Rightarrow> err b | Some i \<Rightarrow> Ok (Jump, b\<lparr>ba_pc := i\<rparr>))"

definition st_goto :: "basic \<Rightarrow> string \<Rightarrow> stmt" where
  "st_goto b p = bnd (expr b p) (\<lambda>(n, b', q). if ba_err b' then err b' else jump b' n)"

definition st_gosub :: "basic \<Rightarrow> string \<Rightarrow> stmt" where
  "st_gosub b p = bnd (expr b p) (\<lambda>(n, b', q).
     if ba_err b' then err b'
     else (case goto_idx b' n of
             None \<Rightarrow> err b'
           | Some i \<Rightarrow>
               if length (ba_gosub b') \<ge> BAS_STACK then err b'
               else Ok (Jump, b'\<lparr>ba_gosub := (ba_pc b' + 1) # ba_gosub b', ba_pc := i\<rparr>)))"

definition st_return :: "basic \<Rightarrow> stmt" where
  "st_return b = (case ba_gosub b of [] \<Rightarrow> err b | r # rs \<Rightarrow> Ok (Jump, b\<lparr>ba_pc := r, ba_gosub := rs\<rparr>))"

text \<open>The \<open>STEP\<close> of a loop, 1 when there is none: the step and the text after it.\<close>

definition for_step :: "basic \<Rightarrow> string \<Rightarrow> (bool \<times> u32 \<times> basic \<times> string) run" where
  "for_step b q =
     (case kw q ''STEP'' of
        None \<Rightarrow> Ok (True, 1, b, q)
      | Some r \<Rightarrow> bnd (expr b r) (\<lambda>(step, b', q'). Ok (\<not> ba_err b' \<and> step \<noteq> 0, step, b', q')))"

definition for_push :: "basic \<Rightarrow> nat \<Rightarrow> u32 \<Rightarrow> u32 \<Rightarrow> u32 \<Rightarrow> stmt" where
  "for_push b vi start limit step =
     (if length (ba_for b) \<ge> BAS_STACK then err b
      else bnd (set_var b vi start) (\<lambda>b'.
        Ok (Fall, b'\<lparr>ba_for := \<lparr>fo_var = vi, fo_limit = limit, fo_step = step, fo_line = ba_pc b'\<rparr> # ba_for b'\<rparr>)))"

definition st_for :: "basic \<Rightarrow> string \<Rightarrow> stmt" where
  "st_for b p0 =
     (let p = skip_ws p0; p1 = skip_ws (tl p)
      in if \<not> is_var p then err b
         else if peek p1 \<noteq> CHR ''='' then err b
         else bnd (expr b (tl p1)) (\<lambda>(start, b1, s1).
           if ba_err b1 then err b1
           else (case kw s1 ''TO'' of
                   None \<Rightarrow> err b1
                 | Some q \<Rightarrow> bnd (expr b1 q) (\<lambda>(limit, b2, s2).
                     if ba_err b2 then err b2
                     else bnd (for_step b2 s2) (\<lambda>(ok, step, b3, s3).
                       if \<not> ok \<or> skip_ws s3 \<noteq> [] then err b3
                       else for_push b3 (var_index (peek p)) start limit step)))))"

text \<open>\<open>NEXT\<close> with a variable drops the loops inside the one it names.\<close>

definition unwind :: "nat option \<Rightarrow> for_entry list \<Rightarrow> for_entry list" where
  "unwind vi fs = (case vi of None \<Rightarrow> fs | Some v \<Rightarrow> dropWhile (\<lambda>f. fo_var f \<noteq> v) fs)"

definition st_next :: "basic \<Rightarrow> string \<Rightarrow> stmt" where
  "st_next b p0 =
     (let p = skip_ws p0; vi = (if is_var p then Some (var_index (peek p)) else None)
      in if ba_for b = [] then err b
         else (case unwind vi (ba_for b) of
                 [] \<Rightarrow> err (b\<lparr>ba_for := []\<rparr>)
               | f # fs \<Rightarrow>
                   bnd (get_var b (fo_var f)) (\<lambda>v0.
                     let v = v0 + fo_step f;
                         cont = (if sint (fo_step f) > 0 then sint v \<le> sint (fo_limit f) else sint v \<ge> sint (fo_limit f))
                     in bnd (set_var b (fo_var f) v) (\<lambda>b'.
                          if cont then Ok (Jump, b'\<lparr>ba_for := f # fs, ba_pc := fo_line f + 1\<rparr>)
                          else Ok (Fall, b'\<lparr>ba_for := fs\<rparr>)))))"

definition st_let :: "basic \<Rightarrow> string \<Rightarrow> stmt" where
  "st_let b s =
     (let p = skip_ws (case kw s ''LET'' of None \<Rightarrow> s | Some q \<Rightarrow> q); q = skip_ws (tl p)
      in if is_var p \<and> peek q = CHR ''='' then
           bnd (expr b (tl q)) (\<lambda>(v, b', r).
             if ba_err b' \<or> skip_ws r \<noteq> [] then err b'
             else bnd (set_var b' (var_index (peek p)) v) (\<lambda>b''. Ok (Fall, b'')))
         else err b)"

text \<open>\<open>IF\<close>, up to the statement after \<open>THEN\<close>: its code, or that statement.\<close>

definition st_if :: "basic \<Rightarrow> string \<Rightarrow> ((code \<times> basic) + (basic \<times> string)) run" where
  "st_if b p = bnd (expr b p) (\<lambda>(c, b', p').
     if ba_err b' then Ok (Inl (Err, b'))
     else (case kw p' ''THEN'' of
             None \<Rightarrow> Ok (Inl (Err, b'))
           | Some q \<Rightarrow>
               if c = 0 then Ok (Inl (Fall, b'))
               else if is_dec (peek (skip_ws q)) then
                 bnd (expr b' (skip_ws q)) (\<lambda>(n, b'', r).
                   if ba_err b'' then Ok (Inl (Err, b'')) else bnd (jump b'' n) (\<lambda>x. Ok (Inl x)))
               else Ok (Inr (b', skip_ws q))))"

text \<open>The statements but \<open>IF\<close>, by their keyword.\<close>

definition exec_simple :: "basic \<Rightarrow> string \<Rightarrow> stmt" where
  "exec_simple b s =
     (case kw s ''PRINT'' of Some p \<Rightarrow> st_print b p | None \<Rightarrow>
     (case kw s ''INPUT'' of Some p \<Rightarrow> st_input b p | None \<Rightarrow>
     (case kw s ''GOTO'' of Some p \<Rightarrow> st_goto b p | None \<Rightarrow>
     (case kw s ''GOSUB'' of Some p \<Rightarrow> st_gosub b p | None \<Rightarrow>
     (case kw s ''RETURN'' of Some p \<Rightarrow> st_return b | None \<Rightarrow>
     (case kw s ''FOR'' of Some p \<Rightarrow> st_for b p | None \<Rightarrow>
     (case kw s ''NEXT'' of Some p \<Rightarrow> st_next b p | None \<Rightarrow>
     (case kw s ''CLS'' of Some p \<Rightarrow> Ok (Fall, print [CHR 0x0C] b) | None \<Rightarrow>
     if kw s ''END'' \<noteq> None \<or> kw s ''STOP'' \<noteq> None then Ok (End, b) else st_let b s))))))))"

primrec exec_loop :: "nat \<Rightarrow> basic \<Rightarrow> string \<Rightarrow> stmt" where
  "exec_loop 0 b s = NoFuel"
| "exec_loop (Suc n) b0 s =
     (let b = b0\<lparr>ba_err := False\<rparr>
      in if kw s ''REM'' \<noteq> None then Ok (Fall, b)
         else (case kw s ''IF'' of
                 None \<Rightarrow> exec_simple b s
               | Some p \<Rightarrow> bnd (st_if b p) (\<lambda>x. case x of Inl r \<Rightarrow> Ok r | Inr (b', q) \<Rightarrow> exec_loop n b' q)))"

definition exec_stmt :: "basic \<Rightarrow> string \<Rightarrow> stmt" where
  "exec_stmt b s = exec_loop (Suc (length s)) b s"

section \<open>Running\<close>

text \<open>At most \<open>n\<close> more lines.\<close>

primrec run_loop :: "nat \<Rightarrow> basic \<Rightarrow> basic run" where
  "run_loop 0 b = NoFuel"
| "run_loop (Suc n) b =
     (if ba_pc b \<ge> length (ba_prog b) then Ok b
      else (case task_should_stop b of (stop, b1) \<Rightarrow>
              if stop then Ok b1
              else let cur = ba_pc b1; l = ba_prog b1 ! cur
                   in bnd (exec_stmt b1 (bl_text l)) (\<lambda>(r, b2).
                        if r = Err then Ok (print (''?ERROR IN '' @ dec (bl_num (ba_prog b2 ! cur)) @ '': '' @
                                                   bl_text (ba_prog b2 ! cur) @ [CHR 0x0A]) b2)
                        else if r = End then Ok b2
                        else run_loop n (if r = Fall then b2\<lparr>ba_pc := cur + 1\<rparr> else b2))))"

definition basic_run :: "nat \<Rightarrow> basic \<Rightarrow> basic run" where
  "basic_run n b = run_loop n (b\<lparr>ba_pc := 0, ba_for := [], ba_gosub := []\<rparr>)"

definition basic_init :: "basic \<Rightarrow> basic" where
  "basic_init b = b\<lparr>ba_prog := [], ba_vars := replicate 26 0, ba_pc := 0, ba_err := False, ba_for := [],
     ba_gosub := [], ba_rnd := 0\<rparr>"

section \<open>Loading and saving\<close>

text \<open>One line of a file; \<open>None\<close> when it has no number.\<close>

definition load_line :: "basic \<Rightarrow> string \<Rightarrow> basic option" where
  "load_line b line =
     (let q = skip_ws (cstr line)
      in if q = [] then Some b
         else if \<not> is_dec (peek q) then None
         else (case number 0 q of (num, r) \<Rightarrow> Some (store_line b num r)))"

text \<open>The bytes of a file, with the line being collected; whether every line had a number.\<close>

fun load_bytes :: "basic \<Rightarrow> string \<Rightarrow> string \<Rightarrow> bool \<times> basic" where
  "load_bytes b line [] = (True, b)"
| "load_bytes b line (c # cs) =
     (if c = CHR 0x0D then load_bytes b line cs
      else if c \<noteq> CHR 0x0A then load_bytes b (if length line < BAS_TEXT_LEN + 16 - 1 then line @ [c] else line) cs
      else (case load_line b line of None \<Rightarrow> (False, b) | Some b' \<Rightarrow> load_bytes b' [] cs))"

text \<open>\<open>failed\<close>: reading stops with an error after the bytes of the file that were read.\<close>

definition basic_load :: "basic \<Rightarrow> string option \<Rightarrow> bool \<Rightarrow> int \<times> basic" where
  "basic_load b file failed =
     (case file of
        None \<Rightarrow> (- 1, b)
      | Some bytes \<Rightarrow>
          (case load_bytes (b\<lparr>ba_prog := []\<rparr>) [] (if failed then bytes else bytes @ [CHR 0x0A]) of
             (ok, b') \<Rightarrow> (if ok then 0 else - 1, b')))"

text \<open>The digits of a line number, least significant first: at least one.\<close>

function num_digits :: "int \<Rightarrow> string" where
  "num_digits n = char_of (nat (48 + n smod 10)) # (if n sdiv 10 = 0 then [] else num_digits (n sdiv 10))"
  by auto
termination
proof (relation "measure (\<lambda>n. nat (abs n))", goal_cases)
  case (2 n)
  have "abs (n sdiv 10) = abs n div 10" by (cases "n = 0") (simp_all add: signed_divide_int_def abs_mult)
  moreover have "n \<noteq> 0" using 2 by (auto simp: signed_divide_int_def)
  ultimately show ?case by simp
qed simp

declare num_digits.simps [simp del]

definition save_line :: "bas_line \<Rightarrow> string" where
  "save_line l = rev (num_digits (sint (bl_num l))) @ CHR '' '' # bl_text l @ [CHR 0x0A]"

text \<open>The lines that are written before a write fails.\<close>

definition save_text :: "basic \<Rightarrow> nat \<Rightarrow> string" where
  "save_text b good = concat (map save_line (take good (ba_prog b)))"

definition basic_save :: "basic \<Rightarrow> string \<Rightarrow> bool \<Rightarrow> nat \<Rightarrow> int \<times> basic" where
  "basic_save b path opens good =
     (if \<not> opens then (- 1, b)
      else (if good < length (ba_prog b) then - 1 else 0, b\<lparr>ba_files := (ba_files b)(path := Some (save_text b good))\<rparr>))"

section \<open>The prompt\<close>

definition bas_list :: "basic \<Rightarrow> basic" where
  "bas_list b = print (concat (map (\<lambda>l. dec (bl_num l) @ '' '' @ bl_text l @ [CHR 0x0A]) (ba_prog b))) b"

definition arg_path :: "string \<Rightarrow> nat \<Rightarrow> string option" where
  "arg_path p0 cap =
     (let p = skip_ws p0;
          buf = (if peek p = CHR 0x22 then take (cap - 1) (takeWhile (\<lambda>c. c \<noteq> CHR 0x22) (tl p))
                 else take (cap - 1) (takeWhile (\<lambda>c. c \<noteq> CHR '' '') p))
      in if buf = [] then None else Some buf)"

record disk_faults =
  df_read :: "string \<Rightarrow> bool"
  df_open :: "string \<Rightarrow> bool"
  df_good :: nat

definition repl_load :: "disk_faults \<Rightarrow> basic \<Rightarrow> string \<Rightarrow> basic" where
  "repl_load df b q =
     (case arg_path q 128 of
        None \<Rightarrow> print ''?LOAD <path>\<newline>'' b
      | Some pa \<Rightarrow>
          (case basic_load b (ba_files b pa) (df_read df pa) of (rc, b') \<Rightarrow>
             if rc = 0 then print (''LOADED '' @ pa @ [CHR 0x0A]) b' else print (''?CANNOT LOAD '' @ pa @ [CHR 0x0A]) b'))"

definition repl_save :: "disk_faults \<Rightarrow> basic \<Rightarrow> string \<Rightarrow> basic" where
  "repl_save df b q =
     (case arg_path q 128 of
        None \<Rightarrow> print ''?SAVE <path>\<newline>'' b
      | Some pa \<Rightarrow>
          (case basic_save b pa (df_open df pa) (df_good df) of (rc, b') \<Rightarrow>
             if rc = 0 then print (''SAVED '' @ pa @ [CHR 0x0A]) b' else print (''?CANNOT SAVE '' @ pa @ [CHR 0x0A]) b'))"

definition help_text :: string where
  "help_text =
     ''lines: 10 PRINT '' @ [CHR 0x22] @ ''HI'' @ [CHR 0x22] @ ''  |  bare number deletes'' @ [CHR 0x0A] @
     ''stmts: PRINT INPUT LET IF..THEN GOTO GOSUB RETURN'' @ [CHR 0x0A] @
     ''       FOR..TO..STEP NEXT REM CLS END STOP'' @ [CHR 0x0A] @
     ''expr:  + - * / % ( ) = <> < > <= >= RND(n) ABS(n)'' @ [CHR 0x0A] @
     ''repl:  RUN LIST NEW LOAD <p> SAVE <p> BYE'' @ [CHR 0x0A]"

text \<open>One line at the prompt, \<open>n\<close> lines of a program at most; whether the prompt goes on.\<close>

definition repl_line :: "disk_faults \<Rightarrow> nat \<Rightarrow> basic \<Rightarrow> string \<Rightarrow> (bool \<times> basic) run" where
  "repl_line df n b line =
     (let p = skip_ws line
      in if p = [] then Ok (True, b)
         else if is_dec (peek p) then (case number 0 p of (num, r) \<Rightarrow> Ok (True, store_line b num r))
         else if kw p ''RUN'' \<noteq> None then bnd (basic_run n b) (\<lambda>b'. Ok (True, b'))
         else if kw p ''LIST'' \<noteq> None then Ok (True, bas_list b)
         else if kw p ''NEW'' \<noteq> None then Ok (True, basic_init b)
         else if kw p ''BYE'' \<noteq> None then Ok (False, print ''BYE\<newline>'' b)
         else if kw p ''HELP'' \<noteq> None then Ok (True, print help_text b)
         else (case kw p ''LOAD'' of Some q \<Rightarrow> Ok (True, repl_load df b q) | None \<Rightarrow>
              (case kw p ''SAVE'' of Some q \<Rightarrow> Ok (True, repl_save df b q) | None \<Rightarrow>
                 bnd (exec_stmt b p) (\<lambda>(r, b'). Ok (True, if r = Err then print ''?ERROR\<newline>'' b' else b')))))"

text \<open>One round of the prompt.\<close>

definition repl_step :: "disk_faults \<Rightarrow> nat \<Rightarrow> basic \<Rightarrow> (bool \<times> basic) run" where
  "repl_step df n b =
     bnd (bas_read_line (print ''> '' b) (BAS_TEXT_LEN + 16)) (\<lambda>(line, b1).
       case task_should_stop b1 of (stop, b2) \<Rightarrow> if stop then Ok (False, b2) else repl_line df n b2 line)"

text \<open>What happens before the first prompt: the banner and the program to start with.\<close>

definition repl_start :: "disk_faults \<Rightarrow> nat \<Rightarrow> basic \<Rightarrow> string option \<Rightarrow> basic run" where
  "repl_start df n b autoload =
     (let b0 = print (''d-os Tiny-BASIC (256 lines max). Type HELP for a refresher.'' @ [CHR 0x0A]) b
      in bnd (case autoload of
                None \<Rightarrow> Ok b0
              | Some pa \<Rightarrow>
                  if pa = [] then Ok b0
                  else (case basic_load b0 (ba_files b0 pa) (df_read df pa) of (rc, b1) \<Rightarrow>
                          if rc = 0 then basic_run n (print (''LOADED '' @ pa @ [CHR 0x0A]) b1)
                          else Ok (print (''?CANNOT LOAD '' @ pa @ [CHR 0x0A]) b1)))
             (\<lambda>b2. Ok (print (''READY'' @ [CHR 0x0A]) b2)))"

text \<open>The prompt: at most \<open>rounds\<close> lines.\<close>

primrec repl_loop :: "disk_faults \<Rightarrow> nat \<Rightarrow> nat \<Rightarrow> basic \<Rightarrow> basic run" where
  "repl_loop df n 0 b = NoFuel"
| "repl_loop df n (Suc rounds) b = bnd (repl_step df n b) (\<lambda>(goes_on, b'). if goes_on then repl_loop df n rounds b' else Ok b')"

definition basic_repl :: "disk_faults \<Rightarrow> nat \<Rightarrow> nat \<Rightarrow> basic \<Rightarrow> string option \<Rightarrow> basic run" where
  "basic_repl df n rounds b autoload = bnd (repl_start df n b autoload) (repl_loop df n rounds)"

end
