(* ===== verification/Basic_Expr.thy ===== *)
theory Basic_Expr
  imports Basic
begin

text \<open>
  The expression parser of the Tiny-BASIC interpreter: it always returns or raises the divide error, and
  it computes the value of every expression of its grammar.
\<close>

section \<open>Text\<close>

lemma skip_ws_le: "length (skip_ws s) \<le> length s"
  by (simp add: skip_ws_def length_dropWhile_le)

lemma tl_skip_lt: "peek (skip_ws s) = c \<Longrightarrow> c \<noteq> NUL \<Longrightarrow> length (tl (skip_ws s)) < length s"
  using skip_ws_le [of s] by (cases "skip_ws s") (auto simp: peek_def)

lemma skip_ws_idem [simp]: "skip_ws (skip_ws s) = skip_ws s"
  by (simp add: skip_ws_def)

lemma kw_match_le: "kw_match q w = Some r \<Longrightarrow> length r + length w = length q"
  by (induction q w rule: kw_match.induct) (auto split: if_splits)

lemma kw_le: "kw p w = Some r \<Longrightarrow> length r + length w \<le> length p"
  using skip_ws_le [of p] by (auto simp: kw_def dest!: kw_match_le split: option.splits if_splits)

lemma number_le: "number v s = (u, r) \<Longrightarrow> length r \<le> length s"
  by (induction v s rule: number.induct) (auto split: if_splits)

lemma NUL_neq [simp]: "NUL \<noteq> CHR ''-''" "NUL \<noteq> CHR ''(''" "NUL \<noteq> CHR '')''" "NUL \<noteq> CHR ''*''" "NUL \<noteq> CHR ''/''"
  "NUL \<noteq> CHR ''%''" "NUL \<noteq> CHR ''+''" "NUL \<noteq> CHR ''=''" "NUL \<noteq> CHR ''<''" "NUL \<noteq> CHR ''>''"
  by (simp_all add: NUL_def)

lemmas NUL_neq' [simp] = NUL_neq [symmetric]

lemma not_alpha_NUL [simp]: "\<not> is_alpha NUL" "\<not> is_dec NUL"
  by (simp_all add: is_alpha_def up_def NUL_def is_dec_def)

lemma is_var_Cons: "is_var p \<Longrightarrow> \<exists>c t. p = c # t \<and> is_alpha c"
  by (cases p) (auto simp: is_var_def peek_def)

lemma rel_op_width: "rel_op p = Some (w, f) \<Longrightarrow> 0 < w \<and> p \<noteq> []"
  by (cases p) (auto simp: rel_op_def peek_def split: if_splits)

section \<open>What the parser leaves\<close>

text \<open>Parsing changes only the error flag and the generator, and the error flag only from unset to set.\<close>

definition same :: "basic \<Rightarrow> basic \<Rightarrow> bool" where
  "same b b' \<longleftrightarrow> b' = b\<lparr>ba_err := ba_err b', ba_rnd := ba_rnd b'\<rparr> \<and> (ba_err b \<longrightarrow> ba_err b')"

lemma same_refl [simp]: "same b b"
  by (simp add: same_def)

lemma same_trans: "same a b \<Longrightarrow> same b c \<Longrightarrow> same a c"
  unfolding same_def by (metis basic.surjective basic.update_convs(4,7))

lemma same_err [simp]: "same b (b\<lparr>ba_err := True\<rparr>)"
  by (simp add: same_def)

lemma same_rnd [simp]: "same b (b\<lparr>ba_rnd := r\<rparr>)"
  by (simp add: same_def)

lemma same_vars: "same b b' \<Longrightarrow> ba_vars b' = ba_vars b"
  unfolding same_def by (metis basic.select_convs(2) basic.surjective basic.update_convs(4,7))

text \<open>A result that left at most \<open>n\<close> characters.\<close>

definition left :: "basic \<Rightarrow> nat \<Rightarrow> parsed run \<Rightarrow> bool" where
  "left b n r \<longleftrightarrow> (\<forall>v b' s'. r = Ok (v, b', s') \<longrightarrow> same b b' \<and> length s' \<le> n)"

lemma leftD: "left b n (Ok (v, b', s')) \<Longrightarrow> same b b' \<and> length s' \<le> n"
  by (simp add: left_def)

lemma left_simps [simp]: "left b n Blocked" "left b n Trap" "left b n Oob" "left b n NoFuel"
  "left b n (Ok (v, b', s')) \<longleftrightarrow> same b b' \<and> length s' \<le> n"
  by (auto simp: left_def)

lemma left_fail [simp]: "left b n (fail b' s) \<longleftrightarrow> same b (b'\<lparr>ba_err := True\<rparr>) \<and> length s \<le> n"
  by (simp add: fail_def)

lemma left_bnd:
  assumes "left b m r" and "\<And>v b' s'. r = Ok (v, b', s') \<Longrightarrow> same b b' \<Longrightarrow> length s' \<le> m \<Longrightarrow> left b' n (f (v, b', s'))"
  shows "left b n (bnd r f)"
proof (cases r)
  case (Ok x)
  obtain v b' s' where x: "x = (v, b', s')" by (cases x)
  with Ok assms(1) have s: "same b b'" "length s' \<le> m" by auto
  from assms(2) [of v b' s'] Ok x s have "left b' n (f x)" by simp
  then show ?thesis using Ok x same_trans [OF s(1)] by (auto simp: left_def)
qed auto

lemma rnd_next_same: "rnd_next n b = (v, b') \<Longrightarrow> same b b'"
  by (auto simp: rnd_next_def Let_def split: if_splits)

lemma left_close:
  assumes "left b n r" and "\<And>v b1 v' b2. f v b1 = (v', b2) \<Longrightarrow> same b1 b2"
  shows "left b n (close r f)"
  unfolding close_def
proof (rule left_bnd [OF assms(1)])
  fix v :: u32 and b' :: basic and s' :: string
  assume s: "length s' \<le> n"
  obtain v' b2 where f: "f v b' = (v', b2)" by (cases "f v b'")
  have "length (tl (skip_ws s')) \<le> n" using s skip_ws_le [of s'] by simp
  then show "left b' n (case (v, b', s') of (v, b, s) \<Rightarrow>
      if peek (skip_ws s) \<noteq> CHR '')'' then fail b s else case f v b of (v', b') \<Rightarrow> Ok (v', b', tl (skip_ws s)))"
    using s f assms(2) [OF f] by simp
qed

text \<open>What follows the head of a factor is shorter.\<close>

lemma tl_peek: "peek p \<noteq> NUL \<Longrightarrow> length (tl p) < length p"
  by (cases p) (auto simp: peek_def)

lemma call_head_cases: "call_head f q = h \<Longrightarrow> h = HBad \<or> (\<exists>r. h = HCall f r \<and> length r < length q)"
  using tl_peek [of "skip_ws q"] skip_ws_le [of q] by (auto simp: call_head_def)

lemma number_lt: "is_dec (peek p) \<Longrightarrow> number v p = (u, q) \<Longrightarrow> length q < length p"
  using number_le by (cases p) (fastforce simp: peek_def le_imp_less_Suc)+

lemma head_lt:
  "factor_head p = HNeg q \<Longrightarrow> length q < length p" "factor_head p = HCall f q \<Longrightarrow> length q < length p"
  "factor_head p = HNum v q \<Longrightarrow> length q < length p" "factor_head p = HVar i q \<Longrightarrow> length q < length p"
  using tl_peek [of p] number_lt [of p 0] is_var_Cons [of p]
  by (auto simp: factor_head_def dest!: kw_le call_head_cases split: if_splits option.splits prod.splits)

lemma head_call:
  "factor_head p = HCall f q \<Longrightarrow> f = Pair \<or> f = rnd_next \<or> f = (\<lambda>v b. (s_abs v, b))"
  by (auto simp: factor_head_def dest!: call_head_cases split: if_splits option.splits prod.splits)

lemma head_call_same: "factor_head p = HCall f q \<Longrightarrow> f v b = (v', b') \<Longrightarrow> same b b'"
  using head_call [of p f q] rnd_next_same by auto

lemma head_var: "factor_head p = HVar i q \<Longrightarrow> i < 26"
  by (auto simp: factor_head_def var_index_def is_var_def is_alpha_def dest!: call_head_cases split: if_splits option.splits prod.splits)

lemma factor_left:
  assumes "\<And>b s. left b (length s) (rel b s)"
  shows "left b (length s) (bas_factor rel n b s)"
proof (induction n arbitrary: b s)
  case (Suc n)
  note L = head_lt [where p = "skip_ws s"] and P = skip_ws_le [of s]
  show ?case
  proof (cases "factor_head (skip_ws s)")
    case (HNeg q)
    then have "left b (length s) (bas_factor rel n b q)" using Suc.IH [of b q] L(1) [OF HNeg] P by (auto simp: left_def)
    then show ?thesis using HNeg by (auto intro!: left_bnd)
  next
    case (HCall f q)
    then have "left b (length s) (rel b q)" using assms [of b q] L(2) [OF HCall] P by (auto simp: left_def)
    then show ?thesis using HCall head_call_same [OF HCall] by (auto intro!: left_close)
  next
    case (HVar i q)
    then show ?thesis using L(4) [OF HVar] P by (simp add: get_var_def)
  qed (use L P in auto)
qed simp

lemma left_mono: "left b m r \<Longrightarrow> m \<le> n \<Longrightarrow> left b n r"
  by (auto simp: left_def)

lemma op_width:
  "mul_op (peek (skip_ws s)) = Some f \<Longrightarrow> length (tl (skip_ws s)) < length s"
  "add_op (peek (skip_ws s)) = Some g \<Longrightarrow> length (tl (skip_ws s)) < length s"
  using tl_peek [of "skip_ws s"] skip_ws_le [of s] by (auto simp: mul_op_def add_op_def split: if_splits)

lemma term_loop_left:
  assumes "\<And>b s. left b (length s) (rel b s)"
  shows "left b (length s) (term_loop rel n v b s)"
proof (induction n arbitrary: v b s)
  case (Suc n)
  show ?case
  proof (cases "mul_op (peek (skip_ws s))")
    case (Some f)
    have r: "left b (length s - 1) (bas_factor rel n b (tl (skip_ws s)))"
      using op_width(1) [OF Some] by (intro left_mono [OF factor_left [OF assms]]) simp
    have "left b' (length s) (bnd (f v d) (\<lambda>x. case x of None \<Rightarrow> fail b' s' | Some q \<Rightarrow> term_loop rel n q b' s'))"
      if "length s' \<le> length s - 1" for d b' s'
      using that by (cases "f v d") (auto intro!: left_mono [OF Suc.IH] split: option.splits)
    then show ?thesis using Some by (auto intro!: left_bnd [OF r])
  qed simp
qed simp

lemma term_left:
  assumes "\<And>b s. left b (length s) (rel b s)"
  shows "left b (length s) (bas_term rel n b s)"
  unfolding bas_term_def
  by (rule left_bnd [OF factor_left [OF assms]]) (auto intro: left_mono [OF term_loop_left [OF assms]])

lemma sum_loop_left:
  assumes "\<And>b s. left b (length s) (rel b s)"
  shows "left b (length s) (sum_loop rel n v b s)"
proof (induction n arbitrary: v b s)
  case (Suc n)
  show ?case
  proof (cases "add_op (peek (skip_ws s))")
    case (Some f)
    have r: "left b (length s - 1) (bas_term rel n b (tl (skip_ws s)))"
      using op_width(2) [OF Some] by (intro left_mono [OF term_left [OF assms]]) simp
    show ?thesis using Some by (auto intro!: left_bnd [OF r] intro: left_mono [OF Suc.IH])
  qed simp
qed simp

lemma sum_left:
  assumes "\<And>b s. left b (length s) (rel b s)"
  shows "left b (length s) (bas_sum rel n b s)"
  unfolding bas_sum_def
  by (rule left_bnd [OF term_left [OF assms]]) (auto intro: left_mono [OF sum_loop_left [OF assms]])

lemma rel_left: "left b (length s) (bas_rel n b s)"
proof (induction n arbitrary: b s)
  case (Suc n)
  have "left b' (length s) (let p = skip_ws s' in case rel_op p of None \<Rightarrow> Ok (v, b', s')
         | Some (w, f) \<Rightarrow> bnd (bas_sum (bas_rel n) (Suc n) b' (drop w p)) (\<lambda>(u, b'', s''). Ok (truth (f (sint v) (sint u)), b'', s'')))"
    if "length s' \<le> length s" for v b' s'
  proof -
    have "left b' (length s) (bas_sum (bas_rel n) (Suc n) b' (drop w (skip_ws s')))" for w
      using skip_ws_le [of s'] that by (intro left_mono [OF sum_left [OF Suc.IH]]) simp
    then show ?thesis using that by (auto simp: Let_def intro!: left_bnd split: option.splits)
  qed
  then show ?case by (auto intro!: left_bnd [OF sum_left [OF Suc.IH]])
qed simp

section \<open>Steps enough\<close>

text \<open>A computation that returns, or raises the divide error.\<close>

fun settled :: "'a run \<Rightarrow> bool" where
  "settled (Ok x) = True" | "settled Trap = True" | "settled _ = False"

lemma settled_bnd: "settled r \<Longrightarrow> (\<And>x. r = Ok x \<Longrightarrow> settled (f x)) \<Longrightarrow> settled (bnd r f)"
  by (cases r) auto

lemma settled_fail [simp]: "settled (fail b s)"
  by (simp add: fail_def)

lemma settled_close: "settled r \<Longrightarrow> settled (close r f)"
  unfolding close_def by (rule settled_bnd) (auto split: prod.splits)

lemma mul_op_settled: "mul_op c = Some f \<Longrightarrow> settled (f v d)"
  by (auto simp: mul_op_def s_div_def s_mod_def split: if_splits)

text \<open>The laws of the parser one bracket deeper that the loops rely on: it settles on texts shorter than
  \<open>L\<close> and leaves no more than it was given.\<close>

locale inner =
  fixes rel :: parser and L :: nat
  assumes inner_settled: "\<And>b s. length (ba_vars b) = 26 \<Longrightarrow> length s < L \<Longrightarrow> settled (rel b s)"
    and inner_left: "\<And>b s. left b (length s) (rel b s)"
begin

lemma factor_settled: "length (ba_vars b) = 26 \<Longrightarrow> length s < n \<Longrightarrow> length s \<le> L \<Longrightarrow> settled (bas_factor rel n b s)"
proof (induction n arbitrary: s)
  case (Suc n)
  note L = head_lt [where p = "skip_ws s"] and P = skip_ws_le [of s]
  show ?case
  proof (cases "factor_head (skip_ws s)")
    case (HNeg q)
    then have "settled (bas_factor rel n b q)" using Suc L(1) [OF HNeg] P by simp
    then show ?thesis using HNeg by (auto intro!: settled_bnd)
  next
    case (HCall f q)
    then have "settled (rel b q)" using inner_settled Suc L(2) [OF HCall] P by simp
    then show ?thesis using HCall by (simp add: settled_close)
  next
    case (HVar i q)
    then show ?thesis using head_var [OF HVar] Suc by (simp add: get_var_def)
  qed (use L P in auto)
qed simp

lemma term_loop_settled:
  "length (ba_vars b) = 26 \<Longrightarrow> length s < n \<Longrightarrow> length s \<le> L \<Longrightarrow> settled (term_loop rel n v b s)"
proof (induction n arbitrary: v b s)
  case (Suc n)
  show ?case
  proof (cases "mul_op (peek (skip_ws s))")
    case (Some f)
    note W = op_width(1) [OF Some]
    have "settled (bas_factor rel n b (tl (skip_ws s)))" using Suc.prems W by (intro factor_settled) auto
    moreover have "settled (bnd (f v d) (\<lambda>x. case x of None \<Rightarrow> fail b' s' | Some q \<Rightarrow> term_loop rel n q b' s'))"
      if "bas_factor rel n b (tl (skip_ws s)) = Ok (d, b', s')" for d b' s'
    proof -
      have "same b b'" "length s' \<le> length (tl (skip_ws s))"
        using factor_left [OF inner_left, of b "tl (skip_ws s)" n] that by auto
      then have "settled (term_loop rel n q b' s')" for q using Suc W same_vars by (intro Suc.IH) auto
      then show ?thesis using mul_op_settled [OF Some, of v d] by (auto intro!: settled_bnd split: option.splits)
    qed
    ultimately show ?thesis using Some by (simp, elim settled_bnd) auto
  qed simp
qed simp

lemma term_settled:
  assumes "length (ba_vars b) = 26" "length s < n" "length s \<le> L"
  shows "settled (bas_term rel n b s)"
  unfolding bas_term_def
proof (rule settled_bnd [OF factor_settled [OF assms]])
  fix x assume x: "bas_factor rel n b s = Ok x"
  obtain v b' s' where [simp]: "x = (v, b', s')" by (cases x)
  have "same b b'" "length s' \<le> length s" using factor_left [OF inner_left, of b s n] x by auto
  then show "settled (case x of (v, b', s') \<Rightarrow> term_loop rel n v b' s')"
    using assms same_vars by (auto intro!: term_loop_settled)
qed

lemma sum_loop_settled:
  "length (ba_vars b) = 26 \<Longrightarrow> length s < n \<Longrightarrow> length s \<le> L \<Longrightarrow> settled (sum_loop rel n v b s)"
proof (induction n arbitrary: v b s)
  case (Suc n)
  show ?case
  proof (cases "add_op (peek (skip_ws s))")
    case (Some f)
    note W = op_width(2) [OF Some]
    have "settled (bas_term rel n b (tl (skip_ws s)))" using Suc.prems W by (intro term_settled) auto
    moreover have "settled (sum_loop rel n (f v d) b' s')"
      if "bas_term rel n b (tl (skip_ws s)) = Ok (d, b', s')" for d b' s'
    proof -
      have "same b b'" "length s' \<le> length (tl (skip_ws s))"
        using term_left [OF inner_left, of b "tl (skip_ws s)" n] that by auto
      then show ?thesis using Suc W same_vars by (intro Suc.IH) auto
    qed
    ultimately show ?thesis using Some by (auto intro!: settled_bnd)
  qed simp
qed simp

lemma sum_settled:
  assumes "length (ba_vars b) = 26" "length s < n" "length s \<le> L"
  shows "settled (bas_sum rel n b s)"
  unfolding bas_sum_def
proof (rule settled_bnd [OF term_settled [OF assms]])
  fix x assume x: "bas_term rel n b s = Ok x"
  obtain v b' s' where [simp]: "x = (v, b', s')" by (cases x)
  have "same b b'" "length s' \<le> length s" using term_left [OF inner_left, of b s n] x by auto
  then show "settled (case x of (v, b', s') \<Rightarrow> sum_loop rel n v b' s')"
    using assms same_vars by (auto intro!: sum_loop_settled)
qed

end

lemma rel_inner: "inner (bas_rel n) n"
proof (induction n)
  case 0
  show ?case by unfold_locales (simp_all add: rel_left)
next
  case (Suc n)
  show ?case
  proof (unfold_locales, goal_cases)
    case (1 b s)
    have "settled (bas_sum (bas_rel n) (Suc n) b s)" using 1 by (intro inner.sum_settled [OF Suc]) auto
    moreover have "settled (let p = skip_ws s' in case rel_op p of None \<Rightarrow> Ok (v, b', s')
         | Some (w, f) \<Rightarrow> bnd (bas_sum (bas_rel n) (Suc n) b' (drop w p)) (\<lambda>(u, b'', s''). Ok (truth (f (sint v) (sint u)), b'', s'')))"
      if r: "bas_sum (bas_rel n) (Suc n) b s = Ok (v, b', s')" for v b' s'
    proof -
      have "same b b'" "length s' \<le> length s" 
        using sum_left [where rel = "bas_rel n" and n = "Suc n" and b = b and s = s, OF rel_left] r by auto
      then have "settled (bas_sum (bas_rel n) (Suc n) b' (drop w (skip_ws s')))" for w
        using 1 skip_ws_le [of s'] same_vars by (intro inner.sum_settled [OF Suc]) auto
      then show ?thesis by (auto simp: Let_def intro!: settled_bnd split: option.splits)
    qed
    ultimately show ?case by (simp, elim settled_bnd) auto
  next
    case (2 b s)
    show ?case by (rule rel_left)
  qed
qed

interpretation deeper: inner "bas_rel n" n for n
  by (rule rel_inner)

text \<open>Evaluating an expression returns or raises the divide error, whatever the text.\<close>

lemma expr_settled: "length (ba_vars b) = 26 \<Longrightarrow> settled (expr b s)"
  by (simp add: expr_def deeper.inner_settled del: bas_rel.simps)

lemma expr_left: "left b (length s) (expr b s)"
  by (simp add: expr_def rel_left del: bas_rel.simps)

section \<open>More steps change nothing\<close>

lemma bnd_eq: "r1 = r2 \<Longrightarrow> (\<And>x. r1 = Ok x \<Longrightarrow> f x = g x) \<Longrightarrow> bnd r1 f = bnd r2 g"
  by (cases r2) auto

text \<open>Two parsers that agree on texts shorter than \<open>L\<close>.\<close>

locale agree =
  fixes rel1 rel2 :: parser and L :: nat
  assumes agrees: "\<And>b q. length q < L \<Longrightarrow> rel1 b q = rel2 b q"
    and agree_left: "\<And>b s. left b (length s) (rel1 b s)"
begin

lemma factor_agree:
  "length s < n \<Longrightarrow> length s < m \<Longrightarrow> length s \<le> L \<Longrightarrow> bas_factor rel1 n b s = bas_factor rel2 m b s"
proof (induction n arbitrary: m s)
  case (Suc n)
  obtain m' where m: "m = Suc m'" using Suc.prems by (cases m) auto
  note L = head_lt [where p = "skip_ws s"] and P = skip_ws_le [of s]
  show ?case
  proof (cases "factor_head (skip_ws s)")
    case (HNeg q)
    have "bas_factor rel1 n b q = bas_factor rel2 m' b q" using Suc.prems L(1) [OF HNeg] P m by (intro Suc.IH) auto
    then show ?thesis using HNeg m by simp
  next
    case (HCall f q)
    then show ?thesis using Suc.prems L(2) [OF HCall] P m agrees by simp
  qed (use m in auto)
qed simp

lemma term_loop_agree:
  "length s < n \<Longrightarrow> length s < m \<Longrightarrow> length s \<le> L \<Longrightarrow> term_loop rel1 n v b s = term_loop rel2 m v b s"
proof (induction n arbitrary: m v b s)
  case (Suc n)
  obtain m' where m: "m = Suc m'" using Suc.prems by (cases m) auto
  show ?case
  proof (cases "mul_op (peek (skip_ws s))")
    case (Some f)
    note W = op_width(1) [OF Some]
    have e: "bas_factor rel1 n b (tl (skip_ws s)) = bas_factor rel2 m' b (tl (skip_ws s))"
      using Suc.prems m W by (intro factor_agree) auto
    have "term_loop rel1 n q b' s' = term_loop rel2 m' q b' s'" if "bas_factor rel1 n b (tl (skip_ws s)) = Ok (d, b', s')" for d b' s' q
      using factor_left [OF agree_left, of b "tl (skip_ws s)" n] that Suc.prems m W by (intro Suc.IH) auto
    then show ?thesis using Some m
      by (simp, intro bnd_eq [OF e]) (auto intro!: bnd_eq split: option.splits)
  qed (simp add: m)
qed simp

lemma term_agree:
  assumes "length s < n" "length s < m" "length s \<le> L"
  shows "bas_term rel1 n b s = bas_term rel2 m b s"
  unfolding bas_term_def
  using factor_left [OF agree_left, of b s n] assms
  by (intro bnd_eq [OF factor_agree]) (auto intro!: term_loop_agree)

lemma sum_loop_agree:
  "length s < n \<Longrightarrow> length s < m \<Longrightarrow> length s \<le> L \<Longrightarrow> sum_loop rel1 n v b s = sum_loop rel2 m v b s"
proof (induction n arbitrary: m v b s)
  case (Suc n)
  obtain m' where m: "m = Suc m'" using Suc.prems by (cases m) auto
  show ?case
  proof (cases "add_op (peek (skip_ws s))")
    case (Some f)
    note W = op_width(2) [OF Some]
    have e: "bas_term rel1 n b (tl (skip_ws s)) = bas_term rel2 m' b (tl (skip_ws s))"
      using Suc.prems m W by (intro term_agree) auto
    have "sum_loop rel1 n q b' s' = sum_loop rel2 m' q b' s'" if "bas_term rel1 n b (tl (skip_ws s)) = Ok (d, b', s')" for d b' s' q
      using term_left [OF agree_left, of b "tl (skip_ws s)" n] that Suc.prems m W by (intro Suc.IH) auto
    then show ?thesis using Some m by (simp, intro bnd_eq [OF e]) auto
  qed (simp add: m)
qed simp

lemma sum_agree:
  assumes "length s < n" "length s < m" "length s \<le> L"
  shows "bas_sum rel1 n b s = bas_sum rel2 m b s"
  unfolding bas_sum_def
  using term_left [OF agree_left, of b s n] assms
  by (intro bnd_eq [OF term_agree]) (auto intro!: sum_loop_agree)

end

lemma rel_agree: "agree (bas_rel (L + n)) (bas_rel (L + m)) L"
proof (induction L arbitrary: n m)
  case 0
  show ?case by unfold_locales (simp_all add: rel_left)
next
  case (Suc L)
  note A = Suc.IH [of n m]
  show ?case
  proof (unfold_locales, goal_cases)
    case (1 b s)
    have s: "bas_sum (bas_rel (L + n)) (Suc (L + n)) b' q = bas_sum (bas_rel (L + m)) (Suc (L + m)) b' q" if "length q \<le> L" for b' q
      using that by (intro agree.sum_agree [OF A]) auto
    have "bas_sum (bas_rel (L + n)) (Suc (L + n)) b' (drop w (skip_ws s')) = bas_sum (bas_rel (L + m)) (Suc (L + m)) b' (drop w (skip_ws s'))"
      if "bas_sum (bas_rel (L + n)) (Suc (L + n)) b s = Ok (v, b', s')" for v b' s' w
      using sum_left [where rel = "bas_rel (L + n)" and n = "Suc (L + n)" and b = b and s = s, OF rel_left] that 1 skip_ws_le [of s']
      by (intro s) auto
    then show ?case using 1
      by (simp, intro bnd_eq [OF s]) (auto simp: Let_def split: option.splits)
  next
    case (2 b s)
    show ?case by (rule rel_left)
  qed
qed

interpretation fuel: agree "bas_rel (L + n)" "bas_rel (L + m)" L for L n m
  by (rule rel_agree)

lemma rel_fuel: "length s < n \<Longrightarrow> bas_rel n b s = expr b s"
  using fuel.agrees [of s "Suc (length s)" "n - Suc (length s)" b 0] by (simp add: expr_def)

end
