(* ===== verification/Basic_Grammar.thy ===== *)
theory Basic_Grammar
  imports Basic_Expr
begin

text \<open>
  The expression parser computes the value of the expressions of its grammar: precedence, association,
  spacing, division by zero and the divide error.
\<close>

section \<open>The parser without steps\<close>

interpretation free: agree "bas_rel n" expr n for n
  by unfold_locales (simp_all add: rel_fuel rel_left)

interpretation self: agree expr expr L for L
  by unfold_locales (simp_all add: expr_left)

definition factor :: parser where "factor b s = bas_factor expr (Suc (length s)) b s"
definition tloop :: "u32 \<Rightarrow> parser" where "tloop v b s = term_loop expr (Suc (length s)) v b s"
definition trm :: parser where "trm b s = bas_term expr (Suc (length s)) b s"
definition sloop :: "u32 \<Rightarrow> parser" where "sloop v b s = sum_loop expr (Suc (length s)) v b s"
definition smm :: parser where "smm b s = bas_sum expr (Suc (length s)) b s"

lemma factor_eq: "length s < n \<Longrightarrow> bas_factor expr n b s = factor b s"
  unfolding factor_def by (rule self.factor_agree [where L = "length s"]) auto

lemma tloop_eq: "length s < n \<Longrightarrow> term_loop expr n v b s = tloop v b s"
  unfolding tloop_def by (rule self.term_loop_agree [where L = "length s"]) auto

lemma trm_eq: "length s < n \<Longrightarrow> bas_term expr n b s = trm b s"
  unfolding trm_def by (rule self.term_agree [where L = "length s"]) auto

lemma sloop_eq: "length s < n \<Longrightarrow> sum_loop expr n v b s = sloop v b s"
  unfolding sloop_def by (rule self.sum_loop_agree [where L = "length s"]) auto

lemma smm_eq: "length s \<le> m \<Longrightarrow> length s < n \<Longrightarrow> bas_sum (bas_rel m) n b s = smm b s"
  unfolding smm_def by (rule free.sum_agree) auto

lemma factor_unfold:
  "factor b s =
     (case factor_head (skip_ws s) of
        HNeg q \<Rightarrow> bnd (factor b q) (\<lambda>(v, b', s'). Ok (- v, b', s'))
      | HCall f q \<Rightarrow> close (expr b q) f
      | HNum v q \<Rightarrow> Ok (v, b, q)
      | HVar i q \<Rightarrow> bnd (get_var b i) (\<lambda>v. Ok (v, b, q))
      | HBad \<Rightarrow> fail b s)"
proof -
  have "bas_factor expr (length s) b q = factor b q" if "factor_head (skip_ws s) = HNeg q" for q
    using head_lt(1) [OF that] skip_ws_le [of s] by (intro factor_eq) simp
  then show ?thesis by (simp add: factor_def [of b s] split: head.splits)
qed

lemma trm_unfold: "trm b s = bnd (factor b s) (\<lambda>(v, b', s'). tloop v b' s')"
proof -
  have "term_loop expr (Suc (length s)) v b' s' = tloop v b' s'" if "factor b s = Ok (v, b', s')" for v b' s'
    using factor_left [where rel = expr and b = b and s = s and n = "Suc (length s)", OF expr_left] that
    by (intro tloop_eq) (simp add: factor_def del: bas_factor.simps)
  then show ?thesis
    by (auto simp: trm_def bas_term_def factor_def [symmetric] simp del: bas_factor.simps term_loop.simps intro!: bnd_eq)
qed

lemma tloop_unfold:
  "tloop v b s =
     (case mul_op (peek (skip_ws s)) of
        None \<Rightarrow> Ok (v, b, s)
      | Some f \<Rightarrow> bnd (factor b (tl (skip_ws s))) (\<lambda>(d, b', s').
          bnd (f v d) (\<lambda>x. case x of None \<Rightarrow> fail b' s' | Some q \<Rightarrow> tloop q b' s')))"
proof (cases "mul_op (peek (skip_ws s))")
  case (Some f)
  note W = op_width(1) [OF Some]
  have e: "bas_factor expr (length s) b (tl (skip_ws s)) = factor b (tl (skip_ws s))" using W by (rule factor_eq)
  have "term_loop expr (length s) q b' s' = tloop q b' s'" if "bas_factor expr (length s) b (tl (skip_ws s)) = Ok (d, b', s')" for q d b' s'
    using factor_left [where rel = expr and n = "length s" and b = b and s = "tl (skip_ws s)", OF expr_left] that W
    by (intro tloop_eq) auto
  then show ?thesis using Some
    by (simp add: tloop_def [of v b s], intro bnd_eq [OF e]) (auto intro!: bnd_eq split: option.splits)
qed (simp add: tloop_def)

lemma smm_unfold: "smm b s = bnd (trm b s) (\<lambda>(v, b', s'). sloop v b' s')"
proof -
  have "sum_loop expr (Suc (length s)) v b' s' = sloop v b' s'" if "trm b s = Ok (v, b', s')" for v b' s'
    using term_left [where rel = expr and b = b and s = s and n = "Suc (length s)", OF expr_left] that
    by (intro sloop_eq) (simp add: trm_def del: bas_factor.simps)
  then show ?thesis
    by (auto simp: smm_def bas_sum_def trm_def [symmetric] simp del: sum_loop.simps intro!: bnd_eq)
qed

lemma sloop_unfold:
  "sloop v b s =
     (case add_op (peek (skip_ws s)) of
        None \<Rightarrow> Ok (v, b, s)
      | Some f \<Rightarrow> bnd (trm b (tl (skip_ws s))) (\<lambda>(d, b', s'). sloop (f v d) b' s'))"
proof (cases "add_op (peek (skip_ws s))")
  case (Some f)
  note W = op_width(2) [OF Some]
  have e: "bas_term expr (length s) b (tl (skip_ws s)) = trm b (tl (skip_ws s))" using W by (rule trm_eq)
  have "sum_loop expr (length s) q b' s' = sloop q b' s'" if "bas_term expr (length s) b (tl (skip_ws s)) = Ok (d, b', s')" for q d b' s'
    using term_left [where rel = expr and n = "length s" and b = b and s = "tl (skip_ws s)", OF expr_left] that W
    by (intro sloop_eq) auto
  then show ?thesis using Some
    by (simp add: sloop_def [of v b s], intro bnd_eq [OF e]) auto
qed (simp add: sloop_def)

lemma expr_unfold:
  "expr b s = bnd (smm b s) (\<lambda>(v, b', s').
     case rel_op (skip_ws s') of
       None \<Rightarrow> Ok (v, b', s')
     | Some (w, f) \<Rightarrow> bnd (smm b' (drop w (skip_ws s'))) (\<lambda>(u, b'', s''). Ok (truth (f (sint v) (sint u)), b'', s'')))"
proof -
  have e: "bas_sum (bas_rel (length s)) (Suc (length s)) b s = smm b s" by (rule smm_eq) auto
  have "bas_sum (bas_rel (length s)) (Suc (length s)) b' (drop w (skip_ws s')) = smm b' (drop w (skip_ws s'))"
    if "smm b s = Ok (v, b', s')" for v b' s' w
  proof -
    have "length s' \<le> length s"
      using sum_left [where rel = expr and n = "Suc (length s)" and b = b and s = s, OF expr_left] that by (simp add: smm_def)
    then show ?thesis using skip_ws_le [of s'] by (intro smm_eq) auto
  qed
  then show ?thesis
    by (simp add: expr_def [of b s] e Let_def) (auto intro!: bnd_eq split: option.splits)
qed

section \<open>The grammar\<close>

datatype mop = Times | Divide | Modulo
datatype aop = Plus | Minus
datatype rop = Eq | Ne | Lt | Gt | Le | Ge

datatype fac = Num string | Var char | Neg fac | Paren rl | Abs rl | Rnd rl
and tm = Fac fac | Mul mop tm fac
and sm = Term tm | Add aop sm tm
and rl = Sum sm | Rel rop sm sm

text \<open>Its text, with the same spaces \<open>sp\<close> before every token.\<close>

fun mop_char :: "mop \<Rightarrow> char" where
  "mop_char Times = CHR ''*''" | "mop_char Divide = CHR ''/''" | "mop_char Modulo = CHR ''%''"

fun aop_char :: "aop \<Rightarrow> char" where
  "aop_char Plus = CHR ''+''" | "aop_char Minus = CHR ''-''"

fun rop_text :: "rop \<Rightarrow> string" where
  "rop_text Eq = ''=''" | "rop_text Ne = ''<>''" | "rop_text Lt = ''<''" | "rop_text Gt = ''>''"
| "rop_text Le = ''<=''" | "rop_text Ge = ''>=''"

primrec show_fac :: "string \<Rightarrow> fac \<Rightarrow> string" and show_tm :: "string \<Rightarrow> tm \<Rightarrow> string"
  and show_sm :: "string \<Rightarrow> sm \<Rightarrow> string" and show_rl :: "string \<Rightarrow> rl \<Rightarrow> string" where
  "show_fac sp (Num ds) = sp @ ds"
| "show_fac sp (Var c) = sp @ [c]"
| "show_fac sp (Neg f) = sp @ ''-'' @ show_fac sp f"
| "show_fac sp (Paren r) = sp @ ''('' @ show_rl sp r @ sp @ '')''"
| "show_fac sp (Abs r) = sp @ ''ABS'' @ sp @ ''('' @ show_rl sp r @ sp @ '')''"
| "show_fac sp (Rnd r) = sp @ ''RND'' @ sp @ ''('' @ show_rl sp r @ sp @ '')''"
| "show_tm sp (Fac f) = show_fac sp f"
| "show_tm sp (Mul m t f) = show_tm sp t @ sp @ [mop_char m] @ show_fac sp f"
| "show_sm sp (Term t) = show_tm sp t"
| "show_sm sp (Add a s t) = show_sm sp s @ sp @ [aop_char a] @ show_tm sp t"
| "show_rl sp (Sum s) = show_sm sp s"
| "show_rl sp (Rel q s t) = show_sm sp s @ sp @ rop_text q @ show_sm sp t"

text \<open>Numbers have digits, variables are letters.\<close>

primrec wf_fac :: "fac \<Rightarrow> bool" and wf_tm :: "tm \<Rightarrow> bool" and wf_sm :: "sm \<Rightarrow> bool" and wf_rl :: "rl \<Rightarrow> bool" where
  "wf_fac (Num ds) \<longleftrightarrow> ds \<noteq> [] \<and> list_all is_dec ds"
| "wf_fac (Var c) \<longleftrightarrow> is_alpha c"
| "wf_fac (Neg f) \<longleftrightarrow> wf_fac f" | "wf_fac (Paren r) \<longleftrightarrow> wf_rl r" | "wf_fac (Abs r) \<longleftrightarrow> wf_rl r" | "wf_fac (Rnd r) \<longleftrightarrow> wf_rl r"
| "wf_tm (Fac f) \<longleftrightarrow> wf_fac f" | "wf_tm (Mul m t f) \<longleftrightarrow> wf_tm t \<and> wf_fac f"
| "wf_sm (Term t) \<longleftrightarrow> wf_tm t" | "wf_sm (Add a s t) \<longleftrightarrow> wf_sm s \<and> wf_tm t"
| "wf_rl (Sum s) \<longleftrightarrow> wf_sm s" | "wf_rl (Rel q s t) \<longleftrightarrow> wf_sm s \<and> wf_sm t"

section \<open>The value\<close>

text \<open>An evaluation gives a value and the generator after it, \<open>Ok None\<close> for a division by zero, or the
  divide error.\<close>

type_synonym ev = "(u32 \<times> basic) option run"

definition ev_bnd :: "ev \<Rightarrow> (u32 \<times> basic \<Rightarrow> ev) \<Rightarrow> ev" where
  "ev_bnd e f = bnd e (\<lambda>x. case x of None \<Rightarrow> Ok None | Some y \<Rightarrow> f y)"

definition val :: "u32 \<Rightarrow> basic \<Rightarrow> ev" where
  "val v b = Ok (Some (v, b))"

fun mop_val :: "mop \<Rightarrow> u32 \<Rightarrow> u32 \<Rightarrow> u32 option run" where
  "mop_val Times v d = Ok (Some (v * d))"
| "mop_val Divide v d =
     (if d = 0 then Ok None else if sint v = - (2 ^ 31) \<and> sint d = - 1 then Trap else Ok (Some (word_of_int (sint v sdiv sint d))))"
| "mop_val Modulo v d =
     (if d = 0 then Ok None else if sint v = - (2 ^ 31) \<and> sint d = - 1 then Trap else Ok (Some (word_of_int (sint v smod sint d))))"

fun aop_val :: "aop \<Rightarrow> u32 \<Rightarrow> u32 \<Rightarrow> u32" where
  "aop_val Plus v d = v + d" | "aop_val Minus v d = v - d"

fun rop_holds :: "rop \<Rightarrow> int \<Rightarrow> int \<Rightarrow> bool" where
  "rop_holds Eq x y \<longleftrightarrow> x = y" | "rop_holds Ne x y \<longleftrightarrow> x \<noteq> y" | "rop_holds Lt x y \<longleftrightarrow> x < y"
| "rop_holds Gt x y \<longleftrightarrow> x > y" | "rop_holds Le x y \<longleftrightarrow> x \<le> y" | "rop_holds Ge x y \<longleftrightarrow> x \<ge> y"

primrec ev_fac :: "fac \<Rightarrow> basic \<Rightarrow> ev" and ev_tm :: "tm \<Rightarrow> basic \<Rightarrow> ev" and ev_sm :: "sm \<Rightarrow> basic \<Rightarrow> ev" and ev_rl :: "rl \<Rightarrow> basic \<Rightarrow> ev" where
  "ev_fac (Num ds) b = val (of_nat (read_base 10 ds)) b"
| "ev_fac (Var c) b = val (ba_vars b ! var_index c) b"
| "ev_fac (Neg f) b = ev_bnd (ev_fac f b) (\<lambda>(v, b'). val (- v) b')"
| "ev_fac (Paren r) b = ev_rl r b"
| "ev_fac (Abs r) b = ev_bnd (ev_rl r b) (\<lambda>(v, b'). val (word_of_int (abs (sint v))) b')"
| "ev_fac (Rnd r) b = ev_bnd (ev_rl r b) (\<lambda>(v, b'). Ok (Some (rnd_next v b')))"
| "ev_tm (Fac f) b = ev_fac f b"
| "ev_tm (Mul m t f) b = ev_bnd (ev_tm t b) (\<lambda>(v, b1). ev_bnd (ev_fac f b1) (\<lambda>(d, b2).
     bnd (mop_val m v d) (\<lambda>x. case x of None \<Rightarrow> Ok None | Some q \<Rightarrow> val q b2)))"
| "ev_sm (Term t) b = ev_tm t b"
| "ev_sm (Add a s t) b = ev_bnd (ev_sm s b) (\<lambda>(v, b1). ev_bnd (ev_tm t b1) (\<lambda>(d, b2). val (aop_val a v d) b2))"
| "ev_rl (Sum s) b = ev_sm s b"
| "ev_rl (Rel q s t) b = ev_bnd (ev_sm s b) (\<lambda>(v, b1). ev_bnd (ev_sm t b1) (\<lambda>(u, b2).
     val (if rop_holds q (sint v) (sint u) then 1 else 0) b2))"

text \<open>A parse that agrees with an evaluation: its value is handed on to \<open>k\<close>, a division by zero sets the
  error flag (or a later divide error ends the parse).\<close>

definition bad :: "parsed run \<Rightarrow> bool" where
  "bad r \<longleftrightarrow> r = Trap \<or> (\<exists>v b s. r = Ok (v, b, s) \<and> ba_err b)"

definition agrees :: "ev \<Rightarrow> (u32 \<Rightarrow> basic \<Rightarrow> parsed run) \<Rightarrow> parsed run \<Rightarrow> bool" where
  "agrees e k r = (case e of
     Ok (Some (v, b)) \<Rightarrow> r = k v b | Ok None \<Rightarrow> bad r | Trap \<Rightarrow> r = Trap | _ \<Rightarrow> False)"

lemma badI: "settled r \<Longrightarrow> left b n r \<Longrightarrow> ba_err b \<Longrightarrow> bad r"
  by (cases r) (auto simp: bad_def same_def)

lemma bad_bnd: "bad r \<Longrightarrow> (\<And>v b s. r = Ok (v, b, s) \<Longrightarrow> ba_err b \<Longrightarrow> bad (f (v, b, s))) \<Longrightarrow> bad (bnd r f)"
  by (auto simp: bad_def)

lemma agrees_val [simp]: "agrees (val v b) k r \<longleftrightarrow> r = k v b"
  by (simp add: agrees_def val_def)

text \<open>Going on from a parse that agrees: the evaluation goes on in step, and an error stays one.\<close>

lemma agrees_bnd:
  assumes "agrees e (\<lambda>v b. Ok (v, b, s)) r"
    and "\<And>v b. e = Ok (Some (v, b)) \<Longrightarrow> agrees (f (v, b)) k (g (v, b, s))"
    and "\<And>v b s. r = Ok (v, b, s) \<Longrightarrow> ba_err b \<Longrightarrow> bad (g (v, b, s))"
  shows "agrees (ev_bnd e f) k (bnd r g)"
proof (cases e)
  case (Ok x)
  then show ?thesis
  proof (cases x)
    case None
    then show ?thesis using Ok assms(1,3) bad_bnd [of r g] by (simp add: agrees_def ev_bnd_def)
  next
    case (Some y)
    then show ?thesis using Ok assms(1,2) by (cases y) (auto simp: agrees_def ev_bnd_def)
  qed
qed (use assms(1) in \<open>auto simp: agrees_def ev_bnd_def\<close>)

lemma agrees_step:
  assumes "agrees e K r" and "\<And>v b. e = Ok (Some (v, b)) \<Longrightarrow> agrees (f (v, b)) k (K v b)"
  shows "agrees (ev_bnd e f) k r"
proof (cases e)
  case (Ok x)
  then show ?thesis using assms by (cases x) (auto simp: agrees_def ev_bnd_def)
qed (use assms(1) in \<open>auto simp: agrees_def ev_bnd_def\<close>)

section \<open>Parts settle\<close>

interpretation whole: inner expr L for L
  by unfold_locales (simp_all add: expr_settled expr_left)

lemma part_settled:
  assumes "length (ba_vars b) = 26"
  shows "settled (factor b s)" "settled (tloop v b s)" "settled (trm b s)" "settled (sloop v b s)" "settled (smm b s)"
  unfolding factor_def tloop_def trm_def sloop_def smm_def
  using assms by (auto intro!: whole.factor_settled [where L = "length s"] whole.term_loop_settled [where L = "length s"]
      whole.term_settled [where L = "length s"] whole.sum_loop_settled [where L = "length s"] whole.sum_settled [where L = "length s"]
      simp del: bas_factor.simps term_loop.simps sum_loop.simps)

lemma part_left:
  "left b (length s) (factor b s)" "left b (length s) (tloop v b s)" "left b (length s) (trm b s)"
  "left b (length s) (sloop v b s)" "left b (length s) (smm b s)"
  unfolding factor_def tloop_def trm_def sloop_def smm_def
  by (rule factor_left term_loop_left term_left sum_loop_left sum_left, rule expr_left)+

lemma bad_fail [simp]: "bad (fail b s)"
  by (simp add: bad_def fail_def)

lemma bad_Ok [simp]: "bad (Ok (v, b, s)) \<longleftrightarrow> ba_err b"
  by (simp add: bad_def)

lemma part_bad:
  assumes "length (ba_vars b) = 26" "ba_err b"
  shows "bad (tloop v b s)" "bad (sloop v b s)" "bad (smm b s)"
  using badI [OF part_settled(2) part_left(2)] badI [OF part_settled(4) part_left(4)] badI [OF part_settled(5) part_left(5)] assms
  by simp_all

section \<open>Heads of the grammar's texts\<close>

definition spaces :: "string \<Rightarrow> bool" where "spaces sp \<longleftrightarrow> list_all is_space sp"

definition stops :: "string \<Rightarrow> bool" where "stops s \<longleftrightarrow> \<not> is_alpha (peek s) \<and> \<not> is_dec (peek s)"

lemma skip_spaces [simp]: "spaces sp \<Longrightarrow> skip_ws (sp @ s) = skip_ws s"
  by (induction sp) (auto simp: spaces_def skip_ws_def)

lemma peek_Cons [simp]: "peek (c # s) = c" and peek_Nil [simp]: "peek [] = NUL"
  by (simp_all add: peek_def)

lemma space_not: "is_space c \<Longrightarrow> \<not> is_alpha c \<and> \<not> is_dec c"
  by (auto simp: is_space_def is_alpha_def up_def is_dec_def)

lemma stops_spaces: "spaces sp \<Longrightarrow> \<not> is_alpha c \<Longrightarrow> \<not> is_dec c \<Longrightarrow> stops (sp @ c # s)"
  by (cases sp) (auto simp: spaces_def stops_def space_not)

lemma alpha_not: "is_alpha c \<Longrightarrow> \<not> is_space c \<and> \<not> is_dec c \<and> c \<noteq> CHR ''-'' \<and> c \<noteq> CHR ''(''"
  by (auto simp: is_space_def is_alpha_def up_def is_dec_def)

lemma dec_not: "is_dec c \<Longrightarrow> \<not> is_space c \<and> c \<noteq> CHR ''-'' \<and> c \<noteq> CHR ''(''"
  by (auto simp: is_space_def is_dec_def)

lemma number_digits:
  "list_all is_dec ds \<Longrightarrow> \<not> is_dec (peek rest) \<Longrightarrow>
     number (of_nat n) (ds @ rest) = (of_nat (foldl (\<lambda>a c. a * 10 + digit_value c) n ds), rest)"
proof (induction ds arbitrary: n)
  case Nil
  then show ?case by (cases rest) auto
next
  case (Cons d ds)
  have "(of_nat n * 10 + of_nat (of_char d - 48) :: u32) = of_nat (n * 10 + digit_value d)"
    using Cons.prems by (simp add: digit_value_def is_dec_def Let_def)
  then show ?case using Cons.IH [of "n * 10 + digit_value d"] Cons.prems by simp
qed

lemma head_num:
  assumes "ds \<noteq> []" "list_all is_dec ds" "stops rest"
  shows "factor_head (skip_ws (ds @ rest)) = HNum (of_nat (read_base 10 ds)) rest"
proof -
  obtain d t where ds: "ds = d # t" using assms by (cases ds) auto
  have "skip_ws (ds @ rest) = ds @ rest" using assms ds dec_not by (simp add: skip_ws_def)
  then show ?thesis
    using assms ds dec_not [of d] number_digits [of ds rest 0]
    by (simp add: factor_head_def stops_def read_base_def)
qed

lemma kw_short:
  assumes "is_alpha c" "\<not> is_alpha (peek rest)" "65 \<le> (of_char w2 :: nat)" "(of_char w2 :: nat) \<le> 90"
  shows "kw (c # rest) (w1 # w2 # ws) = None"
proof -
  have "skip_ws (c # rest) = c # rest" using alpha_not [OF assms(1)] by (simp add: skip_ws_def)
  moreover have "kw_match rest (w2 # ws) = None" using assms(2-4) by (cases rest) (auto simp: is_alpha_def)
  ultimately show ?thesis by (simp add: kw_def)
qed

lemma head_letter:
  assumes "is_alpha c" "stops rest"
  shows "factor_head (skip_ws (c # rest)) = HVar (var_index c) rest"
proof -
  have "skip_ws (c # rest) = c # rest" using alpha_not [OF assms(1)] by (simp add: skip_ws_def)
  moreover have "kw (c # rest) ''RND'' = None" "kw (c # rest) ''ABS'' = None"
    using assms by (auto intro!: kw_short simp: stops_def)
  ultimately show ?thesis using assms alpha_not [OF assms(1)] by (simp add: factor_head_def is_var_def stops_def)
qed

lemma head_sign: "factor_head (skip_ws (CHR ''-'' # s)) = HNeg s"
  "factor_head (skip_ws (CHR ''('' # s)) = HCall Pair s"
  by (simp_all add: factor_head_def skip_ws_def is_space_def)

lemma head_word:
  assumes "spaces sp"
  shows "factor_head (skip_ws (''ABS'' @ sp @ CHR ''('' # s)) = HCall (\<lambda>v b. (s_abs v, b)) s"
    and "factor_head (skip_ws (''RND'' @ sp @ CHR ''('' # s)) = HCall rnd_next s"
proof -
  have n: "\<not> is_alpha (peek (sp @ CHR ''('' # s))"
    using stops_spaces [OF assms, of "CHR ''(''" s] by (simp add: stops_def is_alpha_def up_def is_dec_def)
  have q: "skip_ws (sp @ CHR ''('' # s) = CHR ''('' # s"
    using skip_spaces [OF assms, of "CHR ''('' # s"] by (simp add: skip_ws_def is_space_def)
  show "factor_head (skip_ws (''ABS'' @ sp @ CHR ''('' # s)) = HCall (\<lambda>v b. (s_abs v, b)) s"
    "factor_head (skip_ws (''RND'' @ sp @ CHR ''('' # s)) = HCall rnd_next s"
    using n q by (simp_all add: factor_head_def skip_ws_def [of "_ # _"] is_space_def is_dec_def kw_def up_def call_head_def)
qed

section \<open>Parsing is evaluation\<close>

lemma same_ev_bnd:
  assumes "ev_bnd e f = Ok (Some (v, b'))" and "\<And>v c. e = Ok (Some (v, c)) \<Longrightarrow> same b c"
    and "\<And>u c v d. e = Ok (Some (u, c)) \<Longrightarrow> f (u, c) = Ok (Some (v, d)) \<Longrightarrow> same c d"
  shows "same b b'"
proof -
  obtain u c where e: "e = Ok (Some (u, c))" "f (u, c) = Ok (Some (v, b'))"
    using assms(1) by (cases e) (auto simp: ev_bnd_def split: option.splits)
  show ?thesis using same_trans [OF assms(2) [OF e(1)] assms(3) [OF e]] .
qed

lemma ev_same:
  "ev_fac f b = Ok (Some (v, b')) \<Longrightarrow> same b b'" "ev_tm t b = Ok (Some (v, b')) \<Longrightarrow> same b b'"
  "ev_sm s b = Ok (Some (v, b')) \<Longrightarrow> same b b'" "ev_rl r b = Ok (Some (v, b')) \<Longrightarrow> same b b'"
proof (induction f and t and s and r arbitrary: b v b' and b v b' and b v b' and b v b')
  case (Mul m t f)
  have k: "same c d" if "ev_bnd (ev_fac f c) (\<lambda>(d, b2). bnd (mop_val m u d) (\<lambda>x. case x of None \<Rightarrow> Ok None | Some q \<Rightarrow> val q b2)) = Ok (Some (w, d))"
    for u c w d
  proof (rule same_ev_bnd [OF that])
    fix d' b2 w' b3 assume "(case (d', b2) of (d, b2) \<Rightarrow> bnd (mop_val m u d) (\<lambda>x. case x of None \<Rightarrow> Ok None | Some q \<Rightarrow> val q b2)) = Ok (Some (w', b3))"
    then show "same b2 b3" by (cases "mop_val m u d'") (auto simp: val_def split: option.splits)
  qed (use Mul.IH(2) in blast)
  show ?case by (rule same_ev_bnd [OF Mul.prems [simplified]]) (use Mul.IH(1) k in auto)
qed (auto simp: val_def rnd_next_same elim!: same_ev_bnd)

lemma agrees_cont:
  assumes "agrees e (\<lambda>v b. Ok (v, b, s)) r" and "\<And>v b s. r = Ok (v, b, s) \<Longrightarrow> ba_err b \<Longrightarrow> bad (g (v, b, s))"
  shows "agrees e (\<lambda>v b. g (v, b, s)) (bnd r g)"
proof (cases e)
  case (Ok x)
  then show ?thesis using assms bad_bnd [of r g] by (cases x) (auto simp: agrees_def)
qed (use assms(1) in \<open>auto simp: agrees_def\<close>)

lemma ev_bnd_id: "ev_bnd e (\<lambda>(v, b). Ok (Some (v, b))) = e"
  by (cases e) (auto simp: ev_bnd_def split: option.splits)

lemma agrees_close:
  assumes "agrees e (\<lambda>v b. Ok (v, b, sp @ CHR '')'' # rest)) r" and "spaces sp"
    and "\<And>v b v' b'. f v b = (v', b') \<Longrightarrow> same b b'"
  shows "agrees (ev_bnd e (\<lambda>(v, b). Ok (Some (f v b)))) (\<lambda>v b. Ok (v, b, rest)) (close r f)"
  unfolding close_def
proof (rule agrees_bnd [OF assms(1)])
  have sk: "skip_ws (sp @ CHR '')'' # rest) = CHR '')'' # rest"
    using skip_spaces [OF assms(2), of "CHR '')'' # rest"] by (simp add: skip_ws_def is_space_def)
  show "agrees (case (v, b) of (v, b) \<Rightarrow> Ok (Some (f v b))) (\<lambda>v b. Ok (v, b, rest))
      (case (v, b, sp @ CHR '')'' # rest) of (v, b, s) \<Rightarrow>
         if peek (skip_ws s) \<noteq> CHR '')'' then fail b s else case f v b of (v', b') \<Rightarrow> Ok (v', b', tl (skip_ws s)))" for v b
    by (cases "f v b") (simp add: sk agrees_def)
  show "bad (case (v, b, s) of (v, b, s) \<Rightarrow>
         if peek (skip_ws s) \<noteq> CHR '')'' then fail b s else case f v b of (v', b') \<Rightarrow> Ok (v', b', tl (skip_ws s)))"
    if "ba_err b" for v b s
    using assms(3) [of v b] that by (cases "f v b") (auto simp: same_def)
qed

text \<open>What may follow a whole expression.\<close>

definition ends :: "string \<Rightarrow> bool" where
  "ends s \<longleftrightarrow> stops s \<and> mul_op (peek (skip_ws s)) = None \<and> add_op (peek (skip_ws s)) = None \<and> rel_op (skip_ws s) = None"

lemma ends_close: "spaces sp \<Longrightarrow> ends (sp @ CHR '')'' # rest)"
  using stops_spaces [of sp "CHR '')''" rest]
  by (simp add: ends_def) (simp add: skip_ws_def is_space_def is_alpha_def up_def is_dec_def mul_op_def add_op_def rel_op_def)

lemma ends_Nil [simp]: "ends []"
  by (simp add: ends_def stops_def skip_ws_def mul_op_def add_op_def rel_op_def)

lemma mul_op_char: "mul_op (mop_char m) = Some (mop_val m)"
  by (cases m) (auto simp: mul_op_def s_div_def s_mod_def fun_eq_iff)

lemma add_op_char: "add_op (aop_char a) = Some (aop_val a)"
  by (cases a) (auto simp: add_op_def fun_eq_iff)

lemma op_text:
  assumes "spaces sp"
  shows "skip_ws (sp @ mop_char m # s) = mop_char m # s" "stops (sp @ mop_char m # s)"
    "skip_ws (sp @ aop_char a # s) = aop_char a # s" "stops (sp @ aop_char a # s)" "mul_op (aop_char a) = None"
    "skip_ws (sp @ rop_text q @ s) = rop_text q @ s" "stops (sp @ rop_text q @ s)"
    "mul_op (peek (rop_text q @ s)) = None" "add_op (peek (rop_text q @ s)) = None"
  using assms stops_spaces [OF assms]
  by (cases m; cases a; cases q; simp add: skip_ws_def [of "_ # _"] is_space_def is_alpha_def up_def is_dec_def mul_op_def add_op_def)+

lemma show_first:
  "wf_fac f \<Longrightarrow> spaces sp \<Longrightarrow> peek (show_fac sp f @ z) \<noteq> CHR ''='' \<and> peek (show_fac sp f @ z) \<noteq> CHR ''>''"
  "wf_tm t \<Longrightarrow> spaces sp \<Longrightarrow> peek (show_tm sp t @ z) \<noteq> CHR ''='' \<and> peek (show_tm sp t @ z) \<noteq> CHR ''>''"
  "wf_sm s \<Longrightarrow> spaces sp \<Longrightarrow> peek (show_sm sp s @ z) \<noteq> CHR ''='' \<and> peek (show_sm sp s @ z) \<noteq> CHR ''>''"
  "wf_rl r \<Longrightarrow> True"
proof (induction f and t and s and r arbitrary: z and z and z)
  case (Num ds)
  then show ?case by (cases sp; cases ds) (auto simp: spaces_def is_space_def is_dec_def)
next
  case (Var c)
  then show ?case by (cases sp) (auto simp: spaces_def is_space_def is_alpha_def up_def)
qed (cases sp; auto simp: spaces_def is_space_def)+

text \<open>The cases of the induction, one for each production.\<close>

abbreviation vars_ok :: "basic \<Rightarrow> bool" where "vars_ok b \<equiv> length (ba_vars b) = 26"

lemma vars_ok_same: "same b c \<Longrightarrow> vars_ok b \<Longrightarrow> vars_ok c"
  by (simp add: same_vars)

lemma parse_call:
  assumes "agrees (ev_rl r b) (\<lambda>v b'. Ok (v, b', sp @ CHR '')'' # rest)) (expr b (show_rl sp r @ sp @ CHR '')'' # rest))"
    and "spaces sp" and h: "factor_head (skip_ws s) = HCall f (show_rl sp r @ sp @ CHR '')'' # rest)"
  shows "agrees (ev_bnd (ev_rl r b) (\<lambda>(v, b). Ok (Some (f v b)))) (\<lambda>v b. Ok (v, b, rest)) (factor b s)"
  using agrees_close [OF assms(1,2) head_call_same [OF h]] h by (simp add: factor_unfold [of b s])

lemma parse_fac_tm:
  assumes "agrees (ev_fac f b) (\<lambda>v b'. Ok (v, b', rest)) (factor b (show_fac sp f @ rest))" "vars_ok b"
  shows "agrees (ev_fac f b) (\<lambda>v b'. tloop v b' rest) (trm b (show_fac sp f @ rest))"
proof -
  have "bad (tloop v c s)" if "factor b (show_fac sp f @ rest) = Ok (v, c, s)" "ba_err c" for v c s
    using part_left(1) [of b "show_fac sp f @ rest"] that assms(2) by (intro part_bad) (auto simp: same_vars)
  then show ?thesis using agrees_cont [OF assms(1), where g = "\<lambda>(v, b', s'). tloop v b' s'"] by (simp add: trm_unfold)
qed

lemma parse_mul:
  assumes t: "agrees (ev_tm t b) (\<lambda>v b'. tloop v b' (sp @ mop_char m # show_fac sp f @ rest)) (trm b s)"
    and f: "\<And>c. vars_ok c \<Longrightarrow> agrees (ev_fac f c) (\<lambda>v b'. Ok (v, b', rest)) (factor c (show_fac sp f @ rest))"
    and sp: "spaces sp" and v: "vars_ok b"
  shows "agrees (ev_tm (Mul m t f) b) (\<lambda>v b'. tloop v b' rest) (trm b s)"
  unfolding ev_tm.simps
proof (rule agrees_step [OF t], unfold prod.case)
  fix v c assume e: "ev_tm t b = Ok (Some (v, c))"
  then have c: "vars_ok c" using ev_same(2) vars_ok_same v by blast
  let ?g = "\<lambda>(d, b', s'). bnd (mop_val m v d) (\<lambda>x. case x of None \<Rightarrow> fail b' s' | Some q \<Rightarrow> tloop q b' s')"
  have bad: "bad (?g (d, b', s'))" if "factor c (show_fac sp f @ rest) = Ok (d, b', s')" "ba_err b'" for d b' s'
  proof -
    have "vars_ok b'" using part_left(1) [of c "show_fac sp f @ rest"] that c by (auto simp: same_vars)
    then show ?thesis
      using that(2) part_bad mul_op_settled [OF mul_op_char, of m v d]
      by (cases "mop_val m v d") (auto simp: bad_def [of Trap] split: option.splits)
  qed
  have "tloop v c (sp @ mop_char m # show_fac sp f @ rest) = bnd (factor c (show_fac sp f @ rest)) ?g"
    by (subst tloop_unfold) (simp add: op_text [OF sp] mul_op_char)
  moreover have "agrees (bnd (mop_val m v d) (\<lambda>x. case x of None \<Rightarrow> Ok None | Some q \<Rightarrow> val q b2)) (\<lambda>v b'. tloop v b' rest) (?g (d, b2, rest))" for d b2
    using mul_op_settled [OF mul_op_char, of m v d] by (cases "mop_val m v d") (auto simp: agrees_def val_def split: option.splits)
  ultimately show "agrees (ev_bnd (ev_fac f c) (\<lambda>(d, b2). bnd (mop_val m v d) (\<lambda>x. case x of None \<Rightarrow> Ok None | Some q \<Rightarrow> val q b2)))
      (\<lambda>v b'. tloop v b' rest) (tloop v c (sp @ mop_char m # show_fac sp f @ rest))"
    using agrees_bnd [OF f [OF c], where g = ?g and k = "\<lambda>v b'. tloop v b' rest"] bad by simp
qed

text \<open>A parse whose loop has nothing left to do.\<close>

lemma agrees_done: "agrees e K r \<Longrightarrow> (\<And>v b. K v b = k v b) \<Longrightarrow> agrees e k r"
  by (auto simp: agrees_def split: run.splits option.splits)

lemma parse_tm_sm:
  assumes t: "agrees (ev_tm t b) (\<lambda>v b'. tloop v b' rest) (trm b s)" and m: "mul_op (peek (skip_ws rest)) = None" and v: "vars_ok b"
  shows "agrees (ev_tm t b) (\<lambda>v b'. sloop v b' rest) (smm b s)"
proof -
  have "agrees (ev_tm t b) (\<lambda>v b'. Ok (v, b', rest)) (trm b s)"
    by (rule agrees_done [OF t]) (simp add: tloop_unfold m)
  moreover have "bad (sloop v c z)" if "trm b s = Ok (v, c, z)" "ba_err c" for v c z
    using part_left(3) [of b s] that v by (intro part_bad) (auto simp: same_vars)
  ultimately show ?thesis using agrees_cont [where g = "\<lambda>(v, b', s'). sloop v b' s'"] by (fastforce simp: smm_unfold)
qed

lemma parse_add:
  assumes s: "agrees (ev_sm s b) (\<lambda>v b'. sloop v b' (sp @ aop_char a # show_tm sp t @ rest)) (smm b z)"
    and t: "\<And>c. vars_ok c \<Longrightarrow> agrees (ev_tm t c) (\<lambda>v b'. tloop v b' rest) (trm c (show_tm sp t @ rest))"
    and m: "mul_op (peek (skip_ws rest)) = None" and sp: "spaces sp" and v: "vars_ok b"
  shows "agrees (ev_sm (Add a s t) b) (\<lambda>v b'. sloop v b' rest) (smm b z)"
  unfolding ev_sm.simps
proof (rule agrees_step [OF s], unfold prod.case)
  fix v c assume "ev_sm s b = Ok (Some (v, c))"
  then have c: "vars_ok c" using ev_same(3) vars_ok_same v by blast
  let ?g = "\<lambda>(d, b', s'). sloop (aop_val a v d) b' s'"
  have "agrees (ev_tm t c) (\<lambda>v b'. Ok (v, b', rest)) (trm c (show_tm sp t @ rest))"
    by (rule agrees_done [OF t [OF c]]) (simp add: tloop_unfold m)
  moreover have "bad (?g (d, b', s'))" if "trm c (show_tm sp t @ rest) = Ok (d, b', s')" "ba_err b'" for d b' s'
    using part_left(3) [of c "show_tm sp t @ rest"] that c by (auto intro!: part_bad simp: same_vars)
  moreover have "sloop v c (sp @ aop_char a # show_tm sp t @ rest) = bnd (trm c (show_tm sp t @ rest)) ?g"
    by (subst sloop_unfold) (simp add: op_text [OF sp] add_op_char)
  ultimately show "agrees (ev_bnd (ev_tm t c) (\<lambda>(d, b2). val (aop_val a v d) b2)) (\<lambda>v b'. sloop v b' rest)
      (sloop v c (sp @ aop_char a # show_tm sp t @ rest))"
    using agrees_bnd [where g = ?g and k = "\<lambda>v b'. sloop v b' rest"] by fastforce
qed

lemma rel_op_text:
  assumes "peek s \<noteq> CHR ''=''" "peek s \<noteq> CHR ''>''"
  shows "rel_op (rop_text q @ s) = Some (length (rop_text q), rop_holds q)"
  using assms by (cases q) (auto simp: rel_op_def fun_eq_iff)

definition rel_cont :: "parsed \<Rightarrow> parsed run" where
  "rel_cont = (\<lambda>(v, b', s'). case rel_op (skip_ws s') of
       None \<Rightarrow> Ok (v, b', s')
     | Some (w, f) \<Rightarrow> bnd (smm b' (drop w (skip_ws s'))) (\<lambda>(u, b'', s''). Ok (truth (f (sint v) (sint u)), b'', s'')))"

lemma expr_cont: "expr b s = bnd (smm b s) rel_cont"
  unfolding rel_cont_def by (rule expr_unfold)

lemma rel_cont_bad: "vars_ok b \<Longrightarrow> ba_err b \<Longrightarrow> bad (rel_cont (v, b, s))"
  using part_bad(3) [of b] by (auto simp: rel_cont_def intro!: bad_bnd split: option.splits)

lemma smm_vars: "vars_ok b \<Longrightarrow> smm b z = Ok (v, c, s) \<Longrightarrow> vars_ok c"
  using part_left(5) [of b z] by (auto simp: same_vars)

lemma parse_sm:
  assumes s: "agrees (ev_sm s b) (\<lambda>v b'. sloop v b' rest) (smm b z)" and a: "add_op (peek (skip_ws rest)) = None" and v: "vars_ok b"
  shows "agrees (ev_sm s b) (\<lambda>v b'. rel_cont (v, b', rest)) (expr b z)"
proof -
  have "agrees (ev_sm s b) (\<lambda>v b'. Ok (v, b', rest)) (smm b z)"
    by (rule agrees_done [OF s]) (simp add: sloop_unfold a)
  then show ?thesis unfolding expr_cont by (rule agrees_cont) (use rel_cont_bad smm_vars [OF v] in blast)
qed

lemma parse_rel:
  assumes s: "agrees (ev_sm s b) (\<lambda>v b'. sloop v b' (sp @ rop_text q @ show_sm sp t @ rest)) (smm b z)"
    and t: "\<And>c. vars_ok c \<Longrightarrow> agrees (ev_sm t c) (\<lambda>v b'. sloop v b' rest) (smm c (show_sm sp t @ rest))"
    and e: "ends rest" and sp: "spaces sp" and v: "vars_ok b" and w: "wf_sm t"
  shows "agrees (ev_rl (Rel q s t) b) (\<lambda>v b'. Ok (v, b', rest)) (expr b z)"
  unfolding ev_rl.simps
proof (rule agrees_step)
  show "agrees (ev_sm s b) (\<lambda>v b'. rel_cont (v, b', sp @ rop_text q @ show_sm sp t @ rest)) (expr b z)"
    by (rule parse_sm [OF s _ v]) (simp add: op_text [OF sp])
  fix u c assume "ev_sm s b = Ok (Some (u, c))"
  then have c: "vars_ok c" using ev_same(3) vars_ok_same v by blast
  have "agrees (ev_sm t c) (\<lambda>v b'. Ok (v, b', rest)) (smm c (show_sm sp t @ rest))"
    by (rule agrees_done [OF t [OF c]]) (use e in \<open>simp add: sloop_unfold ends_def\<close>)
  moreover have "rel_cont (u, c, sp @ rop_text q @ show_sm sp t @ rest) =
      bnd (smm c (show_sm sp t @ rest)) (\<lambda>(x, b'', s''). Ok (truth (rop_holds q (sint u) (sint x)), b'', s''))"
    using rel_op_text [of "show_sm sp t @ rest" q] show_first(3) [OF w sp, of rest] by (simp add: rel_cont_def op_text [OF sp])
  ultimately show "agrees (case (u, c) of (v, b1) \<Rightarrow> ev_bnd (ev_sm t b1) (\<lambda>(x, b2). val (if rop_holds q (sint v) (sint x) then 1 else 0) b2))
      (\<lambda>v b'. Ok (v, b', rest)) (rel_cont (u, c, sp @ rop_text q @ show_sm sp t @ rest))"
    by (auto intro!: agrees_bnd simp: truth_def)
qed

lemma abs_word: "s_abs v = word_of_int (abs (sint v))"
  by (simp add: s_abs_def)

lemma parses:
  assumes "spaces sp"
  shows "wf_fac f \<Longrightarrow> vars_ok b \<Longrightarrow> stops rest \<Longrightarrow> agrees (ev_fac f b) (\<lambda>v b'. Ok (v, b', rest)) (factor b (show_fac sp f @ rest))"
    and "wf_tm t \<Longrightarrow> vars_ok b \<Longrightarrow> stops rest \<Longrightarrow> agrees (ev_tm t b) (\<lambda>v b'. tloop v b' rest) (trm b (show_tm sp t @ rest))"
    and "wf_sm s \<Longrightarrow> vars_ok b \<Longrightarrow> stops rest \<Longrightarrow> mul_op (peek (skip_ws rest)) = None \<Longrightarrow>
      agrees (ev_sm s b) (\<lambda>v b'. sloop v b' rest) (smm b (show_sm sp s @ rest))"
    and "wf_rl r \<Longrightarrow> vars_ok b \<Longrightarrow> ends rest \<Longrightarrow> agrees (ev_rl r b) (\<lambda>v b'. Ok (v, b', rest)) (expr b (show_rl sp r @ rest))"
proof (induction f and t and s and r arbitrary: b rest and b rest and b rest and b rest)
  case (Num ds)
  then show ?case using assms head_num [of ds rest] by (simp add: factor_unfold)
next
  case (Var c)
  have "var_index c < 26" using Var by (auto simp: var_index_def is_alpha_def)
  then show ?case using Var assms head_letter [of c rest] by (simp add: factor_unfold get_var_def)
next
  case (Neg f)
  have "agrees (ev_fac f b) (\<lambda>v b'. Ok (v, b', rest)) (factor b (show_fac sp f @ rest))" using Neg by simp
  then show ?case using assms head_sign(1) [of "show_fac sp f @ rest"] by (simp add: factor_unfold [of b "sp @ _"]) (auto intro!: agrees_bnd)
next
  case (Paren r)
  have "agrees (ev_rl r b) (\<lambda>v b'. Ok (v, b', sp @ CHR '')'' # rest)) (expr b (show_rl sp r @ sp @ CHR '')'' # rest))"
    using Paren assms by (simp add: ends_close)
  from parse_call [OF this assms, of _ Pair] show ?case using assms head_sign(2) by (simp add: ev_bnd_id)
next
  case (Abs r)
  have "agrees (ev_rl r b) (\<lambda>v b'. Ok (v, b', sp @ CHR '')'' # rest)) (expr b (show_rl sp r @ sp @ CHR '')'' # rest))"
    using Abs assms by (simp add: ends_close)
  from parse_call [OF this assms, of _ "\<lambda>v b. (s_abs v, b)"] show ?case
    using assms head_word(1) [OF assms] by (simp add: val_def abs_word)
next
  case (Rnd r)
  have "agrees (ev_rl r b) (\<lambda>v b'. Ok (v, b', sp @ CHR '')'' # rest)) (expr b (show_rl sp r @ sp @ CHR '')'' # rest))"
    using Rnd assms by (simp add: ends_close)
  from parse_call [OF this assms, of _ rnd_next] show ?case using assms head_word(2) [OF assms] by simp
next
  case (Fac f)
  then show ?case using parse_fac_tm [of f b rest sp] by simp
next
  case (Mul m t f)
  then show ?case using parse_mul [of t b sp m f rest] assms op_text(2) [OF assms] by simp
next
  case (Term t)
  then show ?case using parse_tm_sm [of t b rest] by simp
next
  case (Add a s t)
  then show ?case using parse_add [of s b sp a t rest] assms op_text(3-5) [OF assms] by simp
next
  case (Sum s)
  then have "agrees (ev_sm s b) (\<lambda>v b'. rel_cont (v, b', rest)) (expr b (show_sm sp s @ rest))"
    by (intro parse_sm) (auto simp: ends_def)
  then show ?case by (auto intro: agrees_done simp: rel_cont_def \<open>ends rest\<close> [unfolded ends_def])
next
  case (Rel q s t)
  have "agrees (ev_sm s b) (\<lambda>v b'. sloop v b' (sp @ rop_text q @ show_sm sp t @ rest)) (smm b (show_sm sp s @ sp @ rop_text q @ show_sm sp t @ rest))"
    using Rel op_text(6-8) [OF assms] by simp
  then show ?case using parse_rel [of s b sp q t rest] Rel assms by (simp add: ends_def)
qed


definition demo_basic :: basic where
  "demo_basic = \<lparr>ba_prog = [], ba_vars = replicate 26 7, ba_pc = 0, ba_err = False, ba_for = [], ba_gosub = [], ba_rnd = 0,
     ba_out = [], ba_in = [], ba_stops = [], ba_ticks = 0, ba_files = (\<lambda>p. None)\<rparr>"


end
