(* ===== verification/Basic_Safe.thy ===== *)
theory Basic_Safe
  imports Basic_Stmt Basic_Grammar
begin

text \<open>
  What the Tiny-BASIC interpreter keeps: a sorted program of bounded lines, 26 variables, stacks within
  their arrays; no statement touches an array out of its bounds, and a stop request ends a run.
\<close>

section \<open>The invariant\<close>

definition text_ok :: "string \<Rightarrow> bool" where
  "text_ok t \<longleftrightarrow> t \<noteq> [] \<and> length t < BAS_TEXT_LEN \<and> NUL \<notin> set t \<and> \<not> is_space (hd t)"

definition prog_ok :: "bas_line list \<Rightarrow> bool" where
  "prog_ok ls \<longleftrightarrow> length ls \<le> BAS_MAX_LINES \<and> sorted_wrt (<) (map (\<lambda>l. sint (bl_num l)) ls) \<and> (\<forall>l \<in> set ls. text_ok (bl_text l))"

definition basic_ok :: "basic \<Rightarrow> bool" where
  "basic_ok b \<longleftrightarrow> prog_ok (ba_prog b) \<and> length (ba_vars b) = 26 \<and> length (ba_for b) \<le> BAS_STACK \<and>
     (\<forall>f \<in> set (ba_for b). fo_var f < 26) \<and> length (ba_gosub b) \<le> BAS_STACK"

lemma same_ok: "same b b' \<Longrightarrow> basic_ok b \<Longrightarrow> basic_ok b'"
  unfolding same_def basic_ok_def
  by (metis basic.select_convs(1,2,5,6) basic.surjective basic.update_convs(4,7))

lemma same_rest: "same b b' \<Longrightarrow> ba_prog b' = ba_prog b \<and> ba_stops b' = ba_stops b"
  unfolding same_def by (metis basic.select_convs(1,10) basic.surjective basic.update_convs(4,7))

lemma print_simps [simp]:
  "ba_prog (print s b) = ba_prog b" "ba_vars (print s b) = ba_vars b" "ba_for (print s b) = ba_for b" "ba_err (print s b) = ba_err b"
  "ba_gosub (print s b) = ba_gosub b" "ba_stops (print s b) = ba_stops b" "basic_ok (print s b) \<longleftrightarrow> basic_ok b" "ba_in (print s b) = ba_in b"
  by (simp_all add: print_def basic_ok_def)

text \<open>What a statement may do: return with the invariant and the program it had, wait, or raise the divide
  error; it asks at most once whether to stop, and ends when the answer is yes.\<close>

definition asked :: "code \<Rightarrow> basic \<Rightarrow> basic \<Rightarrow> bool" where
  "asked c b b' \<longleftrightarrow> ba_stops b' = ba_stops b \<or>
     ba_stops b' = tl (ba_stops b) \<and> (c = End \<or> \<not> (ba_stops b \<noteq> [] \<and> hd (ba_stops b)))"

fun stmt_ok :: "basic \<Rightarrow> stmt \<Rightarrow> bool" where
  "stmt_ok b (Ok (c, b')) \<longleftrightarrow> basic_ok b' \<and> ba_prog b' = ba_prog b \<and> asked c b b'"
| "stmt_ok b Blocked \<longleftrightarrow> True" | "stmt_ok b Trap \<longleftrightarrow> True" | "stmt_ok b Oob \<longleftrightarrow> False" | "stmt_ok b NoFuel \<longleftrightarrow> False"

lemma asked_refl [simp]: "ba_stops b' = ba_stops b \<Longrightarrow> asked c b b'"
  by (simp add: asked_def)

lemma stmt_ok_base: "stmt_ok b' r \<Longrightarrow> ba_prog b' = ba_prog b \<Longrightarrow> ba_stops b' = ba_stops b \<Longrightarrow> stmt_ok b r"
proof (cases r)
  case (Ok x)
  then show "stmt_ok b' r \<Longrightarrow> ba_prog b' = ba_prog b \<Longrightarrow> ba_stops b' = ba_stops b \<Longrightarrow> stmt_ok b r"
    by (cases x) (simp add: asked_def)
qed auto

lemma stmt_err [simp]: "basic_ok b \<Longrightarrow> stmt_ok b (err b)"
  by (simp add: err_def)

lemma expr_cases:
  assumes "basic_ok b"
  obtains "expr b s = Trap" | v b' q where "expr b s = Ok (v, b', q)" "basic_ok b'" "same b b'" "length q \<le> length s"
proof (cases "expr b s")
  case (Ok x)
  moreover obtain v b' q where "x = (v, b', q)" by (cases x)
  ultimately show thesis using that(2) expr_left [of b s] same_ok assms by auto
qed (use that expr_settled [of b s] assms in \<open>auto simp: basic_ok_def\<close>)

lemma stmt_expr:
  assumes "basic_ok b" and "\<And>v b' q. basic_ok b' \<Longrightarrow> length q \<le> length s \<Longrightarrow> stmt_ok b' (f (v, b', q))"
  shows "stmt_ok b (bnd (expr b s) f)"
  using expr_cases [OF assms(1), of s]
proof cases
  case (2 v b' q)
  then show ?thesis using assms(2) [of b' q v] same_rest stmt_ok_base [of b' "f (v, b', q)" b] by auto
qed auto

lemma set_var_ok: "basic_ok b \<Longrightarrow> i < 26 \<Longrightarrow> \<exists>b'. set_var b i v = Ok b' \<and> basic_ok b' \<and> ba_prog b' = ba_prog b \<and>
    ba_stops b' = ba_stops b \<and> ba_for b' = ba_for b"
  by (simp add: set_var_def basic_ok_def)

lemma get_var_ok: "basic_ok b \<Longrightarrow> i < 26 \<Longrightarrow> \<exists>v. get_var b i = Ok v"
  by (simp add: get_var_def basic_ok_def)

lemma var_index_lt: "is_var p \<Longrightarrow> var_index (peek p) < 26"
  by (auto simp: is_var_def var_index_def is_alpha_def)

section \<open>Statements\<close>

lemma jump_ok: "basic_ok b \<Longrightarrow> stmt_ok b (jump b n)"
  by (auto simp: jump_def basic_ok_def split: option.splits)

lemma goto_ok: "basic_ok b \<Longrightarrow> stmt_ok b (st_goto b p)"
  unfolding st_goto_def by (rule stmt_expr) (auto simp: jump_ok)

lemma gosub_ok: "basic_ok b \<Longrightarrow> stmt_ok b (st_gosub b p)"
  unfolding st_gosub_def
  by (rule stmt_expr) (auto simp: basic_ok_def BAS_STACK_def split: option.splits)

lemma return_ok: "basic_ok b \<Longrightarrow> stmt_ok b (st_return b)"
  by (auto simp: st_return_def basic_ok_def split: list.splits)

lemma let_ok: "basic_ok b \<Longrightarrow> stmt_ok b (st_let b s)"
proof -
  assume b: "basic_ok b"
  have "stmt_ok c (bnd (set_var c (var_index (peek p)) v) (\<lambda>b''. Ok (Fall, b'')))" if "basic_ok c" "is_var p" for c p v
    using set_var_ok [OF that(1) var_index_lt [OF that(2)], of v] by auto
  then show ?thesis using b by (auto simp: st_let_def Let_def intro!: stmt_expr)
qed

lemma for_push_ok: "basic_ok b \<Longrightarrow> vi < 26 \<Longrightarrow> stmt_ok b (for_push b vi start limit step)"
  using set_var_ok [of b vi start] by (auto simp: for_push_def basic_ok_def BAS_STACK_def)

lemma for_ok: "basic_ok b \<Longrightarrow> stmt_ok b (st_for b p)"
proof -
  assume b: "basic_ok b"
  have step: "stmt_ok c (bnd (for_step c s) (\<lambda>(ok, step, b3, s3). if \<not> ok \<or> skip_ws s3 \<noteq> [] then err b3 else for_push b3 vi start limit step))"
    if "basic_ok c" "vi < 26" for c s vi start limit
  proof (cases "kw s ''STEP''")
    case None
    then show ?thesis using that by (simp add: for_step_def for_push_ok)
  next
    case (Some r)
    from expr_cases [OF that(1), of r] show ?thesis
    proof cases
      case (2 st b' q)
      have "stmt_ok b' (if \<not> (\<not> ba_err b' \<and> st \<noteq> 0) \<or> skip_ws q \<noteq> [] then err b' else for_push b' vi start limit st)"
        using 2(2) that(2) by (simp add: for_push_ok)
      from stmt_ok_base [OF this, of c] show ?thesis using 2 Some same_rest [OF 2(3)] by (auto simp: for_step_def split: if_splits)
    qed (simp add: for_step_def Some)
  qed
  have limit: "stmt_ok c (case kw s ''TO'' of None \<Rightarrow> err c | Some q \<Rightarrow> bnd (expr c q) (\<lambda>(limit, b2, s2).
      if ba_err b2 then err b2 else bnd (for_step b2 s2) (\<lambda>(ok, step, b3, s3).
        if \<not> ok \<or> skip_ws s3 \<noteq> [] then err b3 else for_push b3 vi start limit step)))" if "basic_ok c" "vi < 26" for c s vi start
    using that step by (cases "kw s ''TO''") (auto intro!: stmt_expr)
  show ?thesis
    unfolding st_for_def Let_def using b var_index_lt [of "skip_ws p"] limit by (auto intro!: stmt_expr)
qed

lemma unwind_sub: "set (unwind vi fs) \<subseteq> set fs \<and> length (unwind vi fs) \<le> length fs"
  by (auto simp: unwind_def length_dropWhile_le split: option.splits dest: set_dropWhileD)

lemma next_ok:
  assumes b: "basic_ok b"
  shows "stmt_ok b (st_next b p)"
proof -
  define vi where "vi = (if is_var (skip_ws p) then Some (var_index (peek (skip_ws p))) else None)"
  show ?thesis
  proof (cases "unwind vi (ba_for b)")
    case Nil
    then show ?thesis using b by (simp add: st_next_def Let_def vi_def [symmetric]) (simp add: err_def basic_ok_def)
  next
    case (Cons f fs)
    have "set (f # fs) \<subseteq> set (ba_for b)" "length (f # fs) \<le> length (ba_for b)" using unwind_sub [of vi "ba_for b"] Cons by auto
    then have f: "fo_var f < 26" "length (f # fs) \<le> BAS_STACK" "\<forall>g \<in> set (f # fs). fo_var g < 26" using b by (auto simp: basic_ok_def)
    obtain v where v: "get_var b (fo_var f) = Ok v" using get_var_ok [OF b f(1)] by blast
    obtain b' where b': "set_var b (fo_var f) (v + fo_step f) = Ok b'" "basic_ok b'" "ba_prog b' = ba_prog b" "ba_stops b' = ba_stops b"
      using set_var_ok [OF b f(1)] by blast
    show ?thesis using Cons b v b' f
      by (simp add: st_next_def Let_def vi_def [symmetric]) (simp add: basic_ok_def)
  qed
qed

lemma read_line_cases:
  obtains "bas_read_line b cap = Blocked"
  | line out ks where "bas_read_line b cap = Ok (line, b\<lparr>ba_out := out, ba_in := ks\<rparr>)"
  using that by (cases "read_keys (ba_in b) (ba_out b) [] cap") (auto simp: bas_read_line_def)

text \<open>A line that is read fits its buffer.\<close>

lemma read_keys_fits:
  "read_keys ks out buf cap = Some (r, out', ks') \<Longrightarrow> length buf \<le> cap - 1 \<Longrightarrow> length r \<le> cap - 1"
  by (induction ks out buf cap rule: read_keys.induct) (auto split: if_splits)

lemma store_input_ok:
  assumes "basic_ok c" "i < 26" "ba_prog c = ba_prog b" "asked Fall b c"
  shows "stmt_ok b (bnd (set_var c i v) (\<lambda>b'. Ok (Fall, b')))"
  using set_var_ok [OF assms(1,2), of v] assms(3,4) by (auto simp: asked_def)

lemma input_ok:
  assumes b: "basic_ok b"
  shows "stmt_ok b (st_input b p)"
proof (cases "is_var (skip_ws p)")
  case True
  from read_line_cases [of "print ''? '' b" 32] show ?thesis
  proof cases
    case 1
    then show ?thesis using True by (simp add: st_input_def Let_def)
  next
    case (2 line out ks)
    have "basic_ok ((print ''? '' b)\<lparr>ba_out := out, ba_in := ks, ba_stops := tl (ba_stops b)\<rparr>)"
      using b by (simp add: basic_ok_def print_def)
    then show ?thesis using True 2 var_index_lt [OF True]
      by (auto simp: st_input_def Let_def task_should_stop_def asked_def intro!: store_input_ok)
  qed
next
  case False
  then show ?thesis using b by (simp add: st_input_def Let_def)
qed

lemma literal_lt: "literal s = (t, Some r) \<Longrightarrow> length r < length s"
  by (induction s arbitrary: t) (fastforce split: if_splits prod.splits)+

lemma print_item_cases:
  assumes "basic_ok b" "p \<noteq> []"
  obtains "print_item b p = Trap"
  | ok b' q where "print_item b p = Ok (ok, b', q)" "basic_ok b'" "ba_prog b' = ba_prog b" "ba_stops b' = ba_stops b" "length q \<le> length p"
proof (cases "peek p = CHR 0x22")
  case True
  obtain t r where l: "literal (tl p) = (t, r)" by (cases "literal (tl p)")
  show thesis
  proof (cases r)
    case None
    then show thesis using that(2) True l assms by (simp add: print_item_def)
  next
    case (Some q)
    then have "length q \<le> length p" using literal_lt [of "tl p" t q] l by simp
    then show thesis using that(2) True l Some assms by (simp add: print_item_def)
  qed
next
  case False
  from expr_cases [OF assms(1), of p] show thesis
  proof cases
    case 1
    then show thesis using that(1) False by (simp add: print_item_def)
  next
    case (2 v b' q)
    then show thesis using that(2) False same_rest [OF 2(3)] by (cases "ba_err b'") (auto simp: print_item_def)
  qed
qed

lemma print_items_ok: "basic_ok b \<Longrightarrow> length p < n \<Longrightarrow> stmt_ok b (print_items n newline b p)"
proof (induction n arbitrary: newline b p)
  case (Suc n)
  show ?case
  proof (cases "p = []")
    case True
    then show ?thesis using Suc by simp
  next
    case False
    from Suc.prems(1) False show ?thesis
    proof (cases rule: print_item_cases)
      case 1
      then show ?thesis using False by simp
    next
      case (2 ok b' q)
      have "length (skip_ws (tl (skip_ws q))) < n" if "peek (skip_ws q) \<noteq> NUL"
        using tl_peek [OF that] skip_ws_le [of q] skip_ws_le [of "tl (skip_ws q)"] 2(5) Suc.prems(2) by linarith
      then have R: "stmt_ok b (print_items n newline' b' (skip_ws (tl (skip_ws q))))"
        "stmt_ok b (print_items n newline' (print x b') (skip_ws (tl (skip_ws q))))" if "peek (skip_ws q) \<noteq> NUL" for newline' x
        using 2 that stmt_ok_base [OF Suc.IH] by simp_all
      show ?thesis using False 2 R by (auto simp: Let_def err_def NUL_def)
    qed
  qed
qed simp

lemma print_ok: "basic_ok b \<Longrightarrow> stmt_ok b (st_print b p)"
  using skip_ws_le [of p] by (auto simp: st_print_def intro!: print_items_ok simp del: print_items.simps)

lemma simple_ok: "basic_ok b \<Longrightarrow> stmt_ok b (exec_simple b s)"
  by (simp add: exec_simple_def print_ok input_ok goto_ok gosub_ok return_ok for_ok next_ok let_ok split: option.splits)

lemma if_then_ok:
  assumes "basic_ok b"
  shows "stmt_ok b (bnd (bnd (expr b q) (\<lambda>(n, b'', r). if ba_err b'' then Ok (Inl (Err, b'')) else bnd (jump b'' n) (\<lambda>x. Ok (Inl x))))
    (\<lambda>x. case x of Inl r \<Rightarrow> Ok r | Inr (b', q) \<Rightarrow> k b' q))"
  using expr_cases [OF assms, of q]
proof cases
  case (2 n b'' r)
  then show ?thesis using same_rest [OF 2(3)] stmt_ok_base [OF jump_ok [OF 2(2), of n], of b]
    by (cases "goto_idx b'' n") (simp_all add: jump_def err_def)
qed simp

lemma if_ok:
  assumes b: "basic_ok b" and k: "\<And>b' q. basic_ok b' \<Longrightarrow> length q \<le> length p \<Longrightarrow> stmt_ok b' (k b' q)"
  shows "stmt_ok b (bnd (st_if b p) (\<lambda>x. case x of Inl r \<Rightarrow> Ok r | Inr (b', q) \<Rightarrow> k b' q))"
  using expr_cases [OF b, of p]
proof cases
  case (2 v b' r)
  note S = same_rest [OF 2(3)]
  show ?thesis
  proof (cases "ba_err b' \<or> kw r ''THEN'' = None \<or> v = 0")
    case True
    then have "st_if b p = Ok (Inl (Err, b')) \<or> st_if b p = Ok (Inl (Fall, b'))"
      using 2(1) by (auto simp: st_if_def split: option.splits)
    then show ?thesis using 2 S by auto
  next
    case False
    then obtain q where q: "kw r ''THEN'' = Some q" "\<not> ba_err b'" "v \<noteq> 0" by auto
    have l: "length (skip_ws q) \<le> length p" using kw_le [OF q(1)] skip_ws_le [of q] 2(4) by simp
    show ?thesis
      using stmt_ok_base [OF k [OF 2(2) l], of b] stmt_ok_base [OF if_then_ok [OF 2(2), of "skip_ws q" k], of b] q S 2(1)
      by (cases "is_dec (peek (skip_ws q))") (simp_all add: st_if_def)
  qed
qed (simp add: st_if_def)

lemma exec_ok: "basic_ok b \<Longrightarrow> length s < n \<Longrightarrow> stmt_ok b (exec_loop n b s)"
proof (induction n arbitrary: b s)
  case (Suc n)
  let ?b = "b\<lparr>ba_err := False\<rparr>"
  have b: "basic_ok ?b" using Suc by (simp add: basic_ok_def)
  have base: "stmt_ok b r" if "stmt_ok ?b r" for r using that by (rule stmt_ok_base) simp_all
  show ?case
  proof (cases "kw s ''IF''")
    case None
    then show ?thesis using base [OF simple_ok [OF b, of s]] b by (simp add: Let_def)
  next
    case (Some p)
    have p: "length p < n" using kw_le [OF Some] Suc.prems(2) by simp
    show ?thesis using base [OF if_ok [OF b, of p "exec_loop n"]] Suc.IH p Some b by (simp add: Let_def)
  qed
qed simp

lemma exec_stmt_ok: "basic_ok b \<Longrightarrow> stmt_ok b (exec_stmt b s)"
  unfolding exec_stmt_def by (rule exec_ok) auto

end
