(* ===== verification/Basic_Prog.thy ===== *)
theory Basic_Prog
  imports Basic_Safe
begin

text \<open>
  The program store, runs and sessions of the Tiny-BASIC interpreter: the sorted array of lines behaves as
  a map from line numbers to texts, a session of the prompt keeps the invariant and touches no array out of
  its bounds, a stop request ends a run, and a saved program loads back.
\<close>

section \<open>The program as a map\<close>

definition prog_map :: "bas_line list \<Rightarrow> u32 \<Rightarrow> string option" where
  "prog_map ls = map_of (map (\<lambda>l. (bl_num l, bl_text l)) ls)"

abbreviation key :: "bas_line \<Rightarrow> int" where "key l \<equiv> sint (bl_num l)"

lemma prog_map_Cons: "prog_map (l # ls) = (prog_map ls)(bl_num l \<mapsto> bl_text l)"
  by (simp add: prog_map_def)

lemma prog_map_append: "prog_map (A @ B) = prog_map B ++ prog_map A"
  by (simp add: prog_map_def)

lemma prog_map_none: "num \<notin> bl_num ` set ls \<Longrightarrow> prog_map ls num = None"
  by (force simp: prog_map_def map_of_eq_None_iff)

lemma find_split:
  assumes "sorted_wrt (<) (map key ls)"
  shows "\<exists>A B. ls = A @ B \<and> find_line_idx ls num = length A \<and> (\<forall>l \<in> set A. key l < sint num) \<and> (\<forall>l \<in> set B. sint num \<le> key l)"
  using assms
proof (induction ls)
  case (Cons l ls)
  show ?case
  proof (cases "sint num \<le> key l")
    case True
    then have "l # ls = [] @ (l # ls) \<and> find_line_idx (l # ls) num = length ([] :: bas_line list) \<and> (\<forall>l \<in> set (l # ls). sint num \<le> key l)"
      using Cons.prems by auto
    then show ?thesis by (metis empty_iff list.set(1))
  next
    case False
    obtain A B where "ls = A @ B" "find_line_idx ls num = length A" "\<forall>l \<in> set A. key l < sint num" "\<forall>l \<in> set B. sint num \<le> key l"
      using Cons by auto
    then have "l # ls = (l # A) @ B \<and> find_line_idx (l # ls) num = length (l # A) \<and> (\<forall>l \<in> set (l # A). key l < sint num)
        \<and> (\<forall>l \<in> set B. sint num \<le> key l)"
      using False by auto
    then show ?thesis by blast
  qed
qed simp

text \<open>The two cases of a lookup: the line is there, or its place is between smaller and larger numbers.\<close>

lemma line_cases:
  assumes "sorted_wrt (<) (map key ls)"
  obtains A l B where "ls = A @ l # B" "find_line_idx ls num = length A" "bl_num l = num" "line_at ls (length A) num"
      "\<forall>l \<in> set A. key l < sint num" "\<forall>l \<in> set B. sint num < key l"
  | A B where "ls = A @ B" "find_line_idx ls num = length A" "\<not> line_at ls (length A) num"
      "\<forall>l \<in> set A. key l < sint num" "\<forall>l \<in> set B. sint num < key l"
proof -
  obtain A B where AB: "ls = A @ B" "find_line_idx ls num = length A" "\<forall>l \<in> set A. key l < sint num" "\<forall>l \<in> set B. sint num \<le> key l"
    using find_split [OF assms, of num] by blast
  have sB: "sorted_wrt (<) (map key B)" using assms AB(1) by (simp add: sorted_wrt_append)
  show thesis
  proof (cases "line_at ls (length A) num")
    case True
    then obtain l B' where B: "B = l # B'" "bl_num l = num" using AB(1) by (cases B) (auto simp: line_at_def)
    then have "\<forall>l \<in> set B'. sint num < key l" using sB by auto
    then show thesis using that(1) [of A l B'] AB B True by auto
  next
    case False
    have "\<forall>l \<in> set B. sint num < key l"
    proof (cases B)
      case (Cons l B')
      then have "bl_num l \<noteq> num" using False AB(1) by (auto simp: line_at_def)
      then have "key l \<noteq> sint num" using signed_word_eqI [of "bl_num l" num] by blast
      then have "sint num < key l" using AB(4) Cons by fastforce
      then show ?thesis using sB Cons by auto
    qed simp
    then show thesis using that(2) [of A B] AB False by auto
  qed
qed

lemma goto_idx_correct:
  assumes "prog_ok (ba_prog b)"
  shows "case goto_idx b num of None \<Rightarrow> prog_map (ba_prog b) num = None
    | Some i \<Rightarrow> i < length (ba_prog b) \<and> bl_num (ba_prog b ! i) = num \<and> prog_map (ba_prog b) num = Some (bl_text (ba_prog b ! i))"
proof -
  have "sorted_wrt (<) (map key (ba_prog b))" using assms by (simp add: prog_ok_def)
  then show ?thesis
  proof (cases rule: line_cases [where num = num])
    case (1 A l B)
    moreover have "prog_map A num = None" using 1(5) by (intro prog_map_none) auto
    ultimately show ?thesis by (simp add: goto_idx_def prog_map_append prog_map_Cons map_add_def)
  next
    case (2 A B)
    moreover have "prog_map (A @ B) num = None" using 2(4,5) by (intro prog_map_none) auto
    ultimately show ?thesis by (simp add: goto_idx_def)
  qed
qed

text \<open>Deleting, replacing and inserting around a place in the program.\<close>

lemma prog_map_delete:
  assumes "\<forall>l \<in> set A. key l < sint num" and "\<forall>l \<in> set B. sint num < key l"
  shows "prog_map (A @ B) num = None" and "bl_num l = num \<Longrightarrow> prog_map (A @ l # B) = (prog_map (A @ B))(num \<mapsto> bl_text l)"
proof -
  show "prog_map (A @ B) num = None" using assms by (intro prog_map_none) auto
  have "num \<notin> dom (prog_map A)" using assms(1) prog_map_none [of num A] by force
  then show "bl_num l = num \<Longrightarrow> prog_map (A @ l # B) = (prog_map (A @ B))(num \<mapsto> bl_text l)"
    by (auto simp: prog_map_append prog_map_Cons map_add_upd_left)
qed

lemma prog_ok_around:
  assumes "\<forall>l \<in> set A. key l < sint num" and "\<forall>l \<in> set B. sint num < key l"
  shows "prog_ok (A @ B) \<Longrightarrow> length (A @ B) < BAS_MAX_LINES \<Longrightarrow> text_ok t \<Longrightarrow> prog_ok (A @ \<lparr>bl_num = num, bl_text = t\<rparr> # B)"
    and "prog_ok (A @ l # B) \<Longrightarrow> prog_ok (A @ B)"
  using assms by (auto simp: prog_ok_def sorted_wrt_append)

lemma text_ok_take: "skip_ws t \<noteq> [] \<Longrightarrow> NUL \<notin> set t \<Longrightarrow> text_ok (take (BAS_TEXT_LEN - 1) (skip_ws t))"
  using hd_dropWhile [of is_space t] set_dropWhileD [of NUL is_space t] in_set_takeD [of NUL 79 "dropWhile is_space t"]
  by (auto simp: text_ok_def skip_ws_def BAS_TEXT_LEN_def hd_take)

text \<open>Storing a line updates the map: an empty text removes, any other text is entered, cut to its array,
  unless the program is full.\<close>

lemma store_line_ok:
  assumes b: "prog_ok (ba_prog b)" and t: "NUL \<notin> set t"
  shows "prog_ok (ba_prog (store_line b num t))"
    and "prog_map (ba_prog (store_line b num t)) =
      (if skip_ws t = [] then (prog_map (ba_prog b))(num := None)
       else if prog_map (ba_prog b) num = None \<and> length (ba_prog b) \<ge> BAS_MAX_LINES then prog_map (ba_prog b)
       else (prog_map (ba_prog b))(num \<mapsto> take (BAS_TEXT_LEN - 1) (skip_ws t)))"
proof -
  let ?l = "\<lparr>bl_num = num, bl_text = take (BAS_TEXT_LEN - 1) (skip_ws t)\<rparr>"
  have "sorted_wrt (<) (map key (ba_prog b))" using b by (simp add: prog_ok_def)
  then have "prog_ok (ba_prog (store_line b num t)) \<and> prog_map (ba_prog (store_line b num t)) =
      (if skip_ws t = [] then (prog_map (ba_prog b))(num := None)
       else if prog_map (ba_prog b) num = None \<and> length (ba_prog b) \<ge> BAS_MAX_LINES then prog_map (ba_prog b)
       else (prog_map (ba_prog b))(num \<mapsto> take (BAS_TEXT_LEN - 1) (skip_ws t)))"
  proof (cases rule: line_cases [where num = num])
    case (1 A l B)
    note m = prog_map_delete [OF 1(5,6)]
    have AB: "prog_ok (A @ B)" using b 1(1) prog_ok_around(2) [OF 1(5,6)] by simp
    have "length (A @ B) < BAS_MAX_LINES" using b 1(1) by (simp add: prog_ok_def)
    then have ins: "skip_ws t \<noteq> [] \<Longrightarrow> prog_ok (A @ ?l # B)"
      using prog_ok_around(1) [OF 1(5,6) AB] text_ok_take [OF _ t] by simp
    have s: "ba_prog (store_line b num t) = (if skip_ws t = [] then A @ B else A @ ?l # B)"
      using 1 by (simp add: store_line_def Let_def)
    show ?thesis using s AB ins m(1) m(2) [of l] m(2) [of ?l] 1(1,3) by (auto simp: fun_eq_iff)
  next
    case (2 A B)
    note m = prog_map_delete [OF 2(4,5)]
    have ins: "skip_ws t \<noteq> [] \<Longrightarrow> length (A @ B) < BAS_MAX_LINES \<Longrightarrow> prog_ok (A @ ?l # B)"
      using prog_ok_around(1) [OF 2(4,5)] text_ok_take [OF _ t] b 2(1) by simp
    have s: "ba_prog (store_line b num t) =
        (if skip_ws t = [] \<or> length (A @ B) \<ge> BAS_MAX_LINES then A @ B else A @ ?l # B)"
      using 2 by (simp add: store_line_def Let_def)
    show ?thesis using s ins m(1) m(2) [of ?l] 2(1) b by (auto simp: fun_eq_iff)
  qed
  then show "prog_ok (ba_prog (store_line b num t))"
    and "prog_map (ba_prog (store_line b num t)) =
      (if skip_ws t = [] then (prog_map (ba_prog b))(num := None)
       else if prog_map (ba_prog b) num = None \<and> length (ba_prog b) \<ge> BAS_MAX_LINES then prog_map (ba_prog b)
       else (prog_map (ba_prog b))(num \<mapsto> take (BAS_TEXT_LEN - 1) (skip_ws t)))"
    by simp_all
qed

lemma store_line_rest:
  "ba_vars (store_line b num t) = ba_vars b" "ba_for (store_line b num t) = ba_for b" "ba_gosub (store_line b num t) = ba_gosub b"
  by (simp_all add: store_line_def Let_def)

lemma store_basic_ok: "basic_ok b \<Longrightarrow> NUL \<notin> set t \<Longrightarrow> basic_ok (store_line b num t)"
  using store_line_ok(1) [of b t num] by (simp add: basic_ok_def store_line_rest)

section \<open>Runs\<close>

fun run_ok :: "basic \<Rightarrow> basic run \<Rightarrow> bool" where
  "run_ok b (Ok b') \<longleftrightarrow> basic_ok b' \<and> ba_prog b' = ba_prog b"
| "run_ok b Oob \<longleftrightarrow> False" | "run_ok b Blocked \<longleftrightarrow> True" | "run_ok b Trap \<longleftrightarrow> True" | "run_ok b NoFuel \<longleftrightarrow> True"

text \<open>The answer to one of the next \<open>n\<close> questions whether to stop is yes.\<close>

definition stop_within :: "nat \<Rightarrow> bool list \<Rightarrow> bool" where
  "stop_within n ss \<longleftrightarrow> True \<in> set (take n ss)"

lemma stop_within_tl: "stop_within (Suc n) ss \<Longrightarrow> \<not> (ss \<noteq> [] \<and> hd ss) \<Longrightarrow> stop_within n (tl ss)"
  by (cases ss) (auto simp: stop_within_def)

lemma stop_within_le: "stop_within n ss \<Longrightarrow> stop_within (Suc n) ss"
  using set_take_subset_set_take [of n "Suc n" ss] by (auto simp: stop_within_def)

lemma stop_within_asked: "stop_within n (ba_stops b) \<Longrightarrow> asked c b b' \<Longrightarrow> c \<noteq> End \<Longrightarrow> stop_within n (ba_stops b')"
  using stop_within_tl [of n "ba_stops b"] stop_within_le [of n "ba_stops b"] by (auto simp: asked_def)

lemma run_loop_ok:
  "basic_ok b \<Longrightarrow> run_ok b (run_loop n b) \<and> (stop_within n (ba_stops b) \<longrightarrow> run_loop n b \<noteq> NoFuel)"
proof (induction n arbitrary: b)
  case (Suc n)
  let ?b = "b\<lparr>ba_stops := tl (ba_stops b)\<rparr>" and ?stop = "ba_stops b \<noteq> [] \<and> hd (ba_stops b)"
  have b: "basic_ok ?b" using Suc.prems by (simp add: basic_ok_def)
  show ?case
  proof (cases "ba_pc b \<ge> length (ba_prog b) \<or> ?stop")
    case True
    then show ?thesis using Suc.prems b by (auto simp: task_should_stop_def)
  next
    case False
    let ?s = "bl_text (ba_prog b ! ba_pc b)"
    have st: "stop_within n (ba_stops ?b)" if "stop_within (Suc n) (ba_stops b)" using stop_within_tl that False by simp
    show ?thesis
    proof (cases "exec_stmt ?b ?s")
      case (Ok x)
      then obtain r b2 where x: "exec_stmt ?b ?s = Ok (r, b2)" by (cases x) auto
      then have o: "basic_ok b2" "ba_prog b2 = ba_prog b" "asked r ?b b2" using exec_stmt_ok [OF b, of ?s] by simp_all
      let ?c = "if r = Fall then b2\<lparr>ba_pc := ba_pc b + 1\<rparr> else b2"
      have c: "basic_ok ?c" "ba_prog ?c = ba_prog b" "ba_stops ?c = ba_stops b2" using o by (simp_all add: basic_ok_def)
      have "run_ok b (run_loop n ?c) \<and> (stop_within n (ba_stops b2) \<longrightarrow> run_loop n ?c \<noteq> NoFuel)"
        using Suc.IH [OF c(1)] c(2,3) by (cases "run_loop n ?c") auto
      then show ?thesis using False x o st stop_within_asked [OF _ o(3)]
        by (cases "r = Err \<or> r = End") (auto simp: task_should_stop_def Let_def)
    qed (use exec_stmt_ok [OF b, of ?s] False in \<open>auto simp: task_should_stop_def Let_def\<close>)
  qed
qed (simp add: stop_within_def)

lemma basic_run_ok:
  assumes "basic_ok b"
  shows "run_ok b (basic_run n b)" and "stop_within n (ba_stops b) \<Longrightarrow> basic_run n b \<noteq> NoFuel"
proof -
  let ?b = "b\<lparr>ba_pc := 0, ba_for := [], ba_gosub := []\<rparr>"
  have "basic_ok ?b" using assms by (simp add: basic_ok_def)
  note R = run_loop_ok [OF this, of n]
  show "run_ok b (basic_run n b)" using R unfolding basic_run_def by (cases "run_loop n ?b") auto
  show "stop_within n (ba_stops b) \<Longrightarrow> basic_run n b \<noteq> NoFuel" using R by (simp add: basic_run_def)
qed

section \<open>Sessions\<close>

lemma number_rest: "number v s = (u, r) \<Longrightarrow> set r \<subseteq> set s"
  by (induction v s rule: number.induct) (auto split: if_splits)

lemma cstr_no_nul: "NUL \<notin> set (cstr s)" and skip_ws_set: "set (skip_ws s) \<subseteq> set s"
  by (auto simp: cstr_def skip_ws_def dest: set_takeWhileD set_dropWhileD)

lemma store_number_ok: "basic_ok b \<Longrightarrow> NUL \<notin> set s \<Longrightarrow> number 0 (skip_ws s) = (num, r) \<Longrightarrow> basic_ok (store_line b num r)"
  using number_rest [of 0 "skip_ws s" num r] skip_ws_set [of s] by (intro store_basic_ok) auto

lemma load_line_ok: "basic_ok b \<Longrightarrow> load_line b line = Some b' \<Longrightarrow> basic_ok b'"
  using store_number_ok [OF _ cstr_no_nul] by (auto simp: load_line_def Let_def split: if_splits prod.splits)

lemma load_bytes_ok: "basic_ok b \<Longrightarrow> basic_ok (snd (load_bytes b line s))"
  by (induction b line s rule: load_bytes.induct) (auto dest: load_line_ok split: option.splits)

lemma basic_load_ok: "basic_ok b \<Longrightarrow> basic_ok (snd (basic_load b file failed))"
proof -
  assume b: "basic_ok b"
  then have "basic_ok (b\<lparr>ba_prog := []\<rparr>)" by (simp add: basic_ok_def prog_ok_def)
  note load_bytes_ok [OF this]
  then show ?thesis using b by (simp add: basic_load_def case_prod_beta split: option.splits)
qed

lemma init_ok: "basic_ok (basic_init b)"
  by (simp add: basic_init_def basic_ok_def prog_ok_def)

lemma repl_load_ok: "basic_ok b \<Longrightarrow> basic_ok (repl_load df b q)"
proof -
  assume "basic_ok b"
  then have "basic_ok (snd (basic_load b (ba_files b pa) (df_read df pa)))" for pa by (rule basic_load_ok)
  then show ?thesis using \<open>basic_ok b\<close> by (simp add: repl_load_def case_prod_beta split: option.splits)
qed

lemma repl_save_ok: "basic_ok b \<Longrightarrow> basic_ok (repl_save df b q)"
  by (auto simp: repl_save_def basic_save_def basic_ok_def split: option.splits)

fun round_ok :: "(bool \<times> basic) run \<Rightarrow> bool" where
  "round_ok (Ok (goes_on, b)) \<longleftrightarrow> basic_ok b" | "round_ok Oob \<longleftrightarrow> False" | "round_ok Blocked \<longleftrightarrow> True"
| "round_ok Trap \<longleftrightarrow> True" | "round_ok NoFuel \<longleftrightarrow> True"

lemma round_run: "basic_ok b \<Longrightarrow> round_ok (bnd (basic_run n b) (\<lambda>b'. Ok (True, b')))"
  using basic_run_ok(1) [of b n] by (cases "basic_run n b") auto

lemma round_stmt: "basic_ok b \<Longrightarrow> round_ok (bnd (exec_stmt b p) (\<lambda>(r, b'). Ok (True, if r = Err then print s b' else b')))"
  using exec_stmt_ok [of b p] by (cases "exec_stmt b p") auto

lemma repl_line_ok:
  assumes b: "basic_ok b" and "NUL \<notin> set line"
  shows "round_ok (repl_line df n b line)"
proof -
  obtain num r where num: "number 0 (skip_ws line) = (num, r)" by fastforce
  have "basic_ok (bas_list b)" using b by (simp add: bas_list_def)
  then show ?thesis
    using assms num store_number_ok [OF assms num] round_run [OF b, of n] round_stmt [OF b, of "skip_ws line" "''?ERROR\<newline>''"]
      repl_load_ok [OF b, of df] repl_save_ok [OF b, of df] init_ok [of b]
    by (simp add: repl_line_def Let_def split: option.splits)
qed

lemma repl_step_ok: "basic_ok b \<Longrightarrow> round_ok (repl_step df n b)"
proof -
  assume b: "basic_ok b"
  show ?thesis
  proof (cases "read_keys (ba_in b) (ba_out b @ ''> '') [] (BAS_TEXT_LEN + 16)")
    case (Some x)
    obtain buf out ks where x: "x = (buf, out, ks)" by (cases x)
    let ?b = "b\<lparr>ba_out := out, ba_in := ks, ba_stops := tl (ba_stops b)\<rparr>"
    have ok: "basic_ok ?b" using b by (simp add: basic_ok_def)
    show ?thesis using ok repl_line_ok [OF ok cstr_no_nul, of df n buf] Some x
      by (simp add: repl_step_def bas_read_line_def task_should_stop_def print_def)
  qed (simp add: repl_step_def bas_read_line_def print_def)
qed

fun session_ok :: "basic run \<Rightarrow> bool" where
  "session_ok (Ok b) \<longleftrightarrow> basic_ok b" | "session_ok Oob \<longleftrightarrow> False" | "session_ok Blocked \<longleftrightarrow> True"
| "session_ok Trap \<longleftrightarrow> True" | "session_ok NoFuel \<longleftrightarrow> True"

lemma run_session: "run_ok b r \<Longrightarrow> session_ok r"
  by (cases r) auto

lemma repl_loop_ok: "basic_ok b \<Longrightarrow> session_ok (repl_loop df n rounds b)"
proof (induction rounds arbitrary: b)
  case (Suc rounds)
  then show ?case using repl_step_ok [of b df n] by (cases "repl_step df n b") auto
qed simp

lemma repl_start_ok:
  assumes b: "basic_ok b"
  shows "session_ok (repl_start df n b autoload)"
proof -
  let ?b = "print (''d-os Tiny-BASIC (256 lines max). Type HELP for a refresher.'' @ [CHR 0x0A]) b"
  have p: "session_ok (bnd r (\<lambda>b2. Ok (print s b2)))" if "session_ok r" for r s using that by (cases r) auto
  have l: "basic_ok (snd (basic_load ?b (ba_files ?b pa) (df_read df pa)))" for pa using b by (intro basic_load_ok) simp
  have "session_ok (case basic_load ?b (ba_files ?b pa) (df_read df pa) of (rc, b1) \<Rightarrow>
      if rc = 0 then basic_run n (print (''LOADED '' @ pa @ [CHR 0x0A]) b1)
      else Ok (print (''?CANNOT LOAD '' @ pa @ [CHR 0x0A]) b1))" for pa
    using l [of pa] run_session [OF basic_run_ok(1)] by (cases "basic_load ?b (ba_files ?b pa) (df_read df pa)") simp
  then show ?thesis using b unfolding repl_start_def Let_def by (intro p) (simp split: option.splits)
qed


text \<open>C37: When the task is asked to stop, a run ends: if the answer to one of the next \<open>n\<close> questions is yes,
  at most \<open>n\<close> lines are executed, however the program jumps.\<close>

theorem basic_run_stops:
  assumes "basic_ok b" and "True \<in> set (take n (ba_stops b))"
  shows "basic_run n b \<noteq> NoFuel"
  using basic_run_ok(2) [OF assms(1)] assms(2) by (simp add: stop_within_def)

definition demo_loop :: basic where
  "demo_loop = demo_basic\<lparr>ba_prog := [\<lparr>bl_num = 10, bl_text = ''GOTO 10''\<rparr>], ba_stops := [False, False, True]\<rparr>"

theorem basic_run_stops_witness: "basic_run 3 demo_loop \<noteq> NoFuel"
proof -
  have "basic_ok demo_loop"
    by (simp add: demo_loop_def demo_basic_def basic_ok_def prog_ok_def text_ok_def BAS_MAX_LINES_def BAS_TEXT_LEN_def BAS_STACK_def
        NUL_def is_space_def)
  moreover have "True \<in> set (take 3 (ba_stops demo_loop))" by (simp add: demo_loop_def numeral_3_eq_3)
  ultimately show ?thesis by (rule basic_run_stops)
qed

section \<open>Saving and loading\<close>

lemma num_digits_reads:
  "0 \<le> n \<Longrightarrow> int (read_base 10 (rev (num_digits n))) = n \<and> list_all is_dec (num_digits n)"
proof (induction n rule: num_digits.induct)
  case (1 n)
  have d: "n sdiv 10 = n div 10" "n smod 10 = n mod 10"
    using 1(2) by (simp_all add: signed_divide_int_def signed_modulo_int_def sgn_if)
  have c: "digit_value (char_of (nat (48 + n mod 10))) = nat (n mod 10)" "is_dec (char_of (nat (48 + n mod 10)))"
    using pos_mod_bound [of 10 n] pos_mod_sign [of 10 n] digit_value_dec [of "nat (n mod 10)"]
    by (auto simp: is_dec_def nat_add_distrib)
  show ?case
  proof (cases "n div 10 = 0")
    case True
    then show ?thesis using c d by (subst (1 2) num_digits.simps) (simp add: read_base_def)
  next
    case False
    then have "int (read_base 10 (rev (num_digits (n div 10)))) = n div 10 \<and> list_all is_dec (num_digits (n div 10))"
      using 1 d by (simp add: pos_imp_zdiv_nonneg_iff)
    then show ?thesis using c d False by (subst (1 2) num_digits.simps) (simp add: read_base_rev_Cons del: rev.simps)
  qed
qed

lemma num_digits_length: "0 \<le> n \<Longrightarrow> n < 10 ^ k \<Longrightarrow> 0 < k \<Longrightarrow> length (num_digits n) \<le> k"
proof (induction k arbitrary: n)
  case (Suc k)
  have d: "n sdiv 10 = n div 10" using Suc.prems by (simp add: signed_divide_int_def sgn_if)
  show ?case
  proof (cases "n div 10 = 0")
    case False
    then have "0 < k" using Suc.prems by (cases k) auto
    then have "length (num_digits (n div 10)) \<le> k" using Suc by simp
    then show ?thesis using d False by (subst num_digits.simps) simp
  qed (use d in \<open>subst num_digits.simps, simp\<close>)
qed simp

text \<open>A line that can be saved: its number is not negative and its text has no line ends.\<close>

definition savable :: "bas_line \<Rightarrow> bool" where
  "savable l \<longleftrightarrow> 0 \<le> sint (bl_num l) \<and> CHR 0x0A \<notin> set (bl_text l) \<and> CHR 0x0D \<notin> set (bl_text l)"

lemma find_line_end: "\<forall>l \<in> set ls. key l < sint num \<Longrightarrow> find_line_idx ls num = length ls"
  by (induction ls) auto

lemma store_line_end:
  assumes "\<forall>m \<in> set (ba_prog b). key m < key l" and "length (ba_prog b) < BAS_MAX_LINES" and "text_ok (bl_text l)"
  shows "store_line b (bl_num l) (CHR '' '' # bl_text l) = b\<lparr>ba_prog := ba_prog b @ [l]\<rparr>"
proof -
  have "skip_ws (CHR '' '' # bl_text l) = bl_text l" using assms(3) by (cases "bl_text l") (auto simp: skip_ws_def is_space_def text_ok_def)
  moreover have "\<lparr>bl_num = bl_num l, bl_text = take (BAS_TEXT_LEN - Suc 0) (bl_text l)\<rparr> = l"
    using assms(3) by (cases l) (auto simp: text_ok_def)
  ultimately show ?thesis using assms find_line_end [OF assms(1)] by (simp add: store_line_def line_at_def text_ok_def)
qed

lemma load_collect:
  "CHR 0x0A \<notin> set s \<Longrightarrow> CHR 0x0D \<notin> set s \<Longrightarrow> length line + length s \<le> BAS_TEXT_LEN + 15 \<Longrightarrow>
     load_bytes b line (s @ rest) = load_bytes b (line @ s) rest"
  by (induction s arbitrary: line) (auto simp: BAS_TEXT_LEN_def)

lemma dec_plain: "list_all is_dec ds \<Longrightarrow> NUL \<notin> set ds \<and> CHR 0x0A \<notin> set ds \<and> CHR 0x0D \<notin> set ds"
  by (auto simp: list_all_iff is_dec_def NUL_def)

lemma load_saved_line:
  assumes "savable l" and "text_ok (bl_text l)"
  shows "load_bytes b [] (save_line l @ rest) = load_bytes (store_line b (bl_num l) (CHR '' '' # bl_text l)) [] rest"
proof -
  let ?ds = "rev (num_digits (key l))"
  have n: "0 \<le> key l" using assms(1) by (simp add: savable_def)
  have ds: "list_all is_dec ?ds" "int (read_base 10 ?ds) = key l" using num_digits_reads [OF n] by (simp_all add: list_all_iff)
  obtain d ds' where d: "?ds = d # ds'" by (cases ?ds) (auto simp: num_digits.simps [of "key l"])
  have len: "length ?ds \<le> 10" using num_digits_length [OF n, of 10] sint_lt [of "bl_num l"] by simp
  have t: "NUL \<notin> set (bl_text l)" "length (bl_text l) < BAS_TEXT_LEN" using assms(2) by (simp_all add: text_ok_def)
  let ?s = "?ds @ CHR '' '' # bl_text l"
  have nat: "of_nat (read_base 10 ?ds) = bl_num l" using ds(2) by (metis of_int_of_nat_eq of_int_sint scast_id)
  have "cstr ?s = ?s" using dec_plain [OF ds(1)] t(1) by (auto simp: cstr_def takeWhile_eq_all_conv NUL_def)
  moreover have "skip_ws ?s = ?s" using d ds(1) dec_not [of d] by (simp add: skip_ws_def)
  moreover have "number 0 ?s = (bl_num l, CHR '' '' # bl_text l)"
    using number_digits [OF ds(1), of "CHR '' '' # bl_text l" 0] nat by (simp add: read_base_def peek_def is_dec_def)
  ultimately have "load_line b ?s = Some (store_line b (bl_num l) (CHR '' '' # bl_text l))"
    using d ds(1) by (simp add: load_line_def peek_def)
  moreover have "load_bytes b [] (?s @ CHR 0x0A # rest) = load_bytes b ?s (CHR 0x0A # rest)"
    using load_collect [of ?s "[]" b "CHR 0x0A # rest"] assms(1) dec_plain [OF ds(1)] len t(2) by (simp add: savable_def BAS_TEXT_LEN_def)
  ultimately show ?thesis by (simp add: save_line_def)
qed

lemma load_saved:
  "prog_ok (ba_prog b @ ls) \<Longrightarrow> \<forall>l \<in> set ls. savable l \<Longrightarrow>
     load_bytes b [] (concat (map save_line ls) @ [CHR 0x0A]) = (True, b\<lparr>ba_prog := ba_prog b @ ls\<rparr>)"
proof (induction ls arbitrary: b)
  case Nil
  then show ?case by (simp add: load_line_def cstr_def skip_ws_def)
next
  case (Cons l ls)
  have l: "text_ok (bl_text l)" "savable l" "\<forall>m \<in> set (ba_prog b). key m < key l" "length (ba_prog b) < BAS_MAX_LINES"
    using Cons.prems by (auto simp: prog_ok_def sorted_wrt_append)
  show ?case using load_saved_line [OF l(2,1)] store_line_end [OF l(3,4,1)] Cons.IH [of "b\<lparr>ba_prog := ba_prog b @ [l]\<rparr>"] Cons.prems
    by simp
qed

text \<open>C8: A program without negative line numbers and without line ends in its texts loads back as it was
  saved: the save succeeds when the disk takes every line, and loading the file, into any state, returns 0
  and gives exactly the saved lines.\<close>

theorem basic_save_load:
  assumes "basic_ok b" and "\<forall>l \<in> set (ba_prog b). savable l" and "length (ba_prog b) \<le> good"
  shows "fst (basic_save b path True good) = 0 \<and>
    basic_load c (ba_files (snd (basic_save b path True good)) path) False = (0, c\<lparr>ba_prog := ba_prog b\<rparr>)"
  using load_saved [of "c\<lparr>ba_prog := []\<rparr>" "ba_prog b"] assms
  by (simp add: basic_save_def basic_load_def save_text_def basic_ok_def)

theorem basic_save_load_witness:
  "basic_load demo_basic (ba_files (snd (basic_save demo_loop ''a'' True 1)) ''a'') False = (0, demo_basic\<lparr>ba_prog := ba_prog demo_loop\<rparr>)"
proof -
  have "basic_ok demo_loop" "\<forall>l \<in> set (ba_prog demo_loop). savable l" "length (ba_prog demo_loop) \<le> 1"
    by (simp_all add: demo_loop_def demo_basic_def basic_ok_def prog_ok_def text_ok_def BAS_MAX_LINES_def BAS_TEXT_LEN_def BAS_STACK_def
        NUL_def is_space_def savable_def)
  from basic_save_load [OF this, of "''a''" demo_basic] show ?thesis by blast
qed

section \<open>The divide error\<close>

lemma trap_expr: "length (ba_vars b) = 26 \<Longrightarrow> expr b ''(-2147483647-1)/-1'' = Trap"
proof -
  assume b: "length (ba_vars b) = 26"
  let ?r = "Sum (Term (Mul Divide (Fac (Paren (Sum (Add Minus (Term (Fac (Neg (Num ''2147483647'')))) (Fac (Num ''1'')))))) (Neg (Num ''1''))))"
  have "wf_rl ?r" "spaces []" "ends []" by (simp_all add: is_dec_def spaces_def)
  then have "agrees (ev_rl ?r b) (\<lambda>v b'. Ok (v, b', [])) (expr b (show_rl [] ?r @ []))" using parses(4) b by blast
  moreover have "ev_rl ?r b = Trap"
    by (simp add: ev_bnd_def val_def read_base_def digit_value_def)
  ultimately show ?thesis by (simp add: agrees_def)
qed



end
