(* ===== verification/Bcache.thy ===== *)
theory Bcache
  imports Dos_Prelude
begin

text \<open>
  The request layer of the block devices (\<open>kernel/core/block.c\<close>) and the write-back sector cache
  (\<open>kernel/core/block_cache.c\<close>).  A device is its address; the drivers behind \<open>dev->read\<close>,
  \<open>dev->write\<close> and \<open>dev->flush\<close> are the contents of their disks and \<open>bc_io\<close>, which says of each request
  whether it fails and what garbage a failed transfer leaves behind.  A hash chain is the list of the slot
  numbers on it.  A slot always has its 512 bytes: that the data pointers are reset when
  the initialisation fails is not modelled, nothing uses them then.  Reference counts are unbounded.  The
  clock of the I/O time statistic, the locks and the printed messages are left out.
\<close>

unbundle bit_operations_syntax

section \<open>Devices and requests\<close>

record block_device =
  bd_sector_size :: u32
  bd_sector_count :: u64
  bd_read :: bool
  bd_write :: bool
  bd_flush :: bool

record blk_stats =
  bk_reads :: u64
  bk_writes :: u64
  bk_flushes :: u64
  bk_sectors_read :: u64
  bk_sectors_written :: u64
  bk_errors :: u64

record bcache_buf =
  bs_dev :: u64
  bs_lba :: u64
  bs_data :: "u8 list"
  bs_refcount :: nat
  bs_dirty :: bool
  bs_tick :: u64
  bs_valid :: bool

record bcache =
  bc_init :: bool
  bc_slots :: "bcache_buf list"
  bc_buckets :: "u32 \<Rightarrow> nat list"
  bc_lru :: u64
  bc_hits :: u64
  bc_misses :: u64
  bc_evictions :: u64
  bc_flushes :: u64
  bc_ra_buf :: "u8 list"
  bc_ra_runs :: u64
  bc_ra_sectors :: u64
  bc_disk :: "u64 \<Rightarrow> u64 \<Rightarrow> u8 list"
  bc_io :: "nat \<Rightarrow> u8 list option"
  bc_ios :: nat
  bc_blk :: blk_stats

type_synonym devices = "u64 \<Rightarrow> block_device"

text \<open>The outcome of the next request.\<close>

definition next_io :: "bcache \<Rightarrow> u8 list option \<times> bcache" where
  "next_io s = (bc_io s (bc_ios s), s\<lparr>bc_ios := Suc (bc_ios s)\<rparr>)"

text \<open>A buffer after \<open>bytes\<close> were stored at its front.\<close>

definition overlay :: "u8 list \<Rightarrow> u8 list \<Rightarrow> u8 list" where
  "overlay bytes buf = take (length buf) bytes @ drop (length bytes) buf"

definition blk_read :: "devices \<Rightarrow> u64 \<Rightarrow> u64 \<Rightarrow> nat \<Rightarrow> u8 list \<Rightarrow> bcache \<Rightarrow> bool \<times> u8 list \<times> bcache" where
  "blk_read devs dev lba n buf s =
     (if dev = 0 \<or> \<not> bd_read (devs dev) then (False, buf, s)
      else let (f, s1) = next_io s;
               st = (bc_blk s1)\<lparr>bk_reads := bk_reads (bc_blk s1) + 1, bk_sectors_read := bk_sectors_read (bc_blk s1) + of_nat n\<rparr>
           in (case f of
                 None \<Rightarrow> (True, overlay (concat (map (\<lambda>j. bc_disk s dev (lba + of_nat j)) [0..<n])) buf, s1\<lparr>bc_blk := st\<rparr>)
               | Some g \<Rightarrow> (False, overlay g buf, s1\<lparr>bc_blk := st\<lparr>bk_errors := bk_errors st + 1\<rparr>\<rparr>)))"

text \<open>The cache only writes single sectors.\<close>

definition blk_write1 :: "devices \<Rightarrow> u64 \<Rightarrow> u64 \<Rightarrow> u8 list \<Rightarrow> bcache \<Rightarrow> bool \<times> bcache" where
  "blk_write1 devs dev lba buf s =
     (if dev = 0 \<or> \<not> bd_write (devs dev) then (False, s)
      else let (f, s1) = next_io s;
               st = (bc_blk s1)\<lparr>bk_writes := bk_writes (bc_blk s1) + 1, bk_sectors_written := bk_sectors_written (bc_blk s1) + 1\<rparr>;
               old = bc_disk s dev lba;
               put = (\<lambda>bytes. (bc_disk s)(dev := (bc_disk s dev)(lba := overlay bytes old)))
           in (case f of
                 None \<Rightarrow> (True, s1\<lparr>bc_disk := put buf, bc_blk := st\<rparr>)
               | Some g \<Rightarrow> (False, s1\<lparr>bc_disk := put g, bc_blk := st\<lparr>bk_errors := bk_errors st + 1\<rparr>\<rparr>)))"

definition blk_flush :: "devices \<Rightarrow> u64 \<Rightarrow> bcache \<Rightarrow> bool \<times> bcache" where
  "blk_flush devs dev s =
     (if dev = 0 \<or> \<not> bd_flush (devs dev) then (True, s)
      else let (f, s1) = next_io s; st = (bc_blk s1)\<lparr>bk_flushes := bk_flushes (bc_blk s1) + 1\<rparr>
           in (f = None, s1\<lparr>bc_blk := if f = None then st else st\<lparr>bk_errors := bk_errors st + 1\<rparr>\<rparr>))"

section \<open>Slots and chains\<close>

definition BCACHE_SLOTS :: nat where "BCACHE_SLOTS = 1024"
definition BC_SECTOR :: nat where "BC_SECTOR = 512"
definition FRAME_SIZE :: nat where "FRAME_SIZE = 4096"
definition BC_PER_FRAME :: nat where "BC_PER_FRAME = FRAME_SIZE div BC_SECTOR"
definition BC_BUCKETS :: u32 where "BC_BUCKETS = 256"

definition bc_hash :: "u64 \<Rightarrow> u64 \<Rightarrow> u32" where
  "bc_hash dev lba = ucast (lba XOR drop_bit 11 lba XOR drop_bit 4 dev) AND (BC_BUCKETS - 1)"

abbreviation slot :: "bcache \<Rightarrow> nat \<Rightarrow> bcache_buf" where "slot s i \<equiv> bc_slots s ! i"

definition set_slot :: "nat \<Rightarrow> bcache_buf \<Rightarrow> bcache \<Rightarrow> bcache" where
  "set_slot i b s = s\<lparr>bc_slots := (bc_slots s)[i := b]\<rparr>"

definition bc_unlink :: "nat \<Rightarrow> bcache \<Rightarrow> bcache" where
  "bc_unlink i s =
     (let h = bc_hash (bs_dev (slot s i)) (bs_lba (slot s i))
      in s\<lparr>bc_buckets := (bc_buckets s)(h := remove1 i (bc_buckets s h))\<rparr>)"

definition bc_link :: "nat \<Rightarrow> bcache \<Rightarrow> bcache" where
  "bc_link i s =
     (let h = bc_hash (bs_dev (slot s i)) (bs_lba (slot s i))
      in s\<lparr>bc_buckets := (bc_buckets s)(h := i # bc_buckets s h)\<rparr>)"

definition empty_slot :: "bcache_buf \<Rightarrow> bcache_buf" where
  "empty_slot b = b\<lparr>bs_dev := 0, bs_lba := 0, bs_refcount := 0, bs_dirty := False, bs_tick := 0, bs_valid := False\<rparr>"

text \<open>The slots are taken into use in order; a slot at a multiple of eight asks for a frame.  \<open>free\<close> is the
  number of frames the allocator can give.  The frames that were taken are returned when one is missing.\<close>

fun init_loop :: "nat \<Rightarrow> nat \<Rightarrow> nat \<Rightarrow> bcache \<Rightarrow> int \<times> nat \<times> bcache" where
  "init_loop 0 i free s = (0, free, s\<lparr>bc_init := True\<rparr>)"
| "init_loop (Suc n) i free s =
     (if i mod BC_PER_FRAME = 0 \<and> free = 0 then (- 1, free + i div BC_PER_FRAME, s)
      else init_loop n (Suc i) (if i mod BC_PER_FRAME = 0 then free - 1 else free) (set_slot i (empty_slot (slot s i)) s))"

definition bcache_init :: "nat \<Rightarrow> bcache \<Rightarrow> int \<times> nat \<times> bcache" where
  "bcache_init free s = (if bc_init s then (0, free, s) else init_loop BCACHE_SLOTS 0 free s)"

definition find_entry :: "u64 \<Rightarrow> u64 \<Rightarrow> bcache \<Rightarrow> nat option" where
  "find_entry dev lba s =
     find (\<lambda>i. bs_valid (slot s i) \<and> bs_dev (slot s i) = dev \<and> bs_lba (slot s i) = lba) (bc_buckets s (bc_hash dev lba))"

fun pick_from :: "bcache_buf list \<Rightarrow> nat \<Rightarrow> (nat \<times> u64) option \<Rightarrow> nat option" where
  "pick_from [] i victim = map_option fst victim"
| "pick_from (b # bs) i victim =
     (if bs_refcount b > 0 then pick_from bs (Suc i) victim
      else if \<not> bs_valid b then Some i
      else pick_from bs (Suc i)
        (case victim of None \<Rightarrow> Some (i, bs_tick b) | Some (k, t) \<Rightarrow> if bs_tick b < t then Some (i, bs_tick b) else victim))"

definition pick_victim :: "bcache \<Rightarrow> nat option" where
  "pick_victim s = pick_from (bc_slots s) 0 None"

section \<open>Reading ahead\<close>

definition evict :: "nat \<Rightarrow> bcache \<Rightarrow> bcache" where
  "evict i s =
     (if bs_valid (slot s i)
      then (let s1 = bc_unlink i (s\<lparr>bc_evictions := bc_evictions s + 1\<rparr>) in set_slot i ((slot s1 i)\<lparr>bs_valid := False\<rparr>) s1)
      else s)"

text \<open>A slot is filled with a sector, stamped and put on its chain.\<close>

definition fill :: "nat \<Rightarrow> u64 \<Rightarrow> u64 \<Rightarrow> u8 list \<Rightarrow> nat \<Rightarrow> bcache \<Rightarrow> bcache" where
  "fill i dev lba data ref s =
     bc_link i (set_slot i \<lparr>bs_dev = dev, bs_lba = lba, bs_data = data, bs_refcount = ref, bs_dirty = False,
                            bs_tick = bc_lru s + 1, bs_valid = True\<rparr> (s\<lparr>bc_lru := bc_lru s + 1\<rparr>))"

definition ra_length :: "devices \<Rightarrow> u64 \<Rightarrow> u64 \<Rightarrow> bcache \<Rightarrow> nat" where
  "ra_length devs dev lba s =
     Suc (length (takeWhile (\<lambda>k. lba + of_nat k < bd_sector_count (devs dev) \<and> find_entry dev (lba + of_nat k) s = None) [1..<BC_PER_FRAME]))"

fun ra_park :: "u64 \<Rightarrow> u64 \<Rightarrow> nat \<Rightarrow> nat list \<Rightarrow> bcache \<Rightarrow> bcache" where
  "ra_park dev lba b [] s = s"
| "ra_park dev lba b (j # js) s =
     (case pick_victim s of
        None \<Rightarrow> s
      | Some v \<Rightarrow>
          if v = b then s
          else if bs_valid (slot s v) \<and> bs_dirty (slot s v) then s
          else ra_park dev lba b js
            (fill v dev (lba + of_nat j) (take BC_SECTOR (drop (j * BC_SECTOR) (bc_ra_buf s))) 0 (evict v s)))"

definition bc_readahead :: "devices \<Rightarrow> u64 \<Rightarrow> u64 \<Rightarrow> nat \<Rightarrow> bcache \<Rightarrow> bool \<times> bcache" where
  "bc_readahead devs dev lba b s =
     (let k = ra_length devs dev lba s
      in if k = 1 then (False, s)
         else case blk_read devs dev lba k (bc_ra_buf s) s of (ok, ra, s1) \<Rightarrow>
           if \<not> ok then (False, s1\<lparr>bc_ra_buf := ra\<rparr>)
           else let s2 = s1\<lparr>bc_ra_buf := ra, bc_ra_runs := bc_ra_runs s1 + 1, bc_ra_sectors := bc_ra_sectors s1 + of_nat k\<rparr>;
                    saved = bs_refcount (slot s2 b);
                    s3 = set_slot b ((slot s2 b)\<lparr>bs_data := take BC_SECTOR ra, bs_refcount := 1\<rparr>) s2;
                    s4 = ra_park dev lba b [1..<k] s3
                in (True, set_slot b ((slot s4 b)\<lparr>bs_refcount := saved\<rparr>) s4))"

section \<open>The calls\<close>

text \<open>A dirty victim is written first; \<open>False\<close> when that fails.\<close>

definition clean_victim :: "devices \<Rightarrow> nat \<Rightarrow> bcache \<Rightarrow> bool \<times> bcache" where
  "clean_victim devs b s =
     (let v = slot s b
      in if bs_valid v \<and> bs_dirty v \<and> bs_dev v \<noteq> 0 \<and> bd_write (devs (bs_dev v))
         then (case blk_write1 devs (bs_dev v) (bs_lba v) (bs_data v) s of (ok, s1) \<Rightarrow>
                 if \<not> ok then (False, s1)
                 else (True, set_slot b ((slot s1 b)\<lparr>bs_dirty := False\<rparr>) (s1\<lparr>bc_flushes := bc_flushes s1 + 1\<rparr>)))
         else (True, s))"

text \<open>The contents of a missing sector.\<close>

definition bring_in :: "devices \<Rightarrow> u64 \<Rightarrow> u64 \<Rightarrow> bool \<Rightarrow> nat \<Rightarrow> bcache \<Rightarrow> bool \<times> bcache" where
  "bring_in devs dev lba no_read b s =
     (if no_read then (True, set_slot b ((slot s b)\<lparr>bs_data := replicate BC_SECTOR 0\<rparr>) s)
      else case bc_readahead devs dev lba b s of (done, s1) \<Rightarrow>
        if done then (True, s1)
        else case blk_read devs dev lba 1 (bs_data (slot s1 b)) s1 of (ok, data, s2) \<Rightarrow>
          (ok, set_slot b ((slot s2 b)\<lparr>bs_data := data\<rparr>) s2))"

definition bcache_get_unlocked :: "devices \<Rightarrow> u64 \<Rightarrow> u64 \<Rightarrow> bool \<Rightarrow> bcache \<Rightarrow> nat option \<times> bcache" where
  "bcache_get_unlocked devs dev lba no_read s =
     (if \<not> bc_init s \<or> dev = 0 \<or> \<not> bd_read (devs dev) then (None, s)
      else if unat (bd_sector_size (devs dev)) > BC_SECTOR then (None, s)
      else (case find_entry dev lba s of
        Some i \<Rightarrow>
          (Some i, set_slot i ((slot s i)\<lparr>bs_refcount := bs_refcount (slot s i) + 1, bs_tick := bc_lru s + 1\<rparr>)
                     (s\<lparr>bc_hits := bc_hits s + 1, bc_lru := bc_lru s + 1\<rparr>))
      | None \<Rightarrow>
          let s0 = s\<lparr>bc_misses := bc_misses s + 1\<rparr>
          in (case pick_victim s0 of
                None \<Rightarrow> (None, s0)
              | Some b \<Rightarrow>
                  (case clean_victim devs b s0 of (ok, s1) \<Rightarrow>
                     if \<not> ok then (None, s1)
                     else case bring_in devs dev lba no_read b (evict b s1) of (ok, s2) \<Rightarrow>
                       if \<not> ok then (None, set_slot b ((slot s2 b)\<lparr>bs_valid := False\<rparr>) s2)
                       else (Some b, fill b dev lba (bs_data (slot s2 b)) 1 s2)))))"

definition bcache_get :: "devices \<Rightarrow> u64 \<Rightarrow> u64 \<Rightarrow> bcache \<Rightarrow> nat option \<times> bcache" where
  "bcache_get devs dev lba s = bcache_get_unlocked devs dev lba False s"

definition bcache_get_overwrite :: "devices \<Rightarrow> u64 \<Rightarrow> u64 \<Rightarrow> bcache \<Rightarrow> nat option \<times> bcache" where
  "bcache_get_overwrite devs dev lba s = bcache_get_unlocked devs dev lba True s"

definition bcache_release :: "nat \<Rightarrow> bcache \<Rightarrow> bcache" where
  "bcache_release i s =
     (if bs_refcount (slot s i) > 0 then set_slot i ((slot s i)\<lparr>bs_refcount := bs_refcount (slot s i) - 1\<rparr>) s else s)"

definition bcache_mark_dirty :: "nat \<Rightarrow> bcache \<Rightarrow> bcache" where
  "bcache_mark_dirty i s = (if \<not> bs_valid (slot s i) then s else set_slot i ((slot s i)\<lparr>bs_dirty := True\<rparr>) s)"

fun sync_loop :: "devices \<Rightarrow> u64 \<Rightarrow> nat list \<Rightarrow> nat \<Rightarrow> bcache \<Rightarrow> nat \<times> bcache" where
  "sync_loop devs dev [] failed s = (failed, s)"
| "sync_loop devs dev (i # js) failed s =
     (let b = slot s i
      in if \<not> bs_valid b \<or> \<not> bs_dirty b \<or> bs_dev b \<noteq> dev then sync_loop devs dev js failed s
         else case blk_write1 devs dev (bs_lba b) (bs_data b) s of (ok, s1) \<Rightarrow>
           if \<not> ok then sync_loop devs dev js (Suc failed) s1
           else sync_loop devs dev js failed (set_slot i ((slot s1 i)\<lparr>bs_dirty := False\<rparr>) (s1\<lparr>bc_flushes := bc_flushes s1 + 1\<rparr>)))"

definition bcache_sync :: "devices \<Rightarrow> u64 \<Rightarrow> bcache \<Rightarrow> int \<times> bcache" where
  "bcache_sync devs dev s =
     (if \<not> bc_init s \<or> dev = 0 \<or> \<not> bd_write (devs dev) then (- 1, s)
      else case sync_loop devs dev [0..<BCACHE_SLOTS] 0 s of (failed, s1) \<Rightarrow>
        (if failed > 0 then - 2 else 0, snd (blk_flush devs dev s1)))"

fun drop_loop :: "u64 \<Rightarrow> nat list \<Rightarrow> nat \<Rightarrow> bcache \<Rightarrow> nat \<times> bcache" where
  "drop_loop dev [] held s = (held, s)"
| "drop_loop dev (i # js) held s =
     (let b = slot s i
      in if \<not> bs_valid b \<or> bs_dev b \<noteq> dev then drop_loop dev js held s
         else if bs_refcount b > 0 then drop_loop dev js (Suc held) s
         else let s1 = bc_unlink i s
              in drop_loop dev js held (set_slot i ((slot s1 i)\<lparr>bs_valid := False, bs_dirty := False, bs_dev := 0\<rparr>) s1))"

definition bcache_invalidate :: "devices \<Rightarrow> u64 \<Rightarrow> bcache \<Rightarrow> nat \<times> bcache" where
  "bcache_invalidate devs dev s =
     (if \<not> bc_init s \<or> dev = 0 then (0, s)
      else drop_loop dev [0..<BCACHE_SLOTS] 0 (snd (bcache_sync devs dev s)))"

definition bcache_get_stats :: "bcache \<Rightarrow> nat \<times> nat" where
  "bcache_get_stats s =
     (length (filter (\<lambda>b. bs_refcount b > 0) (bc_slots s)), length (filter (\<lambda>b. bs_valid b \<and> bs_dirty b) (bc_slots s)))"

end
