(* ===== verification/Bcache_Spec.thy ===== *)
theory Bcache_Spec
  imports Bcache
begin

text \<open>
  The sector cache behaves as the disks themselves: through every sequence of calls a reader gets what was
  last stored, held buffers are never taken away, and a sync that reports success has written everything.
\<close>

section \<open>The invariant\<close>

definition cached :: "bcache \<Rightarrow> nat \<Rightarrow> u64 \<Rightarrow> u64 \<Rightarrow> bool" where
  "cached s i d l \<longleftrightarrow> i < BCACHE_SLOTS \<and> bs_valid (slot s i) \<and> bs_dev (slot s i) = d \<and> bs_lba (slot s i) = l"

definition chains_ok :: "bcache \<Rightarrow> bool" where
  "chains_ok s \<longleftrightarrow> (\<forall>h. distinct (bc_buckets s h) \<and>
     (\<forall>i. i \<in> set (bc_buckets s h) \<longleftrightarrow> i < BCACHE_SLOTS \<and> bs_valid (slot s i) \<and> bc_hash (bs_dev (slot s i)) (bs_lba (slot s i)) = h))"

text \<open>\<open>W\<close>: the held slots whose contents their holder has changed and not yet marked.\<close>

definition slot_ok :: "devices \<Rightarrow> nat set \<Rightarrow> bcache \<Rightarrow> nat \<Rightarrow> bool" where
  "slot_ok devs W s i \<longleftrightarrow> length (bs_data (slot s i)) = BC_SECTOR \<and>
     (bs_valid (slot s i) \<longrightarrow> bs_dev (slot s i) \<noteq> 0 \<and> (bs_dirty (slot s i) \<longrightarrow> bd_write (devs (bs_dev (slot s i)))) \<and>
       (\<not> bs_dirty (slot s i) \<and> i \<notin> W \<longrightarrow> bs_data (slot s i) = bc_disk s (bs_dev (slot s i)) (bs_lba (slot s i))))"

definition sizes_ok :: "bcache \<Rightarrow> bool" where
  "sizes_ok s \<longleftrightarrow> length (bc_slots s) = BCACHE_SLOTS \<and> length (bc_ra_buf s) = FRAME_SIZE \<and> (\<forall>d l. length (bc_disk s d l) = BC_SECTOR)"

definition unique :: "bcache \<Rightarrow> bool" where
  "unique s \<longleftrightarrow> (\<forall>i j d l. cached s i d l \<longrightarrow> cached s j d l \<longrightarrow> i = j)"

definition bc_ok :: "devices \<Rightarrow> nat set \<Rightarrow> bcache \<Rightarrow> bool" where
  "bc_ok devs W s \<longleftrightarrow> sizes_ok s \<and> chains_ok s \<and> unique s \<and> (\<forall>i < BCACHE_SLOTS. slot_ok devs W s i)"

lemma bc_okD: "bc_ok devs W s \<Longrightarrow> sizes_ok s" "bc_ok devs W s \<Longrightarrow> chains_ok s" "bc_ok devs W s \<Longrightarrow> unique s"
  "bc_ok devs W s \<Longrightarrow> i < BCACHE_SLOTS \<Longrightarrow> slot_ok devs W s i"
  by (simp_all add: bc_ok_def)

text \<open>What a reader of a sector is to get.\<close>

definition view :: "bcache \<Rightarrow> u64 \<Rightarrow> u64 \<Rightarrow> u8 list" where
  "view s d l = (case find_entry d l s of None \<Rightarrow> bc_disk s d l | Some i \<Rightarrow> bs_data (slot s i))"

lemma find_holds: "find P xs = Some x \<Longrightarrow> P x \<and> x \<in> set xs"
  by (induction xs) (auto split: if_splits)

lemma find_entry_Some: "bc_ok devs W s \<Longrightarrow> find_entry d l s = Some i \<longleftrightarrow> cached s i d l"
proof
  assume ok: "bc_ok devs W s"
  have ch: "chains_ok s" using ok by (rule bc_okD)
  show f: "cached s j d l" if "find_entry d l s = Some j" for j
    using find_holds [OF that [unfolded find_entry_def]] ch by (auto simp: cached_def chains_ok_def)
  assume i: "cached s i d l"
  then have "i \<in> set (bc_buckets s (bc_hash d l))" using ch by (simp add: chains_ok_def cached_def)
  then have "find_entry d l s \<noteq> None" using i by (auto simp: find_entry_def find_None_iff cached_def)
  then show "find_entry d l s = Some i" using f i bc_okD(3) [OF ok] by (auto simp: unique_def)
qed

lemma find_entry_None: "bc_ok devs W s \<Longrightarrow> find_entry d l s = None \<longleftrightarrow> (\<forall>i. \<not> cached s i d l)"
  using find_entry_Some by (metis not_Some_eq)

lemma view_cached: "bc_ok devs W s \<Longrightarrow> cached s i d l \<Longrightarrow> view s d l = bs_data (slot s i)"
  using find_entry_Some [of devs W s d l i] by (simp add: view_def)

lemma view_disk: "bc_ok devs W s \<Longrightarrow> (\<And>i. \<not> cached s i d l) \<Longrightarrow> view s d l = bc_disk s d l"
  using find_entry_None [of devs W s d l] by (simp add: view_def)

text \<open>Two states have the same view when every sector has the same contents wherever it is.\<close>

lemma view_eqI:
  assumes ok: "bc_ok devs W s" "bc_ok devs' W' s'"
    and keep: "\<And>i d l. cached s i d l \<Longrightarrow> cached s' i d l \<and> bs_data (slot s' i) = bs_data (slot s i) \<or>
      (\<forall>j. \<not> cached s' j d l) \<and> bc_disk s' d l = bs_data (slot s i)"
    and new: "\<And>i d l. \<forall>j. \<not> cached s j d l \<Longrightarrow> bc_disk s' d l = bc_disk s d l \<and> (cached s' i d l \<longrightarrow> bs_data (slot s' i) = bc_disk s d l)"
  shows "view s' = view s"
proof (intro ext)
  fix d l
  show "view s' d l = view s d l"
  proof (cases "\<exists>i. cached s i d l")
    case True
    then obtain i where i: "cached s i d l" by blast
    then show ?thesis using keep [OF i] view_cached [OF ok(1) i] view_cached [OF ok(2), of i d l] view_disk [OF ok(2), of d l] by auto
  next
    case False
    then show ?thesis using new [of d l] view_disk [OF ok(1), of d l] view_cached [OF ok(2)] view_disk [OF ok(2), of d l] by (metis (full_types))
  qed
qed

section \<open>Slots\<close>

lemma set_slot_simps [simp]:
  "bc_disk (set_slot i b s) = bc_disk s" "bc_buckets (set_slot i b s) = bc_buckets s" "bc_ra_buf (set_slot i b s) = bc_ra_buf s"
  "length (bc_slots (set_slot i b s)) = length (bc_slots s)" "bc_lru (set_slot i b s) = bc_lru s" "bc_init (set_slot i b s) = bc_init s"
  "sizes_ok (set_slot i b s) = sizes_ok s"
  by (simp_all add: set_slot_def sizes_ok_def)

lemma slot_set_slot: "i < length (bc_slots s) \<Longrightarrow> slot (set_slot i b s) j = (if j = i then b else slot s j)"
  by (simp add: set_slot_def)

lemma sizesD: "sizes_ok s \<Longrightarrow> length (bc_slots s) = BCACHE_SLOTS" "sizes_ok s \<Longrightarrow> length (bc_ra_buf s) = FRAME_SIZE"
  "sizes_ok s \<Longrightarrow> length (bc_disk s d l) = BC_SECTOR"
  by (simp_all add: sizes_ok_def)

text \<open>Changing a slot that stays in place: references, stamps, marks, and contents of held slots.\<close>

lemma meta_ok:
  assumes ok: "bc_ok devs W s" and i: "i < BCACHE_SLOTS" and b: "bs_valid b = bs_valid (slot s i)" "bs_dev b = bs_dev (slot s i)" "bs_lba b = bs_lba (slot s i)"
    and s': "slot_ok devs W' (set_slot i b s) i" and W: "\<And>j. j \<noteq> i \<Longrightarrow> j \<in> W \<Longrightarrow> j \<in> W'"
  shows "bc_ok devs W' (set_slot i b s)" and "\<And>j d l. cached (set_slot i b s) j d l = cached s j d l"
proof -
  have len: "i < length (bc_slots s)" using sizesD(1) [OF bc_okD(1) [OF ok]] i by simp
  note sl = slot_set_slot [OF len]
  show c: "cached (set_slot i b s) j d l = cached s j d l" for j d l using b by (simp add: cached_def sl)
  have "chains_ok (set_slot i b s)" using bc_okD(2) [OF ok] b by (simp add: chains_ok_def sl)
  moreover have "unique (set_slot i b s)" using bc_okD(3) [OF ok] by (simp add: unique_def c)
  moreover have "slot_ok devs W' (set_slot i b s) j" if "j < BCACHE_SLOTS" for j
    using s' bc_okD(4) [OF ok that] W [of j] by (cases "j = i") (auto simp: slot_ok_def sl)
  ultimately show "bc_ok devs W' (set_slot i b s)" using bc_okD(1) [OF ok] by (simp add: bc_ok_def)
qed

lemma cached_valid: "cached s i d l \<Longrightarrow> bs_valid (slot s i)"
  by (simp add: cached_def)

lemma meta_view:
  assumes "bc_ok devs W s" "bc_ok devs W' (set_slot i b s)" "i < BCACHE_SLOTS" "bs_valid b = bs_valid (slot s i)" "bs_dev b = bs_dev (slot s i)"
    "bs_lba b = bs_lba (slot s i)" "bs_valid b \<Longrightarrow> bs_data b = bs_data (slot s i)"
  shows "view (set_slot i b s) = view s"
proof -
  have len: "i < length (bc_slots s)" using sizesD(1) [OF bc_okD(1) [OF assms(1)]] assms(3) by simp
  have c: "cached (set_slot i b s) j d l = cached s j d l" for j d l using assms(4-6) by (simp add: cached_def slot_set_slot [OF len])
  show ?thesis
    by (rule view_eqI [OF assms(1,2)]) (use assms(4-7) in \<open>auto simp: c slot_set_slot [OF len] dest: cached_valid\<close>)
qed

text \<open>State changes that no slot, chain or disk sees.\<close>

definition quiet :: "bcache \<Rightarrow> bcache \<Rightarrow> bool" where
  "quiet s s' \<longleftrightarrow> bc_slots s' = bc_slots s \<and> bc_buckets s' = bc_buckets s \<and> bc_disk s' = bc_disk s \<and> length (bc_ra_buf s') = length (bc_ra_buf s) \<and>
     bc_init s' = bc_init s"

lemma quiet_cached: "quiet s s' \<Longrightarrow> cached s' i d l = cached s i d l"
  by (simp add: quiet_def cached_def)

lemma quiet_ok: "quiet s s' \<Longrightarrow> bc_ok devs W s' = bc_ok devs W s"
  using quiet_cached [of s s'] by (simp add: bc_ok_def sizes_ok_def chains_ok_def unique_def slot_ok_def) (simp add: quiet_def)

lemma quiet_find: "quiet s s' \<Longrightarrow> find_entry d l s' = find_entry d l s"
  by (simp add: quiet_def find_entry_def)

lemma quiet_view: "quiet s s' \<Longrightarrow> view s' = view s"
  by (intro ext) (simp add: view_def quiet_find, simp add: quiet_def split: option.splits)

lemma quiet_slot: "quiet s s' \<Longrightarrow> slot s' i = slot s i"
  by (simp add: quiet_def)

lemma quiet_pick: "quiet s s' \<Longrightarrow> pick_victim s' = pick_victim s"
  by (simp add: quiet_def pick_victim_def)

lemma bc_link_simps [simp]:
  "bc_slots (bc_link i s) = bc_slots s" "bc_disk (bc_link i s) = bc_disk s" "bc_ra_buf (bc_link i s) = bc_ra_buf s" "bc_init (bc_link i s) = bc_init s"
  "bc_slots (bc_unlink i s) = bc_slots s" "bc_disk (bc_unlink i s) = bc_disk s" "bc_ra_buf (bc_unlink i s) = bc_ra_buf s" "bc_init (bc_unlink i s) = bc_init s"
  by (simp_all add: bc_link_def bc_unlink_def Let_def)

text \<open>A clean slot leaves the cache.\<close>

lemma drop_ok:
  assumes ok: "bc_ok devs W s" and i: "i < BCACHE_SLOTS" "bs_valid (slot s i)" "\<not> bs_dirty (slot s i)" "i \<notin> W"
    and b: "\<not> bs_valid b" "length (bs_data b) = BC_SECTOR"
  shows "bc_ok devs W (set_slot i b (bc_unlink i s))" and "view (set_slot i b (bc_unlink i s)) = view s"
    and "\<And>j d l. cached (set_slot i b (bc_unlink i s)) j d l \<longleftrightarrow> cached s j d l \<and> j \<noteq> i"
proof -
  let ?s = "set_slot i b (bc_unlink i s)"
  have len: "i < length (bc_slots (bc_unlink i s))" using sizesD(1) [OF bc_okD(1) [OF ok]] i by simp
  have sl: "slot ?s j = (if j = i then b else slot s j)" for j using slot_set_slot [OF len] by simp
  show c: "cached ?s j d l \<longleftrightarrow> cached s j d l \<and> j \<noteq> i" for j d l using b by (auto simp: cached_def sl)
  have dist: "distinct (bc_buckets s h)" and mem: "j \<in> set (bc_buckets s h) \<longleftrightarrow> j < BCACHE_SLOTS \<and> bs_valid (slot s j) \<and> bc_hash (bs_dev (slot s j)) (bs_lba (slot s j)) = h"
    for h j using bc_okD(2) [OF ok] by (simp_all add: chains_ok_def)
  have "distinct (bc_buckets ?s h)" and "j \<in> set (bc_buckets ?s h) \<longleftrightarrow> j \<in> set (bc_buckets s h) \<and> j \<noteq> i" for h j
    using dist mem [of i h] by (auto simp: bc_unlink_def Let_def)
  then have "chains_ok ?s" using b(1) by (auto simp: chains_ok_def sl mem)
  moreover have "unique ?s" using bc_okD(3) [OF ok] unfolding unique_def c by blast
  moreover have "slot_ok devs W ?s j" if "j < BCACHE_SLOTS" for j
    using bc_okD(4) [OF ok that] b by (cases "j = i") (auto simp: slot_ok_def sl)
  moreover have "sizes_ok ?s" using bc_okD(1) [OF ok] by (simp add: sizes_ok_def)
  ultimately show ok': "bc_ok devs W ?s" by (simp add: bc_ok_def)
  have clean: "bs_data (slot s i) = bc_disk s d l" if "cached s i d l" for d l
    using that bc_okD(4) [OF ok i(1)] i by (simp add: slot_ok_def cached_def)
  show "view ?s = view s"
  proof (rule view_eqI [OF ok ok'])
    fix j d l
    assume j: "cached s j d l"
    show "cached ?s j d l \<and> bs_data (slot ?s j) = bs_data (slot s j) \<or> (\<forall>k. \<not> cached ?s k d l) \<and> bc_disk ?s d l = bs_data (slot s j)"
      using j clean [of d l] bc_okD(3) [OF ok] by (cases "j = i") (auto simp: c sl unique_def)
  qed (auto simp: c sl)
qed

lemma evict_slot: "i < length (bc_slots s) \<Longrightarrow> slot (evict i s) j = (if j = i then (slot s i)\<lparr>bs_valid := False\<rparr> else slot s j)"
  by (simp add: evict_def Let_def set_slot_def bc_unlink_def)

lemma evict_simps [simp]: "bc_disk (evict i s) = bc_disk s" "bc_ra_buf (evict i s) = bc_ra_buf s" "bc_init (evict i s) = bc_init s"
  by (simp_all add: evict_def Let_def)

lemma evict_ok:
  assumes ok: "bc_ok devs W s" and i: "i < BCACHE_SLOTS" "bs_valid (slot s i) \<longrightarrow> \<not> bs_dirty (slot s i) \<and> i \<notin> W"
  shows "bc_ok devs W (evict i s)" and "view (evict i s) = view s" and "\<And>j d l. cached (evict i s) j d l \<longleftrightarrow> cached s j d l \<and> j \<noteq> i"
proof -
  have "bc_ok devs W (evict i s) \<and> view (evict i s) = view s \<and> (\<forall>j d l. cached (evict i s) j d l \<longleftrightarrow> cached s j d l \<and> j \<noteq> i)"
  proof (cases "bs_valid (slot s i)")
    case True
    let ?s = "s\<lparr>bc_evictions := bc_evictions s + 1\<rparr>"
    have q: "quiet s ?s" by (simp add: quiet_def)
    have "length (bs_data (slot s i)) = BC_SECTOR" using bc_okD(4) [OF ok i(1)] by (simp add: slot_ok_def)
    then show ?thesis using drop_ok [of devs W ?s i "(slot s i)\<lparr>bs_valid := False\<rparr>"] i True ok quiet_ok [OF q] quiet_view [OF q] quiet_cached [OF q]
      by (simp add: evict_def Let_def)
  qed (use ok in \<open>auto simp: evict_def cached_def\<close>)
  then show "bc_ok devs W (evict i s)" and "view (evict i s) = view s" and "\<And>j d l. cached (evict i s) j d l \<longleftrightarrow> cached s j d l \<and> j \<noteq> i" by simp_all
qed

text \<open>A sector enters a free slot.\<close>

lemma fill_slot: "i < length (bc_slots s) \<Longrightarrow> slot (fill i d l data r s) j =
   (if j = i then \<lparr>bs_dev = d, bs_lba = l, bs_data = data, bs_refcount = r, bs_dirty = False, bs_tick = bc_lru s + 1, bs_valid = True\<rparr> else slot s j)"
  by (simp add: fill_def set_slot_def)

lemma fill_simps [simp]: "bc_disk (fill i d l data r s) = bc_disk s" "bc_ra_buf (fill i d l data r s) = bc_ra_buf s"
  "length (bc_slots (fill i d l data r s)) = length (bc_slots s)" "bc_init (fill i d l data r s) = bc_init s"
  by (simp_all add: fill_def set_slot_def)

lemma fill_ok:
  assumes ok: "bc_ok devs W s" and i: "i < BCACHE_SLOTS" "\<not> bs_valid (slot s i)" and d: "d \<noteq> 0" "length data = BC_SECTOR" and free: "\<And>j. \<not> cached s j d l"
    and W: "W \<subseteq> W'" "i \<notin> W' \<Longrightarrow> data = bc_disk s d l"
  shows "bc_ok devs W' (fill i d l data r s)" and "\<And>j e k. cached (fill i d l data r s) j e k \<longleftrightarrow> j = i \<and> e = d \<and> k = l \<or> cached s j e k"
    and "view (fill i d l data r s) = (view s)(d := (view s d)(l := data))"
proof -
  let ?s = "fill i d l data r s"
  have len: "i < length (bc_slots s)" using sizesD(1) [OF bc_okD(1) [OF ok]] i by simp
  note sl = fill_slot [OF len]
  show c: "cached ?s j e k \<longleftrightarrow> j = i \<and> e = d \<and> k = l \<or> cached s j e k" for j e k using i by (auto simp: cached_def sl)
  have b: "bc_buckets ?s = (bc_buckets s)(bc_hash d l := i # bc_buckets s (bc_hash d l))" using len by (simp add: fill_def set_slot_def bc_link_def Let_def)
  have "chains_ok ?s" using bc_okD(2) [OF ok] i by (auto simp: chains_ok_def sl b)
  moreover have "unique ?s" using bc_okD(3) [OF ok] free by (auto simp: unique_def c)
  moreover have "slot_ok devs W' ?s j" if "j < BCACHE_SLOTS" for j
    using bc_okD(4) [OF ok that] d W by (cases "j = i") (auto simp: slot_ok_def sl)
  moreover have "sizes_ok ?s" using bc_okD(1) [OF ok] by (simp add: sizes_ok_def)
  ultimately show ok': "bc_ok devs W' ?s" by (simp add: bc_ok_def)
  show "view ?s = (view s)(d := (view s d)(l := data))"
  proof (intro ext)
    fix e k
    show "view ?s e k = ((view s)(d := (view s d)(l := data))) e k"
    proof (cases "\<exists>j. cached s j e k")
      case True
      then obtain j where j: "cached s j e k" by blast
      then have "j \<noteq> i" "(e, k) \<noteq> (d, l)" using i(2) free by (auto simp: cached_def)
      then show ?thesis using view_cached [OF ok j] view_cached [OF ok', of j e k] c [of j e k] j by (auto simp: sl)
    next
      case False
      then show ?thesis using view_disk [OF ok, of e k] view_disk [OF ok', of e k] view_cached [OF ok', of i e k] c by (auto simp: sl)
    qed
  qed
qed

section \<open>Requests\<close>

lemma overlay_length [simp]: "length (overlay bytes buf) = length buf"
  by (simp add: overlay_def)

lemma overlay_full: "length bytes = length buf \<Longrightarrow> overlay bytes buf = bytes"
  by (simp add: overlay_def)

lemma blk_read_cases:
  assumes "blk_read devs d l n buf s = (ok, data, s')"
  shows "quiet s s'" and "length data = length buf" and "bc_ra_buf s' = bc_ra_buf s"
    and "ok \<Longrightarrow> data = overlay (concat (map (\<lambda>j. bc_disk s d (l + of_nat j)) [0..<n])) buf"
  using assms by (auto simp: blk_read_def next_io_def Let_def quiet_def split: if_splits option.splits)

lemma write1_ok:
  assumes ok: "bc_ok devs W s" and i: "cached s i d l" "bs_dirty (slot s i)" and w: "blk_write1 devs d l (bs_data (slot s i)) s = (b, s')"
  shows "bc_ok devs W s'" and "view s' = view s" and "bc_slots s' = bc_slots s" and "b \<Longrightarrow> bc_disk s' d l = bs_data (slot s i)"
    and "(e, k) \<noteq> (d, l) \<Longrightarrow> bc_disk s' e k = bc_disk s e k" and "bc_init s' = bc_init s"
proof -
  have i': "i < BCACHE_SLOTS" using i(1) by (simp add: cached_def)
  have len: "length (bs_data (slot s i)) = length (bc_disk s d l)" using bc_okD(4) [OF ok i'] sizesD(3) [OF bc_okD(1) [OF ok]] by (simp add: slot_ok_def)
  have s': "bc_slots s' = bc_slots s" "bc_buckets s' = bc_buckets s" "length (bc_ra_buf s') = length (bc_ra_buf s)" "bc_init s' = bc_init s"
    "\<And>e k. (e, k) \<noteq> (d, l) \<Longrightarrow> bc_disk s' e k = bc_disk s e k" "\<And>e k. length (bc_disk s' e k) = length (bc_disk s e k)"
    "b \<Longrightarrow> bc_disk s' d l = bs_data (slot s i)"
    using w overlay_full [OF len] len by (auto simp: blk_write1_def next_io_def Let_def split: if_splits option.splits)
  then show "bc_slots s' = bc_slots s" "b \<Longrightarrow> bc_disk s' d l = bs_data (slot s i)" "bc_init s' = bc_init s"
    "(e, k) \<noteq> (d, l) \<Longrightarrow> bc_disk s' e k = bc_disk s e k" by simp_all
  have c: "cached s' j e k = cached s j e k" for j e k using s' by (simp add: cached_def)
  have "slot_ok devs W s' j" if "j < BCACHE_SLOTS" for j
  proof (cases "j = i \<or> \<not> bs_valid (slot s j)")
    case False
    then have "(bs_dev (slot s j), bs_lba (slot s j)) \<noteq> (d, l)" using i(1) that bc_okD(3) [OF ok] unfolding unique_def cached_def by blast
    then show ?thesis using bc_okD(4) [OF ok that] s'(1,5) by (simp add: slot_ok_def)
  qed (use bc_okD(4) [OF ok that] i(2) s'(1) in \<open>auto simp: slot_ok_def\<close>)
  moreover have "sizes_ok s'" "chains_ok s'" "unique s'" using bc_okD(1-3) [OF ok] s' c by (simp_all add: sizes_ok_def chains_ok_def unique_def)
  ultimately show ok': "bc_ok devs W s'" by (simp add: bc_ok_def)
  have disk: "bc_disk s' e k = bc_disk s e k" if "\<forall>j. \<not> cached s j e k" for e k
    using that i(1) by (intro s'(5)) auto
  show "view s' = view s"
    by (rule view_eqI [OF ok ok']) (use s'(1) in \<open>simp_all add: c disk\<close>)
qed

lemma clean_ok:
  assumes ok: "bc_ok devs W s" and i: "cached s i d l" and disk: "bs_data (slot s i) = bc_disk s d l"
  shows "bc_ok devs W (set_slot i ((slot s i)\<lparr>bs_dirty := False\<rparr>) (s\<lparr>bc_flushes := n\<rparr>))"
    and "view (set_slot i ((slot s i)\<lparr>bs_dirty := False\<rparr>) (s\<lparr>bc_flushes := n\<rparr>)) = view s"
proof -
  let ?s = "s\<lparr>bc_flushes := n\<rparr>" and ?b = "(slot s i)\<lparr>bs_dirty := False\<rparr>"
  have q: "quiet s ?s" by (simp add: quiet_def)
  note Q = quiet_ok [OF q] quiet_view [OF q]
  have i': "i < BCACHE_SLOTS" using i by (simp add: cached_def)
  then have len: "i < length (bc_slots ?s)" using sizesD(1) [OF bc_okD(1) [OF ok]] by simp
  have "slot_ok devs W (set_slot i ?b ?s) i"
    using bc_okD(4) [OF ok i'] i disk by (simp add: slot_ok_def slot_set_slot [OF len] cached_def)
  then show c: "bc_ok devs W (set_slot i ?b ?s)" using meta_ok(1) [of devs W ?s i ?b W] ok Q i' by simp
  show "view (set_slot i ?b ?s) = view s" using meta_view [of devs W ?s W i ?b] c ok Q i' by simp
qed

section \<open>Victims\<close>

lemma pick_from_ref:
  "pick_from bs i v = Some k \<Longrightarrow> (\<exists>t. v = Some (k, t)) \<or> i \<le> k \<and> k < i + length bs \<and> bs_refcount (bs ! (k - i)) = 0"
proof (induction bs i v rule: pick_from.induct)
  case (2 b bs i v)
  let ?v = "case v of None \<Rightarrow> Some (i, bs_tick b) | Some (k, t) \<Rightarrow> if bs_tick b < t then Some (i, bs_tick b) else v"
  have nth: "bs_refcount ((b # bs) ! (k - i)) = 0" if "Suc i \<le> k" "bs_refcount (bs ! (k - Suc i)) = 0"
    using that by (simp add: nth_Cons' Suc_diff_Suc [symmetric])
  show ?case
  proof (cases "bs_refcount b > 0 \<or> \<not> bs_valid b")
    case True
    then show ?thesis using 2(1,3) nth by (cases "bs_refcount b > 0") auto
  next
    case False
    then have "(\<exists>t. ?v = Some (k, t)) \<or> Suc i \<le> k \<and> k < Suc i + length bs \<and> bs_refcount (bs ! (k - Suc i)) = 0" using 2(2,3) by simp
    moreover have "(\<exists>t. v = Some (k, t)) \<or> k = i" if "\<exists>t. ?v = Some (k, t)" using that by (auto split: option.splits if_splits)
    ultimately show ?thesis using nth False by auto
  qed
qed auto

lemma pick_victim_ref: "pick_victim s = Some v \<Longrightarrow> v < length (bc_slots s) \<and> bs_refcount (slot s v) = 0"
  using pick_from_ref [of "bc_slots s" 0 None v] by (simp add: pick_victim_def)

text \<open>Held slots keep everything; other slots are not held afterwards either.\<close>

definition keeps :: "bcache \<Rightarrow> bcache \<Rightarrow> bool" where
  "keeps s s' \<longleftrightarrow> (\<forall>i < BCACHE_SLOTS. if bs_refcount (slot s i) > 0 then slot s' i = slot s i else bs_refcount (slot s' i) = 0)"

lemma keeps_trans: "keeps s s' \<Longrightarrow> keeps s' s'' \<Longrightarrow> keeps s s''"
  by (auto simp: keeps_def split: if_splits)

lemma keeps_refl: "bc_slots s' = bc_slots s \<Longrightarrow> keeps s s'"
  by (simp add: keeps_def)

lemma keeps_set: "i < length (bc_slots s) \<Longrightarrow> bs_refcount (slot s i) = 0 \<Longrightarrow> bs_refcount b = 0 \<Longrightarrow> keeps s (set_slot i b s)"
  by (simp add: keeps_def slot_set_slot)

section \<open>Reading ahead\<close>

definition held_ok :: "nat set \<Rightarrow> bcache \<Rightarrow> bool" where
  "held_ok W s \<longleftrightarrow> (\<forall>i \<in> W. i < BCACHE_SLOTS \<and> bs_refcount (slot s i) > 0)"

lemma keeps_held: "keeps s s' \<Longrightarrow> held_ok W s \<Longrightarrow> held_ok W s'"
  by (auto simp: keeps_def held_ok_def split: if_splits)

lemma evict_keeps: "i < length (bc_slots s) \<Longrightarrow> bs_refcount (slot s i) = 0 \<Longrightarrow> keeps s (evict i s)"
  by (simp add: keeps_def evict_slot)

lemma evict_length [simp]: "length (bc_slots (evict i s)) = length (bc_slots s)"
  by (simp add: evict_def Let_def)

lemma fill_keeps: "i < length (bc_slots s) \<Longrightarrow> bs_refcount (slot s i) = 0 \<Longrightarrow> keeps s (fill i d l data 0 s)"
  by (simp add: keeps_def fill_slot)

text \<open>One sector that was read ahead is parked in a clean victim.\<close>

lemma park_one:
  assumes ok: "bc_ok devs W s" and W: "held_ok W s" and d: "d \<noteq> 0" and v: "pick_victim s = Some v" "\<not> (bs_valid (slot s v) \<and> bs_dirty (slot s v))"
    and free: "\<And>i. \<not> cached s i d l" and data: "data = bc_disk s d l"
  shows "bc_ok devs W (fill v d l data 0 (evict v s))" and "view (fill v d l data 0 (evict v s)) = view s" and "keeps s (fill v d l data 0 (evict v s))"
    and "\<And>i k. cached (fill v d l data 0 (evict v s)) i d k \<Longrightarrow> k = l \<or> cached s i d k"
proof -
  let ?e = "evict v s"
  have v': "v < BCACHE_SLOTS" "bs_refcount (slot s v) = 0" "v < length (bc_slots s)" using pick_victim_ref [OF v(1)] sizesD(1) [OF bc_okD(1) [OF ok]] by simp_all
  then have "v \<notin> W" using W by (auto simp: held_ok_def)
  then have e: "bc_ok devs W ?e" "view ?e = view s" "\<And>j a b. cached ?e j a b \<longleftrightarrow> cached s j a b \<and> j \<noteq> v" using evict_ok [OF ok v'(1)] v(2) by auto
  have inv: "\<not> bs_valid (slot ?e v)" "bs_refcount (slot ?e v) = 0" "\<And>j. \<not> cached ?e j d l" using evict_slot [OF v'(3)] v'(2) e(3) free by auto
  have data': "length data = BC_SECTOR" "data = bc_disk ?e d l" using data sizesD(3) [OF bc_okD(1) [OF ok]] by simp_all
  note F = fill_ok [where W' = W, OF e(1) v'(1) inv(1) d data'(1) inv(3)]
  show "bc_ok devs W (fill v d l data 0 ?e)" using F(1) data'(2) by simp
  have "view s d l = data" using view_disk [OF ok, of d l] free data by simp
  then show "view (fill v d l data 0 ?e) = view s" using F(3) data'(2) e(2) by (simp add: fun_upd_idem)
  show "keeps s (fill v d l data 0 ?e)"
    using keeps_trans [OF evict_keeps [OF v'(3,2)] fill_keeps] inv(2) v'(3) by simp
  show "\<And>i k. cached (fill v d l data 0 ?e) i d k \<Longrightarrow> k = l \<or> cached s i d k" using F(2) data'(2) e(3) by auto
qed

lemma park_ok:
  assumes "bc_ok devs W s" and "held_ok W s" and "d \<noteq> 0" and "distinct (map (\<lambda>j. l + of_nat j) js)"
    and "\<And>j. j \<in> set js \<Longrightarrow> take BC_SECTOR (drop (j * BC_SECTOR) (bc_ra_buf s)) = bc_disk s d (l + of_nat j) \<and> (\<forall>i. \<not> cached s i d (l + of_nat j))"
  shows "bc_ok devs W (ra_park d l b js s) \<and> view (ra_park d l b js s) = view s \<and> keeps s (ra_park d l b js s) \<and>
    bc_disk (ra_park d l b js s) = bc_disk s \<and> bc_ra_buf (ra_park d l b js s) = bc_ra_buf s \<and> bc_init (ra_park d l b js s) = bc_init s \<and>
    (\<forall>i k. cached (ra_park d l b js s) i d k \<longrightarrow> k \<in> (\<lambda>j. l + of_nat j) ` set js \<or> cached s i d k)"
  using assms
proof (induction js arbitrary: s)
  case (Cons j js)
  show ?case
  proof (cases "\<exists>v. pick_victim s = Some v \<and> v \<noteq> b \<and> \<not> (bs_valid (slot s v) \<and> bs_dirty (slot s v))")
    case True
    then obtain v where v: "pick_victim s = Some v" "v \<noteq> b" "\<not> (bs_valid (slot s v) \<and> bs_dirty (slot s v))" by blast
    let ?s = "fill v d (l + of_nat j) (take BC_SECTOR (drop (j * BC_SECTOR) (bc_ra_buf s))) 0 (evict v s)"
    have "\<And>i. \<not> cached s i d (l + of_nat j)" "take BC_SECTOR (drop (j * BC_SECTOR) (bc_ra_buf s)) = bc_disk s d (l + of_nat j)" using Cons.prems(5) [of j] by simp_all
    note P = park_one [OF Cons.prems(1-3) v(1,3) this]
    have "l + of_nat j \<notin> (\<lambda>j. l + of_nat j) ` set js" using Cons.prems(4) by (simp only: list.map distinct.simps list.set_map) simp
    then have "l + of_nat k \<noteq> l + of_nat j" if "k \<in> set js" for k using that by (metis (mono_tags, lifting) imageI)
    then have free: "\<not> cached ?s i d (l + of_nat k)" if "k \<in> set js" for i k
      using P(4) [of i "l + of_nat k"] Cons.prems(5) [of k] that by (metis list.set_intros(2))
    have "held_ok W ?s" using keeps_held [OF P(3) Cons.prems(2)] .
    note IH = Cons.IH [OF P(1) this Cons.prems(3)]
    have "ra_park d l b (j # js) s = ra_park d l b js ?s" using v by auto
    moreover have R: "bc_ok devs W (ra_park d l b js ?s) \<and> view (ra_park d l b js ?s) = view ?s \<and> keeps ?s (ra_park d l b js ?s) \<and>
        bc_disk (ra_park d l b js ?s) = bc_disk s \<and> bc_ra_buf (ra_park d l b js ?s) = bc_ra_buf s \<and> bc_init (ra_park d l b js ?s) = bc_init s \<and>
        (\<forall>i k. cached (ra_park d l b js ?s) i d k \<longrightarrow> k \<in> (\<lambda>j. l + of_nat j) ` set js \<or> cached ?s i d k)"
      using IH Cons.prems(4,5) free by simp
    moreover have "\<forall>i k. cached (ra_park d l b js ?s) i d k \<longrightarrow> k \<in> (\<lambda>j. l + of_nat j) ` set (j # js) \<or> cached s i d k"
      using R P(4) unfolding list.set image_insert by blast
    ultimately show ?thesis using P(2) keeps_trans [OF P(3)] by (simp only: simp_thms)
  next
    case False
    then have "ra_park d l b (j # js) s = s" by (auto split: option.splits)
    then show ?thesis using Cons.prems by (simp add: keeps_refl)
  qed
qed (simp add: keeps_refl)

lemma concat_length: "\<forall>x \<in> set xs. length x = n \<Longrightarrow> length (concat xs) = length xs * n"
  by (induction xs) auto

lemma concat_slice:
  "\<forall>x \<in> set xs. length x = n \<Longrightarrow> j < length xs \<Longrightarrow> take n (drop (j * n) (concat xs @ ys)) = xs ! j"
proof (induction xs arbitrary: j)
  case (Cons x xs)
  then show ?case by (cases j) (auto simp: drop_append)
qed simp

lemma ra_length_free:
  shows "ra_length devs d l s \<le> BC_PER_FRAME" and "j \<in> set [1..<ra_length devs d l s] \<Longrightarrow> find_entry d (l + of_nat j) s = None"
proof -
  let ?P = "\<lambda>k. l + of_nat k < bd_sector_count (devs d) \<and> find_entry d (l + of_nat k) s = None"
  let ?xs = "takeWhile ?P [1..<BC_PER_FRAME]"
  have len: "length ?xs \<le> length [1..<BC_PER_FRAME]" by (rule length_takeWhile_le)
  then show "ra_length devs d l s \<le> BC_PER_FRAME" by (simp add: ra_length_def BC_PER_FRAME_def FRAME_SIZE_def BC_SECTOR_def)
  assume "j \<in> set [1..<ra_length devs d l s]"
  then have j: "j - 1 < length ?xs" "1 \<le> j" by (auto simp: ra_length_def)
  then have "?xs ! (j - 1) = j" using len takeWhile_nth [OF j(1)] by (simp del: upt_Suc)
  then show "find_entry d (l + of_nat j) s = None" using set_takeWhileD [OF nth_mem [OF j(1)]] by simp
qed

lemma of_nat_small: "i < 2 ^ 64 \<Longrightarrow> j < 2 ^ 64 \<Longrightarrow> (of_nat i :: u64) = of_nat j \<longleftrightarrow> i = j"
  by (simp add: word_of_nat_eq_iff take_bit_nat_eq_self)

text \<open>A slot that is being filled: free, not held, and its sector is nowhere in the cache.\<close>

definition filling :: "devices \<Rightarrow> nat set \<Rightarrow> nat \<Rightarrow> u64 \<Rightarrow> u64 \<Rightarrow> bcache \<Rightarrow> bool" where
  "filling devs W b d l s \<longleftrightarrow> bc_ok devs W s \<and> held_ok W s \<and> d \<noteq> 0 \<and> b < BCACHE_SLOTS \<and> \<not> bs_valid (slot s b) \<and>
     bs_refcount (slot s b) = 0 \<and> (\<forall>i. \<not> cached s i d l)"

lemma filling_set:
  assumes "filling devs W b d l s" and "\<not> bs_valid v" "length (bs_data v) = BC_SECTOR" "bs_dev v = bs_dev (slot s b)" "bs_lba v = bs_lba (slot s b)"
  shows "bc_ok devs W (set_slot b v s)" and "view (set_slot b v s) = view s" and "\<And>j e k. cached (set_slot b v s) j e k = cached s j e k"
    and "slot (set_slot b v s) j = (if j = b then v else slot s j)"
proof -
  have f: "bc_ok devs W s" "b < BCACHE_SLOTS" "\<not> bs_valid (slot s b)" using assms(1) by (simp_all add: filling_def)
  then have len: "b < length (bc_slots s)" using sizesD(1) [OF bc_okD(1)] by simp
  have "slot_ok devs W (set_slot b v s) b" using assms(2,3) by (simp add: slot_ok_def slot_set_slot [OF len])
  then show ok: "bc_ok devs W (set_slot b v s)" and "\<And>j e k. cached (set_slot b v s) j e k = cached s j e k"
    using meta_ok [OF f(1,2), of v W] assms f by simp_all
  show "view (set_slot b v s) = view s" using meta_view [OF f(1) ok f(2)] assms f by simp
  show "slot (set_slot b v s) j = (if j = b then v else slot s j)" by (rule slot_set_slot [OF len])
qed

lemma filling_data:
  assumes f: "filling devs W b d l s" and "length data = BC_SECTOR"
  shows "filling devs W b d l (set_slot b ((slot s b)\<lparr>bs_data := data\<rparr>) s)" and "view (set_slot b ((slot s b)\<lparr>bs_data := data\<rparr>) s) = view s"
    and "keeps s (set_slot b ((slot s b)\<lparr>bs_data := data\<rparr>) s)" and "bs_data (slot (set_slot b ((slot s b)\<lparr>bs_data := data\<rparr>) s) b) = data"
proof -
  have n: "\<not> bs_valid (slot s b)" "bs_refcount (slot s b) = 0" "held_ok W s" "b < BCACHE_SLOTS" "bc_ok devs W s" using f by (simp_all add: filling_def)
  have len: "b < length (bc_slots s)" using sizesD(1) [OF bc_okD(1)] n by simp
  note S = filling_set [OF f, of "(slot s b)\<lparr>bs_data := data\<rparr>"]
  show k: "keeps s (set_slot b ((slot s b)\<lparr>bs_data := data\<rparr>) s)" using len n by (intro keeps_set) simp_all
  show "filling devs W b d l (set_slot b ((slot s b)\<lparr>bs_data := data\<rparr>) s)"
    using S n f assms(2) keeps_held [OF k n(3)] by (simp add: filling_def)
  show "view (set_slot b ((slot s b)\<lparr>bs_data := data\<rparr>) s) = view s" "bs_data (slot (set_slot b ((slot s b)\<lparr>bs_data := data\<rparr>) s) b) = data"
    using S n assms(2) by simp_all
qed

lemma quiet_filling: "quiet s s' \<Longrightarrow> filling devs W b d l s' = filling devs W b d l s"
  by (simp add: filling_def quiet_ok quiet_cached held_ok_def quiet_slot)

lemma readahead_park:
  assumes f: "filling devs W b d l s" and ra: "\<And>j. j < k \<Longrightarrow> take BC_SECTOR (drop (j * BC_SECTOR) (bc_ra_buf s)) = bc_disk s d (l + of_nat j)"
    and k: "1 \<le> k" "k \<le> BC_PER_FRAME" and free: "\<And>j. j \<in> set [1..<k] \<Longrightarrow> find_entry d (l + of_nat j) s = None"
    and s': "s' = ra_park d l b [1..<k] (set_slot b ((slot s b)\<lparr>bs_data := take BC_SECTOR (bc_ra_buf s), bs_refcount := 1\<rparr>) s)"
  shows "filling devs W b d l (set_slot b ((slot s' b)\<lparr>bs_refcount := 0\<rparr>) s')" and "view (set_slot b ((slot s' b)\<lparr>bs_refcount := 0\<rparr>) s') = view s"
    and "keeps s (set_slot b ((slot s' b)\<lparr>bs_refcount := 0\<rparr>) s')" and "bs_data (slot (set_slot b ((slot s' b)\<lparr>bs_refcount := 0\<rparr>) s') b) = bc_disk s d l"
    and "bc_disk s' = bc_disk s" and "bc_init s' = bc_init s"
proof -
  let ?v = "(slot s b)\<lparr>bs_data := take BC_SECTOR (bc_ra_buf s), bs_refcount := 1\<rparr>"
  let ?s = "set_slot b ?v s" and ?r = "(slot s' b)\<lparr>bs_refcount := 0\<rparr>"
  have F: "bc_ok devs W s" "held_ok W s" "d \<noteq> 0" "b < BCACHE_SLOTS" "\<not> bs_valid (slot s b)" "bs_refcount (slot s b) = 0" "\<And>i. \<not> cached s i d l"
    using f by (simp_all add: filling_def)
  have ra0: "take BC_SECTOR (bc_ra_buf s) = bc_disk s d l" using ra [of 0] k by simp
  then have len: "length (take BC_SECTOR (bc_ra_buf s)) = BC_SECTOR" using sizesD(3) [OF bc_okD(1) [OF F(1)]] by metis
  note S = filling_set [OF f, of ?v]
  have ok: "bc_ok devs W ?s" "view ?s = view s" "held_ok W ?s" "slot ?s b = ?v" using S F len by (auto simp: held_ok_def)
  have small: "j < 2 ^ 64" if "j \<in> set [1..<k] \<or> j = 0" for j using that k(2) by (auto simp: BC_PER_FRAME_def FRAME_SIZE_def BC_SECTOR_def)
  have dist: "distinct (map (\<lambda>j. l + of_nat j) [1..<k])" using small by (auto simp: distinct_map inj_on_def of_nat_small)
  have not0: "l \<notin> (\<lambda>j. l + of_nat j) ` set [1..<k]" using of_nat_small [of 0] small by force
  have "take BC_SECTOR (drop (j * BC_SECTOR) (bc_ra_buf ?s)) = bc_disk ?s d (l + of_nat j) \<and> (\<forall>i. \<not> cached ?s i d (l + of_nat j))" if "j \<in> set [1..<k]" for j
    using ra [of j] free [OF that] that find_entry_None [OF F(1)] S(3) F len by simp
  note P = park_ok [OF ok(1,3) F(3) dist this, of b, folded s']
  have b: "slot s' b = ?v" using P F(4) ok(4) by (auto simp: keeps_def split: if_splits)
  have len': "b < length (bc_slots s')" using P F(4) sizesD(1) [OF bc_okD(1)] by metis
  have r: "bs_valid ?r = bs_valid (slot s' b)" "\<not> bs_valid ?r" "length (bs_data ?r) = BC_SECTOR" using b F(5) len by simp_all
  have "slot_ok devs W (set_slot b ?r s') b" using r by (simp add: slot_ok_def slot_set_slot [OF len'])
  then have ok': "bc_ok devs W (set_slot b ?r s')" and c: "\<And>j e m. cached (set_slot b ?r s') j e m = cached s' j e m"
    using meta_ok [of devs W s' b ?r W] P F(4) r by simp_all
  have sl: "slot (set_slot b ?r s') j = (if j = b then ?r else slot s' j)" for j by (rule slot_set_slot [OF len'])
  show kp: "keeps s (set_slot b ?r s')"
    unfolding keeps_def
  proof (intro allI impI)
    fix i
    assume i: "i < BCACHE_SLOTS"
    have "if bs_refcount (slot ?s i) > 0 then slot s' i = slot ?s i else bs_refcount (slot s' i) = 0" using P i unfolding keeps_def by blast
    moreover have "i \<noteq> b \<Longrightarrow> slot ?s i = slot s i" using S(4) F len by simp
    ultimately show "if bs_refcount (slot s i) > 0 then slot (set_slot b ?r s') i = slot s i else bs_refcount (slot (set_slot b ?r s') i) = 0"
      using F(6) by (cases "i = b") (auto simp: sl)
  qed
  have "\<not> cached ?s i d l" for i using S(3) F len by simp
  then have "\<not> cached s' i d l" for i using P not0 by blast
  then show "filling devs W b d l (set_slot b ?r s')" using ok' c r keeps_held [OF kp F(2)] F(3,4) by (simp add: filling_def sl)
  show "view (set_slot b ?r s') = view s" using meta_view [of devs W s' W b ?r] ok' P F(4) r ok(2) by simp
  show "bs_data (slot (set_slot b ?r s') b) = bc_disk s d l" using b ra0 by (simp add: slot_set_slot [OF len'])
  show "bc_disk s' = bc_disk s" "bc_init s' = bc_init s" using P by simp_all
qed

lemma readahead_ok:
  assumes f: "filling devs W b d l s" and r: "bc_readahead devs d l b s = (ok, s')"
  shows "filling devs W b d l s'" and "view s' = view s" and "keeps s s'" and "bc_disk s' = bc_disk s" and "bc_init s' = bc_init s"
    and "ok \<Longrightarrow> bs_data (slot s' b) = bc_disk s d l"
proof -
  let ?k = "ra_length devs d l s"
  obtain rd ra s1 where rd: "blk_read devs d l ?k (bc_ra_buf s) s = (rd, ra, s1)" by (cases "blk_read devs d l ?k (bc_ra_buf s) s")
  note B = blk_read_cases [OF rd]
  let ?s2 = "s1\<lparr>bc_ra_buf := ra, bc_ra_runs := bc_ra_runs s1 + 1, bc_ra_sectors := bc_ra_sectors s1 + of_nat ?k\<rparr>"
  have q: "quiet s (s1\<lparr>bc_ra_buf := ra\<rparr>)" "quiet s ?s2" using B(1-3) by (auto simp: quiet_def)
  have F: "bc_ok devs W s" "bs_refcount (slot s b) = 0" using f by (simp_all add: filling_def)
  have "filling devs W b d l s' \<and> view s' = view s \<and> keeps s s' \<and> bc_disk s' = bc_disk s \<and> bc_init s' = bc_init s \<and> (ok \<longrightarrow> bs_data (slot s' b) = bc_disk s d l)"
  proof (cases "?k = 1 \<or> \<not> rd")
    case True
    then have "\<not> ok" "s' = s \<or> s' = s1\<lparr>bc_ra_buf := ra\<rparr>" using r rd by (auto simp: bc_readahead_def Let_def split: if_splits)
    then show ?thesis using f q(1) quiet_filling [OF q(1)] quiet_view [OF q(1)] by (auto simp: quiet_def keeps_refl)
  next
    case False
    let ?xs = "map (\<lambda>j. bc_disk s d (l + of_nat j)) [0..<?k]"
    have k: "1 \<le> ?k" "?k \<le> BC_PER_FRAME" using ra_length_free(1) [of devs d l s] by (simp_all add: ra_length_def)
    have sz: "\<forall>x \<in> set ?xs. length x = BC_SECTOR" "length (bc_ra_buf s) = FRAME_SIZE" using sizesD [OF bc_okD(1) [OF F(1)]] by auto
    have "length (concat ?xs) \<le> FRAME_SIZE"
      using concat_length [OF sz(1)] k(2) by (simp add: BC_PER_FRAME_def FRAME_SIZE_def BC_SECTOR_def)
    then have ra: "ra = concat ?xs @ drop (length (concat ?xs)) (bc_ra_buf s)" using B(4) False sz(2) by (simp add: overlay_def)
    have slice: "take BC_SECTOR (drop (j * BC_SECTOR) (bc_ra_buf ?s2)) = bc_disk ?s2 d (l + of_nat j)" if "j < ?k" for j
    proof -
      have "take BC_SECTOR (drop (j * BC_SECTOR) ra) = ?xs ! j" by (subst ra, rule concat_slice [OF sz(1)]) (simp add: that)
      then show ?thesis using q(2) that by (simp add: quiet_def)
    qed
    have fr: "find_entry d (l + of_nat j) ?s2 = None" if "j \<in> set [1..<?k]" for j using ra_length_free(2) [OF that] quiet_find [OF q(2)] by simp
    let ?s4 = "ra_park d l b [1..<?k] (set_slot b ((slot ?s2 b)\<lparr>bs_data := take BC_SECTOR (bc_ra_buf ?s2), bs_refcount := 1\<rparr>) ?s2)"
    have "filling devs W b d l ?s2" using quiet_filling [OF q(2)] f by simp
    note R = readahead_park [OF this slice k fr refl]
    have "ok" and s': "s' = set_slot b ((slot ?s4 b)\<lparr>bs_refcount := 0\<rparr>) ?s4"
      using r rd False F(2) quiet_slot [OF q(2), of b] by (auto simp: bc_readahead_def Let_def)
    then show ?thesis using R quiet_view [OF q(2)] q(2) keeps_trans [OF keeps_refl [of ?s2 s]] by (simp add: quiet_def)
  qed
  then show "filling devs W b d l s'" "view s' = view s" "keeps s s'" "bc_disk s' = bc_disk s" "bc_init s' = bc_init s" "ok \<Longrightarrow> bs_data (slot s' b) = bc_disk s d l"
    by simp_all
qed

section \<open>Acquiring a buffer\<close>

lemma bring_in_ok:
  assumes f: "filling devs W b d l s" and r: "bring_in devs d l no_read b s = (ok, s')"
  shows "filling devs W b d l s'" and "view s' = view s" and "keeps s s'" and "bc_disk s' = bc_disk s" and "bc_init s' = bc_init s"
    and "length (bs_data (slot s' b)) = BC_SECTOR" and "ok \<Longrightarrow> bs_data (slot s' b) = (if no_read then replicate BC_SECTOR 0 else bc_disk s d l)"
proof -
  have "filling devs W b d l s' \<and> view s' = view s \<and> keeps s s' \<and> bc_disk s' = bc_disk s \<and> bc_init s' = bc_init s \<and>
    (ok \<longrightarrow> bs_data (slot s' b) = (if no_read then replicate BC_SECTOR 0 else bc_disk s d l))"
  proof (cases no_read)
    case True
    then show ?thesis using filling_data [OF f, of "replicate BC_SECTOR 0"] r by (auto simp: bring_in_def)
  next
    case False
    obtain got s1 where g: "bc_readahead devs d l b s = (got, s1)" by (cases "bc_readahead devs d l b s")
    note R = readahead_ok [OF f g]
    show ?thesis
    proof (cases got)
      case True
      then show ?thesis using R r g False by (auto simp: bring_in_def)
    next
      case no: False
      obtain rd data s2 where rd: "blk_read devs d l 1 (bs_data (slot s1 b)) s1 = (rd, data, s2)" by (cases "blk_read devs d l 1 (bs_data (slot s1 b)) s1")
      note B = blk_read_cases [OF rd]
      have ok1: "bc_ok devs W s1" "b < BCACHE_SLOTS" using R(1) by (simp_all add: filling_def)
      have len: "length (bs_data (slot s1 b)) = BC_SECTOR" "length (bc_disk s1 d l) = BC_SECTOR"
        using bc_okD(4) [OF ok1] sizesD(3) [OF bc_okD(1) [OF ok1(1)]] by (simp_all add: slot_ok_def)
      have data: "rd \<Longrightarrow> data = bc_disk s d l" using B(4) len R(4) by (simp add: overlay_full)
      have f2: "filling devs W b d l s2" using quiet_filling [OF B(1)] R(1) by simp
      have s': "s' = set_slot b ((slot s2 b)\<lparr>bs_data := data\<rparr>) s2" "ok = rd" using r g rd False no by (simp_all add: bring_in_def)
      note D = filling_data [OF f2, of data, folded s'(1)]
      have "ok \<Longrightarrow> bs_data (slot s' b) = bc_disk s d l" using D(4) data s'(2) B(2) len(1) by simp
      moreover have "bc_disk s' = bc_disk s" "bc_init s' = bc_init s" using s'(1) B(1) R(4,5) by (simp_all add: quiet_def)
      moreover have "keeps s s'" using keeps_trans [OF R(3) keeps_trans [OF keeps_refl [of s2 s1] D(3)]] B len(1) by (simp add: quiet_def)
      ultimately show ?thesis using D(1,2) B(2) len(1) False R(2) quiet_view [OF B(1)] by simp
    qed
  qed
  then show g: "filling devs W b d l s'" "view s' = view s" "keeps s s'" "bc_disk s' = bc_disk s" "bc_init s' = bc_init s"
    "ok \<Longrightarrow> bs_data (slot s' b) = (if no_read then replicate BC_SECTOR 0 else bc_disk s d l)" by simp_all
  show "length (bs_data (slot s' b)) = BC_SECTOR" using g(1) bc_okD(4) [of devs W s' b] by (simp add: filling_def slot_ok_def)
qed

lemma clean_victim_ok:
  assumes ok: "bc_ok devs W s" and b: "b < BCACHE_SLOTS" and r: "clean_victim devs b s = (done, s')"
  shows "bc_ok devs W s'" and "view s' = view s" and "bc_init s' = bc_init s" and "\<And>i d l. cached s' i d l = cached s i d l"
    and "\<And>i. slot s' i = slot s i \<or> i = b \<and> slot s' b = (slot s b)\<lparr>bs_dirty := False\<rparr>" and "done \<Longrightarrow> bs_valid (slot s' b) \<Longrightarrow> \<not> bs_dirty (slot s' b)"
proof -
  let ?v = "slot s b"
  have len: "b < length (bc_slots s)" using sizesD(1) [OF bc_okD(1) [OF ok]] b by simp
  have "bc_ok devs W s' \<and> view s' = view s \<and> bc_init s' = bc_init s \<and> (\<forall>i. slot s' i = slot s i \<or> i = b \<and> slot s' b = ?v\<lparr>bs_dirty := False\<rparr>) \<and>
    (done \<longrightarrow> bs_valid (slot s' b) \<longrightarrow> \<not> bs_dirty (slot s' b))"
  proof (cases "bs_valid ?v \<and> bs_dirty ?v")
    case True
    then have w: "bs_dev ?v \<noteq> 0" "bd_write (devs (bs_dev ?v))" using bc_okD(4) [OF ok b] by (simp_all add: slot_ok_def)
    have c: "cached s b (bs_dev ?v) (bs_lba ?v)" using True b by (simp add: cached_def)
    obtain d s1 where wr: "blk_write1 devs (bs_dev ?v) (bs_lba ?v) (bs_data ?v) s = (d, s1)" by (cases "blk_write1 devs (bs_dev ?v) (bs_lba ?v) (bs_data ?v) s")
    note R = write1_ok [OF ok c _ wr]
    have c1: "cached s1 b (bs_dev ?v) (bs_lba ?v)" using c R(3) True by (simp add: cached_def)
    show ?thesis
    proof (cases d)
      case False
      then show ?thesis using R(1-3,6) r wr True w by (simp add: clean_victim_def)
    next
      case d: True
      note C = clean_ok [OF R(1) c1, of "bc_flushes s1 + 1"]
      show ?thesis using C R(2-4,6) r wr True w d len by (auto simp: clean_victim_def slot_set_slot split: if_splits)
    qed
  next
    case False
    then have "s' = s" "done" using r by (auto simp: clean_victim_def)
    then show ?thesis using ok False by simp
  qed
  then show "bc_ok devs W s'" "view s' = view s" "bc_init s' = bc_init s" and sl: "\<And>i. slot s' i = slot s i \<or> i = b \<and> slot s' b = ?v\<lparr>bs_dirty := False\<rparr>"
    and "done \<Longrightarrow> bs_valid (slot s' b) \<Longrightarrow> \<not> bs_dirty (slot s' b)" by simp_all
  show "cached s' i d l = cached s i d l" for i d l using sl [of i] by (auto simp: cached_def)
qed

text \<open>The whole invariant: consistent slots, held slots that are valid, unmarked slots that are held.\<close>

definition bc_inv :: "devices \<Rightarrow> nat set \<Rightarrow> bcache \<Rightarrow> bool" where
  "bc_inv devs W s \<longleftrightarrow> bc_ok devs W s \<and> held_ok W s \<and> (\<forall>i < BCACHE_SLOTS. bs_refcount (slot s i) > 0 \<longrightarrow> bs_valid (slot s i))"

lemma bc_invD: "bc_inv devs W s \<Longrightarrow> bc_ok devs W s" "bc_inv devs W s \<Longrightarrow> held_ok W s"
  "bc_inv devs W s \<Longrightarrow> i < BCACHE_SLOTS \<Longrightarrow> bs_refcount (slot s i) > 0 \<Longrightarrow> bs_valid (slot s i)"
  by (simp_all add: bc_inv_def)

lemma keeps_inv: "bc_inv devs W s \<Longrightarrow> keeps s s' \<Longrightarrow> bc_ok devs W s' \<Longrightarrow> bc_inv devs W s'"
  using keeps_held [of s s' W] by (auto simp: bc_inv_def keeps_def split: if_splits)

text \<open>What a successful acquisition does to the slots: the sector's slot gains a reference, the others are kept.\<close>

definition acquired :: "nat \<Rightarrow> u64 \<Rightarrow> u64 \<Rightarrow> bcache \<Rightarrow> bcache \<Rightarrow> bool" where
  "acquired i d l s s' \<longleftrightarrow> cached s' i d l \<and> bs_refcount (slot s' i) = bs_refcount (slot s i) + 1 \<and>
     (bs_refcount (slot s i) > 0 \<longrightarrow> bs_data (slot s' i) = bs_data (slot s i) \<and> bs_dirty (slot s' i) = bs_dirty (slot s i)
        \<and> bs_dev (slot s i) = d \<and> bs_lba (slot s i) = l) \<and>
     (\<forall>j < BCACHE_SLOTS. j \<noteq> i \<longrightarrow> (if bs_refcount (slot s j) > 0 then slot s' j = slot s j else bs_refcount (slot s' j) = 0))"

lemma acquired_inv: "bc_inv devs W s \<Longrightarrow> acquired i d l s s' \<Longrightarrow> bc_ok devs W' s' \<Longrightarrow> W' \<subseteq> insert i W \<Longrightarrow> bc_inv devs W' s'"
  unfolding bc_inv_def held_ok_def acquired_def cached_def by (metis insertE less_numeral_extra(3) subsetD zero_less_Suc Suc_eq_plus1)

lemma hit_ok:
  assumes inv: "bc_inv devs W s" and i: "cached s i d l"
    and s': "s' = set_slot i ((slot s i)\<lparr>bs_refcount := bs_refcount (slot s i) + 1, bs_tick := t\<rparr>) (s\<lparr>bc_hits := h, bc_lru := n\<rparr>)"
  shows "bc_ok devs W s'" and "view s' = view s" and "acquired i d l s s'"
proof -
  let ?s = "s\<lparr>bc_hits := h, bc_lru := n\<rparr>" and ?b = "(slot s i)\<lparr>bs_refcount := bs_refcount (slot s i) + 1, bs_tick := t\<rparr>"
  have q: "quiet s ?s" by (simp add: quiet_def)
  note ok = bc_invD(1) [OF inv]
  have i': "i < BCACHE_SLOTS" "i < length (bc_slots ?s)" using i sizesD(1) [OF bc_okD(1) [OF ok]] by (simp_all add: cached_def)
  note sl = slot_set_slot [OF i'(2), of ?b, folded s']
  have "slot_ok devs W s' i" using bc_okD(4) [OF ok i'(1)] by (simp add: slot_ok_def sl) (simp add: s')
  then show o: "bc_ok devs W s'" using meta_ok(1) [of devs W ?s i ?b W] ok quiet_ok [OF q] i'(1) s' by simp
  show "view s' = view s" using meta_view [of devs W ?s W i ?b] o ok quiet_ok [OF q] quiet_view [OF q] i'(1) s' by simp
  show "acquired i d l s s'" using i by (simp add: acquired_def sl cached_def)
qed

text \<open>The victim is cleaned and dropped: its slot can be filled.\<close>

lemma victim_filling:
  assumes inv: "bc_inv devs W s" and d: "d \<noteq> 0" and free: "\<And>i. \<not> cached s i d l" and b: "pick_victim s = Some b" and cl: "clean_victim devs b s = (True, s1)"
  shows "filling devs W b d l (evict b s1)" and "view (evict b s1) = view s" and "keeps s (evict b s1)" and "bc_init (evict b s1) = bc_init s"
proof -
  note ok = bc_invD(1) [OF inv]
  have b': "b < BCACHE_SLOTS" "bs_refcount (slot s b) = 0" using pick_victim_ref [OF b] sizesD(1) [OF bc_okD(1) [OF ok]] by simp_all
  note C = clean_victim_ok [OF ok b'(1) cl]
  have r: "bs_refcount (slot s1 i) = bs_refcount (slot s i)" for i using C(5) [of i] by auto
  have len: "b < length (bc_slots s1)" using sizesD(1) [OF bc_okD(1) [OF C(1)]] b' by simp
  have "0 < bs_refcount (slot s i) \<Longrightarrow> slot s1 i = slot s i" for i using C(5) [of i] b'(2) by auto
  then have k: "keeps s s1" by (simp add: keeps_def r)
  have bW: "b \<notin> W" using bc_invD(2) [OF inv] b'(2) by (auto simp: held_ok_def)
  note E = evict_ok [OF C(1) b'(1)]
  have e: "bc_ok devs W (evict b s1)" "view (evict b s1) = view s" "\<And>i. \<not> cached (evict b s1) i d l" using E C(2,4,6) bW free by auto
  show kk: "keeps s (evict b s1)" using keeps_trans [OF k evict_keeps [OF len]] r b'(2) by simp
  show "filling devs W b d l (evict b s1)"
    using e d b' keeps_held [OF kk bc_invD(2) [OF inv]] evict_slot [OF len] r by (simp add: filling_def)
  show "view (evict b s1) = view s" "bc_init (evict b s1) = bc_init s" using e C(3) by simp_all
qed

lemma miss_fill:
  assumes inv: "bc_inv devs W s" and f: "filling devs W b d l s2" and v: "view s2 = view s" "keeps s s2" and r: "bs_refcount (slot s b) = 0"
    and data: "length (bs_data (slot s2 b)) = BC_SECTOR" "bs_data (slot s2 b) = (if no_read then replicate BC_SECTOR 0 else bc_disk s2 d l)"
    and s': "s' = fill b d l (bs_data (slot s2 b)) 1 s2"
  shows "bc_ok devs (if no_read then insert b W else W) s'" and "acquired b d l s s'"
    and "view s' = (if no_read then (view s)(d := (view s d)(l := replicate BC_SECTOR 0)) else view s)"
proof -
  have F: "bc_ok devs W s2" "d \<noteq> 0" "b < BCACHE_SLOTS" "\<not> bs_valid (slot s2 b)" "\<And>i. \<not> cached s2 i d l" using f by (simp_all add: filling_def)
  have len: "b < length (bc_slots s2)" using sizesD(1) [OF bc_okD(1) [OF F(1)]] F(3) by simp
  note L = fill_ok [where W' = "if no_read then insert b W else W" and r = 1, OF F(1,3,4,2) data(1) F(5), folded s']
  show "bc_ok devs (if no_read then insert b W else W) s'" using L(1) data(2) subset_insertI [of W b] by (simp split: if_splits)
  have "view s2 d l = bc_disk s2 d l" using view_disk [OF F(1,5)] .
  then show "view s' = (if no_read then (view s)(d := (view s d)(l := replicate BC_SECTOR 0)) else view s)"
    using L(3) data(2) v(1) subset_insertI [of W b] by (simp add: fun_upd_idem split: if_splits)
  have sl: "slot s' j = (if j = b then \<lparr>bs_dev = d, bs_lba = l, bs_data = bs_data (slot s2 b), bs_refcount = 1, bs_dirty = False,
      bs_tick = bc_lru s2 + 1, bs_valid = True\<rparr> else slot s2 j)" for j using fill_slot [OF len] s' by simp
  show "acquired b d l s s'" using v(2) r F(3) by (auto simp: acquired_def sl cached_def keeps_def)
qed

text \<open>Acquiring a buffer, in every case.\<close>

lemma acquire_ok:
  assumes inv: "bc_inv devs W s" and g: "bcache_get_unlocked devs d l no_read s = (r, s')"
  shows "case r of
      None \<Rightarrow> bc_inv devs W s' \<and> view s' = view s \<and> keeps s s'
    | Some i \<Rightarrow> acquired i d l s s' \<and> bc_inv devs (if no_read \<and> find_entry d l s = None then insert i W else W) s' \<and>
        view s' = (if no_read \<and> find_entry d l s = None then (view s)(d := (view s d)(l := replicate BC_SECTOR 0)) else view s)"
proof (cases "\<not> bc_init s \<or> d = 0 \<or> \<not> bd_read (devs d) \<or> unat (bd_sector_size (devs d)) > BC_SECTOR")
  case True
  then have "r = None" "s' = s" using g by (auto simp: bcache_get_unlocked_def split: if_splits)
  then show ?thesis using inv by (simp add: keeps_refl)
next
  case False
  note ok = bc_invD(1) [OF inv]
  show ?thesis
  proof (cases "find_entry d l s")
    case (Some i)
    then have s': "r = Some i" "s' = set_slot i ((slot s i)\<lparr>bs_refcount := bs_refcount (slot s i) + 1, bs_tick := bc_lru s + 1\<rparr>)
        (s\<lparr>bc_hits := bc_hits s + 1, bc_lru := bc_lru s + 1\<rparr>)"
      using g False by (auto simp: bcache_get_unlocked_def)
    have "cached s i d l" using Some find_entry_Some [OF ok] by simp
    note H = hit_ok [OF inv this s'(2)]
    show ?thesis using H s'(1) Some acquired_inv [OF inv H(3,1)] by auto
  next
    case None
    let ?s = "s\<lparr>bc_misses := bc_misses s + 1\<rparr>"
    have q: "quiet s ?s" by (simp add: quiet_def)
    have inv0: "bc_inv devs W ?s" using inv quiet_ok [OF q] by (simp add: bc_inv_def held_ok_def)
    have free: "\<And>i. \<not> cached ?s i d l" using None find_entry_None [OF ok] quiet_cached [OF q] by simp
    note g' = g [unfolded bcache_get_unlocked_def] False None
    show ?thesis
    proof (cases "pick_victim ?s")
      case None
      then have "r = None" "s' = ?s" using g' by (auto simp: Let_def)
      then show ?thesis using inv0 quiet_view [OF q] by (simp add: keeps_refl)
    next
      case (Some b)
      have b: "b < BCACHE_SLOTS" "bs_refcount (slot s b) = 0" using pick_victim_ref [OF Some] sizesD(1) [OF bc_okD(1) [OF ok]] by simp_all
      obtain cl s1 where cl: "clean_victim devs b ?s = (cl, s1)" by (cases "clean_victim devs b ?s")
      note C = clean_victim_ok [OF bc_invD(1) [OF inv0] b(1) cl]
      show ?thesis
      proof (cases cl)
        case no: False
        have "0 < bs_refcount (slot s i) \<Longrightarrow> slot s1 i = slot s i" "bs_refcount (slot s1 i) = bs_refcount (slot s i)" for i using C(5) [of i] b(2) by auto
        then have "keeps s s1" by (simp add: keeps_def)
        moreover have "r = None" "s' = s1" using g' Some cl no by (auto simp: Let_def)
        ultimately show ?thesis using keeps_inv [OF inv] C(1,2) quiet_view [OF q] by simp
      next
        case cl_ok: True
        have d: "d \<noteq> 0" using False by simp
        have "clean_victim devs b ?s = (True, s1)" using cl cl_ok by simp
        note V = victim_filling [OF inv0 d free Some this]
        obtain bi s2 where bi: "bring_in devs d l no_read b (evict b s1) = (bi, s2)" by (cases "bring_in devs d l no_read b (evict b s1)")
        note B = bring_in_ok [OF V(1) bi]
        have ks: "keeps s s2" using keeps_trans [OF keeps_refl [of ?s s] keeps_trans [OF V(3) B(3)]] by simp
        show ?thesis
        proof (cases bi)
          case no: False
          let ?v = "(slot s2 b)\<lparr>bs_valid := False\<rparr>"
          have s': "r = None" "s' = set_slot b ?v s2" using g' Some cl cl_ok bi no by (auto simp: Let_def)
          have nv: "?v = slot s2 b" using B(1) by (simp add: filling_def)
          have "s' = s2" using s'(2) unfolding nv by (simp add: set_slot_def)
          moreover have "bc_ok devs W s2" using B(1) by (simp add: filling_def)
          ultimately show ?thesis using s'(1) keeps_inv [OF inv ks] ks B(2) V(2) quiet_view [OF q] by simp
        next
          case yes: True
          have s': "r = Some b" "s' = fill b d l (bs_data (slot s2 b)) 1 s2" using g' Some cl cl_ok bi yes by (auto simp: Let_def)
          have data: "bs_data (slot s2 b) = (if no_read then replicate BC_SECTOR 0 else bc_disk s2 d l)" using B(4,7) yes by simp
          have "view s2 = view s" using B(2) V(2) quiet_view [OF q] by simp
          note M = miss_fill [OF inv B(1) this ks b(2) B(6) data s'(2)]
          show ?thesis using M s'(1) None acquired_inv [OF inv M(2,1)] subset_insertI [of W b] by (simp split: if_splits)
        qed
      qed
    qed
  qed
qed

section \<open>Writing back and dropping\<close>

text \<open>Slots that differ in nothing but a cleared mark.\<close>

definition unmarked :: "bcache \<Rightarrow> bcache \<Rightarrow> bool" where
  "unmarked s s' \<longleftrightarrow> (\<forall>i < BCACHE_SLOTS. slot s' i = slot s i \<or> slot s' i = (slot s i)\<lparr>bs_dirty := False\<rparr>)"

lemma unmarked_inv: "bc_inv devs W s \<Longrightarrow> unmarked s s' \<Longrightarrow> bc_ok devs W s' \<Longrightarrow> bc_inv devs W s'"
  by (fastforce simp: bc_inv_def held_ok_def unmarked_def)

lemma unmarked_trans: "unmarked s s' \<Longrightarrow> unmarked s' s'' \<Longrightarrow> unmarked s s''"
  unfolding unmarked_def by (metis (no_types, lifting) bcache_buf.surjective bcache_buf.update_convs(5))

text \<open>A pass over the slots \<open>js\<close>: nothing changes for readers, and without failures no dirty slot of the
  device is left among them.\<close>

lemma sync_loop_ok:
  assumes "bc_ok devs W s" and "sync_loop devs d js n s = (failed, s')" and "set js \<subseteq> {..<BCACHE_SLOTS}"
  shows "bc_ok devs W s' \<and> view s' = view s \<and> unmarked s s' \<and> bc_init s' = bc_init s \<and> n \<le> failed \<and>
    (failed = n \<longrightarrow> (\<forall>i \<in> set js. bs_valid (slot s' i) \<longrightarrow> bs_dev (slot s' i) = d \<longrightarrow> \<not> bs_dirty (slot s' i)))"
  using assms
proof (induction js arbitrary: n s)
  case (Cons i js)
  let ?b = "slot s i"
  have i: "i < BCACHE_SLOTS" "i < length (bc_slots s)" using Cons.prems(3) sizesD(1) [OF bc_okD(1) [OF Cons.prems(1)]] by simp_all
  show ?case
  proof (cases "bs_valid ?b \<and> bs_dirty ?b \<and> bs_dev ?b = d")
    case False
    then have "sync_loop devs d js n s = (failed, s')" using Cons.prems(2) by (auto simp: Let_def)
    note IH = Cons.IH [OF Cons.prems(1) this]
    have "bs_valid (slot s' i) \<and> bs_dev (slot s' i) = d \<longrightarrow> \<not> bs_dirty (slot s' i)" using IH Cons.prems(3) i(1) False by (auto simp: unmarked_def)
    then show ?thesis using IH Cons.prems(3) by auto
  next
    case True
    have c: "cached s i d (bs_lba ?b)" using True i by (simp add: cached_def)
    obtain w s1 where w: "blk_write1 devs d (bs_lba ?b) (bs_data ?b) s = (w, s1)" by (cases "blk_write1 devs d (bs_lba ?b) (bs_data ?b) s")
    have dirty: "bs_dirty ?b" using True by simp
    note R = write1_ok [OF Cons.prems(1) c dirty w]
    show ?thesis
    proof (cases w)
      case no: False
      then have "sync_loop devs d js (Suc n) s1 = (failed, s')" using Cons.prems(2) True w by simp
      note IH = Cons.IH [OF R(1) this]
      show ?thesis using IH Cons.prems(3) R True by (auto simp: unmarked_def)
    next
      case yes: True
      let ?s = "set_slot i ((slot s1 i)\<lparr>bs_dirty := False\<rparr>) (s1\<lparr>bc_flushes := bc_flushes s1 + 1\<rparr>)"
      have l: "sync_loop devs d js n ?s = (failed, s')" using Cons.prems(2) True w yes by simp
      have c1: "cached s1 i d (bs_lba ?b)" using c R(3) True by (simp add: cached_def)
      have "bs_data (slot s1 i) = bc_disk s1 d (bs_lba ?b)" using R(3,4) yes True by simp
      note C = clean_ok [OF R(1) c1 this, of "bc_flushes s1 + 1"]
      note IH = Cons.IH [OF C(1) l]
      have sl: "slot ?s j = (if j = i then ?b\<lparr>bs_dirty := False\<rparr> else slot s j)" for j
        using i R(3) True by (subst slot_set_slot) simp_all
      then have u: "unmarked s ?s" by (simp add: unmarked_def)
      have "\<not> bs_dirty (slot s' i)" using IH Cons.prems(3) i(1) sl [of i] by (auto simp: unmarked_def)
      then show ?thesis using IH Cons.prems(3) C(2) R(2,6) True unmarked_trans [OF u] by simp
    qed
  qed
qed (simp add: unmarked_def)

lemma flush_quiet: "quiet s (snd (blk_flush devs d s))"
  by (simp add: blk_flush_def next_io_def Let_def quiet_def)

lemma sync_ok:
  assumes inv: "bc_inv devs W s" and y: "bcache_sync devs d s = (rc, s')"
  shows "bc_inv devs W s'" and "view s' = view s" and "unmarked s s'" and "bc_init s' = bc_init s"
    and "rc = 0 \<Longrightarrow> i < BCACHE_SLOTS \<Longrightarrow> bs_valid (slot s' i) \<Longrightarrow> bs_dev (slot s' i) = d \<Longrightarrow> \<not> bs_dirty (slot s' i)"
proof -
  have "bc_inv devs W s' \<and> view s' = view s \<and> unmarked s s' \<and> bc_init s' = bc_init s \<and>
    (rc = 0 \<longrightarrow> (\<forall>i < BCACHE_SLOTS. bs_valid (slot s' i) \<longrightarrow> bs_dev (slot s' i) = d \<longrightarrow> \<not> bs_dirty (slot s' i)))"
  proof (cases "\<not> bc_init s \<or> d = 0 \<or> \<not> bd_write (devs d)")
    case True
    then have "rc = - 1" "s' = s" using y by (auto simp: bcache_sync_def)
    then show ?thesis using inv by (simp add: unmarked_def)
  next
    case False
    obtain failed s1 where l: "sync_loop devs d [0..<BCACHE_SLOTS] 0 s = (failed, s1)" by (cases "sync_loop devs d [0..<BCACHE_SLOTS] 0 s")
    have "set [0..<BCACHE_SLOTS] \<subseteq> {..<BCACHE_SLOTS}" by auto
    note L = sync_loop_ok [OF bc_invD(1) [OF inv] l this]
    have q: "quiet s1 s'" using y False l flush_quiet [of s1 devs d] by (auto simp: bcache_sync_def)
    have rc: "rc = 0 \<Longrightarrow> failed = 0" using y False l by (auto simp: bcache_sync_def split: if_splits)
    have "unmarked s s'" using L quiet_slot [OF q] by (simp add: unmarked_def)
    then show ?thesis using L rc quiet_ok [OF q] quiet_view [OF q] quiet_slot [OF q] unmarked_inv [OF inv] q by (auto simp: quiet_def)
  qed
  then show "bc_inv devs W s'" "view s' = view s" "unmarked s s'" "bc_init s' = bc_init s"
    "rc = 0 \<Longrightarrow> i < BCACHE_SLOTS \<Longrightarrow> bs_valid (slot s' i) \<Longrightarrow> bs_dev (slot s' i) = d \<Longrightarrow> \<not> bs_dirty (slot s' i)" by simp_all
qed

lemma drop_loop_ok:
  assumes "bc_inv devs W s" and "drop_loop d js n s = (held, s')" and "set js \<subseteq> {..<BCACHE_SLOTS}"
    and "\<And>i. i < BCACHE_SLOTS \<Longrightarrow> bs_valid (slot s i) \<Longrightarrow> bs_dev (slot s i) = d \<Longrightarrow> \<not> bs_dirty (slot s i)"
  shows "bc_inv devs W s' \<and> view s' = view s \<and> keeps s s' \<and> bc_disk s' = bc_disk s \<and> bc_init s' = bc_init s"
  using assms
proof (induction js arbitrary: n s)
  case (Cons i js)
  let ?b = "slot s i"
  have i: "i < BCACHE_SLOTS" "i < length (bc_slots s)" using Cons.prems(3) sizesD(1) [OF bc_okD(1) [OF bc_invD(1) [OF Cons.prems(1)]]] by simp_all
  show ?case
  proof (cases "bs_valid ?b \<and> bs_dev ?b = d \<and> bs_refcount ?b = 0")
    case False
    then have "\<exists>m. drop_loop d js m s = (held, s')" using Cons.prems(2) by (auto simp: Let_def split: if_splits)
    then show ?thesis using Cons.IH [OF Cons.prems(1)] Cons.prems(3,4) by auto
  next
    case True
    let ?v = "?b\<lparr>bs_valid := False, bs_dirty := False, bs_dev := 0\<rparr>"
    let ?s = "set_slot i ?v (bc_unlink i s)"
    have l: "drop_loop d js n ?s = (held, s')" using Cons.prems(2) True by (simp add: Let_def)
    have "i \<notin> W" "length (bs_data ?b) = BC_SECTOR"
      using bc_invD(2) [OF Cons.prems(1)] True bc_okD(4) [OF bc_invD(1) [OF Cons.prems(1)] i(1)] by (auto simp: held_ok_def slot_ok_def)
    note D = drop_ok [OF bc_invD(1) [OF Cons.prems(1)] i(1) _ _ this(1), of ?v]
    have sl: "slot ?s j = (if j = i then ?v else slot s j)" for j using i(2) by (subst slot_set_slot) simp_all
    have k: "keeps s ?s" using True by (simp add: keeps_def sl)
    have inv: "bc_inv devs W ?s" using keeps_inv [OF Cons.prems(1) k] D(1) True Cons.prems(4) [OF i(1)] \<open>length (bs_data ?b) = BC_SECTOR\<close> by simp
    have "\<And>j. j < BCACHE_SLOTS \<Longrightarrow> bs_valid (slot ?s j) \<Longrightarrow> bs_dev (slot ?s j) = d \<Longrightarrow> \<not> bs_dirty (slot ?s j)" using Cons.prems(4) by (auto simp: sl split: if_splits)
    then have "bc_inv devs W s' \<and> view s' = view ?s \<and> keeps ?s s' \<and> bc_disk s' = bc_disk s \<and> bc_init s' = bc_init s"
      using Cons.IH [OF inv l] Cons.prems(3) by simp
    moreover have "view ?s = view s" using D(2) True Cons.prems(4) [OF i(1)] \<open>length (bs_data ?b) = BC_SECTOR\<close> by simp
    ultimately show ?thesis using keeps_trans [OF k] by metis
  qed
qed (simp add: keeps_refl)

end
