(* ===== verification/Bcache_Disk.thy ===== *)
theory Bcache_Disk
  imports Bcache_Spec
begin

text \<open>
  Sessions of the sector cache: its clients acquire buffers, store into buffers they hold, mark them,
  release them, sync and drop devices, in any order and with any failures of the disks.  A session is
  paired with the memory \<open>M\<close> that a client believes to have.
\<close>

section \<open>Start\<close>

text \<open>The static memory of the cache before \<open>bcache_init\<close>, over disks with 512-byte sectors.\<close>

definition blank :: "bcache \<Rightarrow> bool" where
  "blank s \<longleftrightarrow> sizes_ok s \<and> (\<forall>i < BCACHE_SLOTS. length (bs_data (slot s i)) = BC_SECTOR) \<and> (\<forall>h. bc_buckets s h = [])"

lemma init_loop_ok:
  assumes "blank s" and "i + n = BCACHE_SLOTS" and "\<forall>j < i. \<not> bs_valid (slot s j) \<and> bs_refcount (slot s j) = 0" and "init_loop n i free s = (0, free', s')"
  shows "blank s' \<and> (\<forall>j < BCACHE_SLOTS. \<not> bs_valid (slot s' j) \<and> bs_refcount (slot s' j) = 0) \<and> bc_disk s' = bc_disk s"
  using assms
proof (induction n i free s rule: init_loop.induct)
  case (1 i free s)
  then show ?case by (auto simp: blank_def sizes_ok_def)
next
  case (2 n i free s)
  let ?s = "set_slot i (empty_slot (slot s i)) s"
  have len: "i < length (bc_slots s)" using 2(2,3) by (simp add: blank_def sizes_ok_def)
  have b: "blank ?s" using 2(2) by (auto simp: blank_def slot_set_slot [OF len] empty_slot_def)
  have e: "\<forall>j < Suc i. \<not> bs_valid (slot ?s j) \<and> bs_refcount (slot ?s j) = 0" using 2(4) by (auto simp: slot_set_slot [OF len] empty_slot_def less_Suc_eq)
  have "\<not> (i mod BC_PER_FRAME = 0 \<and> free = 0)" using 2(5) by (auto split: if_splits)
  then show ?case using 2(1) b e 2(3,5) by (auto split: if_splits)
qed

lemma blank_ok:
  assumes "blank s" and "\<forall>j < BCACHE_SLOTS. \<not> bs_valid (slot s j) \<and> bs_refcount (slot s j) = 0"
  shows "bc_inv devs {} s" and "view s = bc_disk s"
proof -
  have ok: "bc_ok devs {} s" using assms by (auto simp: blank_def bc_ok_def chains_ok_def unique_def cached_def slot_ok_def)
  then show "bc_inv devs {} s" using assms(2) by (simp add: bc_inv_def held_ok_def)
  show "view s = bc_disk s" using assms by (intro ext view_disk [OF ok]) (auto simp: cached_def)
qed

section \<open>Sessions\<close>

definition holder_store :: "nat \<Rightarrow> u8 list \<Rightarrow> bcache \<Rightarrow> bcache" where
  "holder_store i bytes s = set_slot i ((slot s i)\<lparr>bs_data := bytes\<rparr>) s"

abbreviation put :: "u64 \<Rightarrow> u64 \<Rightarrow> u8 list \<Rightarrow> (u64 \<Rightarrow> u64 \<Rightarrow> u8 list) \<Rightarrow> u64 \<Rightarrow> u64 \<Rightarrow> u8 list" where
  "put d l bytes M \<equiv> M(d := (M d)(l := bytes))"

inductive bc_session :: "devices \<Rightarrow> bcache \<Rightarrow> (u64 \<Rightarrow> u64 \<Rightarrow> u8 list) \<Rightarrow> nat set \<Rightarrow> bool" for devs where
  start: "blank s \<Longrightarrow> \<not> bc_init s \<Longrightarrow> bcache_init free s = (0, free', s') \<Longrightarrow> bc_session devs s' (bc_disk s) {}"
| get: "bc_session devs s M W \<Longrightarrow> bcache_get devs d l s = (r, s') \<Longrightarrow> bc_session devs s' M W"
| overwrite: "bc_session devs s M W \<Longrightarrow> bcache_get_overwrite devs d l s = (r, s') \<Longrightarrow> r = None \<or> find_entry d l s \<noteq> None \<Longrightarrow> bc_session devs s' M W"
| overwrite_new: "bc_session devs s M W \<Longrightarrow> bcache_get_overwrite devs d l s = (Some i, s') \<Longrightarrow> find_entry d l s = None \<Longrightarrow>
    bc_session devs s' (put d l (replicate BC_SECTOR 0) M) (insert i W)"
| store: "bc_session devs s M W \<Longrightarrow> i < BCACHE_SLOTS \<Longrightarrow> bs_refcount (slot s i) > 0 \<Longrightarrow> length bytes = BC_SECTOR \<Longrightarrow>
    bc_session devs (holder_store i bytes s) (put (bs_dev (slot s i)) (bs_lba (slot s i)) bytes M) (insert i W)"
| mark: "bc_session devs s M W \<Longrightarrow> i < BCACHE_SLOTS \<Longrightarrow> bs_refcount (slot s i) > 0 \<Longrightarrow> bd_write (devs (bs_dev (slot s i))) \<Longrightarrow>
    bc_session devs (bcache_mark_dirty i s) M (W - {i})"
| release: "bc_session devs s M W \<Longrightarrow> i < BCACHE_SLOTS \<Longrightarrow> bs_refcount (slot s i) > 1 \<or> i \<notin> W \<Longrightarrow> bc_session devs (bcache_release i s) M W"
| sync: "bc_session devs s M W \<Longrightarrow> bcache_sync devs d s = (rc, s') \<Longrightarrow> bc_session devs s' M W"
| invalidate: "bc_session devs s M W \<Longrightarrow> fst (bcache_sync devs d s) = 0 \<Longrightarrow> bcache_invalidate devs d s = (n, s') \<Longrightarrow> bc_session devs s' M W"

lemma store_ok:
  assumes inv: "bc_inv devs W s" and i: "i < BCACHE_SLOTS" "bs_refcount (slot s i) > 0" and b: "length bytes = BC_SECTOR"
  shows "bc_inv devs (insert i W) (holder_store i bytes s)" and "view (holder_store i bytes s) = put (bs_dev (slot s i)) (bs_lba (slot s i)) bytes (view s)"
proof -
  let ?b = "(slot s i)\<lparr>bs_data := bytes\<rparr>" and ?s = "holder_store i bytes s"
  note ok = bc_invD(1) [OF inv]
  have len: "i < length (bc_slots s)" using sizesD(1) [OF bc_okD(1) [OF ok]] i by simp
  have sl: "slot ?s j = (if j = i then ?b else slot s j)" for j unfolding holder_store_def by (rule slot_set_slot [OF len])
  have v: "bs_valid (slot s i)" using bc_invD(3) [OF inv i] .
  have "slot_ok devs (insert i W) ?s i" using bc_okD(4) [OF ok i(1)] b by (simp add: slot_ok_def sl)
  then have ok': "bc_ok devs (insert i W) ?s" and c: "\<And>j e k. cached ?s j e k = cached s j e k"
    using meta_ok [OF ok i(1), of ?b "insert i W"] by (simp_all add: holder_store_def)
  then show "bc_inv devs (insert i W) ?s" using inv i by (auto simp: bc_inv_def held_ok_def sl)
  have ci: "cached s i (bs_dev (slot s i)) (bs_lba (slot s i))" using v i(1) by (simp add: cached_def)
  show "view ?s = put (bs_dev (slot s i)) (bs_lba (slot s i)) bytes (view s)"
  proof (intro ext)
    fix e k
    show "view ?s e k = (put (bs_dev (slot s i)) (bs_lba (slot s i)) bytes (view s)) e k"
    proof (cases "\<exists>j. cached s j e k")
      case True
      then obtain j where j: "cached s j e k" by blast
      then have "j = i \<longleftrightarrow> e = bs_dev (slot s i) \<and> k = bs_lba (slot s i)" using ci bc_okD(3) [OF ok] by (auto simp: unique_def cached_def)
      then show ?thesis using view_cached [OF ok j] view_cached [OF ok', of j e k] j c by (auto simp: sl)
    next
      case False
      then have "\<not> (e = bs_dev (slot s i) \<and> k = bs_lba (slot s i))" using ci by blast
      moreover have "view ?s e k = view s e k" using view_disk [OF ok, of e k] view_disk [OF ok', of e k] False c by (simp add: holder_store_def)
      ultimately show ?thesis by auto
    qed
  qed
qed

lemma mark_ok:
  assumes inv: "bc_inv devs W s" and i: "i < BCACHE_SLOTS" "bs_refcount (slot s i) > 0" "bd_write (devs (bs_dev (slot s i)))"
  shows "bc_inv devs (W - {i}) (bcache_mark_dirty i s)" and "view (bcache_mark_dirty i s) = view s"
proof -
  let ?b = "(slot s i)\<lparr>bs_dirty := True\<rparr>"
  note ok = bc_invD(1) [OF inv]
  have len: "i < length (bc_slots s)" using sizesD(1) [OF bc_okD(1) [OF ok]] i by simp
  have s': "bcache_mark_dirty i s = set_slot i ?b s" using bc_invD(3) [OF inv i(1,2)] by (simp add: bcache_mark_dirty_def)
  note sl = slot_set_slot [OF len]
  have "slot_ok devs (W - {i}) (set_slot i ?b s) i" using bc_okD(4) [OF ok i(1)] i(3) by (simp add: slot_ok_def sl)
  then have ok': "bc_ok devs (W - {i}) (set_slot i ?b s)" using meta_ok(1) [OF ok i(1), of ?b "W - {i}"] by simp
  then show "bc_inv devs (W - {i}) (bcache_mark_dirty i s)" using inv i(2) by (auto simp: s' bc_inv_def held_ok_def sl)
  show "view (bcache_mark_dirty i s) = view s" using meta_view [OF ok ok' i(1)] by (simp add: s')
qed

lemma release_ok:
  assumes inv: "bc_inv devs W s" and i: "i < BCACHE_SLOTS" "bs_refcount (slot s i) > 1 \<or> i \<notin> W"
  shows "bc_inv devs W (bcache_release i s)" and "view (bcache_release i s) = view s"
proof -
  let ?b = "(slot s i)\<lparr>bs_refcount := bs_refcount (slot s i) - 1\<rparr>"
  note ok = bc_invD(1) [OF inv]
  have len: "i < length (bc_slots s)" using sizesD(1) [OF bc_okD(1) [OF ok]] i by simp
  note sl = slot_set_slot [OF len]
  have "slot_ok devs W (set_slot i ?b s) i" using bc_okD(4) [OF ok i(1)] by (simp add: slot_ok_def sl)
  then have ok': "bc_ok devs W (set_slot i ?b s)" using meta_ok(1) [OF ok i(1), of ?b W] by simp
  have "bc_inv devs W (set_slot i ?b s)" using inv i(2) ok' by (auto simp: bc_inv_def held_ok_def sl)
  moreover have "view (set_slot i ?b s) = view s" using meta_view [OF ok ok' i(1)] by simp
  ultimately show "bc_inv devs W (bcache_release i s)" "view (bcache_release i s) = view s" using inv by (simp_all add: bcache_release_def)
qed

lemma invalidate_ok:
  assumes inv: "bc_inv devs W s" and y: "fst (bcache_sync devs d s) = 0" and r: "bcache_invalidate devs d s = (n, s')"
  shows "bc_inv devs W s'" and "view s' = view s"
proof -
  obtain s1 where s1: "bcache_sync devs d s = (0, s1)" using y by (cases "bcache_sync devs d s") simp
  note Y = sync_ok [OF inv s1]
  have "bc_init s" "d \<noteq> 0" using s1 by (auto simp: bcache_sync_def split: if_splits)
  then have l: "drop_loop d [0..<BCACHE_SLOTS] 0 s1 = (n, s')" using r s1 by (simp add: bcache_invalidate_def)
  have "set [0..<BCACHE_SLOTS] \<subseteq> {..<BCACHE_SLOTS}" by auto
  note D = drop_loop_ok [OF Y(1) l this]
  show "bc_inv devs W s'" "view s' = view s" using D Y(2,5) by simp_all
qed

lemma bc_session_ok: "bc_session devs s M W \<Longrightarrow> bc_inv devs W s \<and> view s = M"
proof (induction rule: bc_session.induct)
  case (start s free free' s')
  then have "init_loop BCACHE_SLOTS 0 free s = (0, free', s')" by (simp add: bcache_init_def)
  then show ?case using init_loop_ok [of s 0 BCACHE_SLOTS free free' s'] blank_ok(1) [of s' devs] blank_ok(2) [of s'] start(1) by simp
next
  case (get s M W d l r s')
  then show ?case using acquire_ok [of devs W s d l False r s'] by (cases r) (auto simp: bcache_get_def)
next
  case (overwrite s M W d l r s')
  then show ?case using acquire_ok [of devs W s d l True r s'] by (cases r) (auto simp: bcache_get_overwrite_def)
next
  case (overwrite_new s M W d l i s')
  then show ?case using acquire_ok [of devs W s d l True "Some i" s'] by (auto simp: bcache_get_overwrite_def)
next
  case (store s M W i bytes)
  then show ?case using store_ok [of devs W s i bytes] by simp
next
  case (mark s M W i)
  then show ?case using mark_ok [of devs W s i] by simp
next
  case (release s M W i)
  then show ?case using release_ok [of devs W s i] by simp
next
  case (sync s M W d rc s')
  then show ?case using sync_ok [of devs W s d rc s'] by simp
next
  case (invalidate s M W d n s')
  then show ?case using invalidate_ok [of devs W s d n s'] by simp
qed

section \<open>Properties\<close>



section \<open>A drop after failed writes\<close>

lemma sync_all_fail:
  assumes "\<And>n. bc_io s n = Some []" and "sync_loop devs d js n s = (failed, s')"
  shows "bc_slots s' = bc_slots s \<and> bc_disk s' = bc_disk s \<and> bc_buckets s' = bc_buckets s \<and> bc_init s' = bc_init s"
  using assms
proof (induction js arbitrary: n s)
  case (Cons i js)
  show ?case
  proof (cases "bs_valid (slot s i) \<and> bs_dirty (slot s i) \<and> bs_dev (slot s i) = d")
    case False
    then show ?thesis using Cons.IH [OF Cons.prems(1)] Cons.prems(2) by (auto simp: Let_def)
  next
    case True
    obtain s1 where w: "blk_write1 devs d (bs_lba (slot s i)) (bs_data (slot s i)) s = (False, s1)"
      and s1: "bc_slots s1 = bc_slots s" "bc_disk s1 = bc_disk s" "bc_buckets s1 = bc_buckets s" "bc_init s1 = bc_init s" "bc_io s1 = bc_io s"
      using Cons.prems(1) by (cases "blk_write1 devs d (bs_lba (slot s i)) (bs_data (slot s i)) s")
        (auto simp: blk_write1_def next_io_def overlay_def Let_def fun_upd_idem split: if_splits)
    then show ?thesis using Cons.IH [of s1 "Suc n"] Cons.prems True by (simp add: Let_def)
  qed
qed simp

lemma drop_loop_slots:
  assumes "drop_loop d js n s = (held, s')" and "\<forall>i \<in> set js. i < length (bc_slots s)"
  shows "bc_disk s' = bc_disk s \<and> (\<forall>i. bs_valid (slot s' i) \<longrightarrow> slot s' i = slot s i) \<and>
    (\<forall>i \<in> set js. bs_dev (slot s i) = d \<and> bs_refcount (slot s i) = 0 \<longrightarrow> \<not> bs_valid (slot s' i))"
  using assms
proof (induction js arbitrary: n s)
  case (Cons i js)
  let ?b = "slot s i"
  show ?case
  proof (cases "bs_valid ?b \<and> bs_dev ?b = d \<and> bs_refcount ?b = 0")
    case False
    then have "\<exists>m. drop_loop d js m s = (held, s')" using Cons.prems(1) by (auto simp: Let_def split: if_splits)
    then have "bc_disk s' = bc_disk s \<and> (\<forall>i. bs_valid (slot s' i) \<longrightarrow> slot s' i = slot s i) \<and>
        (\<forall>i \<in> set js. bs_dev (slot s i) = d \<and> bs_refcount (slot s i) = 0 \<longrightarrow> \<not> bs_valid (slot s' i))" using Cons.IH Cons.prems(2) by auto
    moreover from this have e: "bs_valid (slot s' i) \<Longrightarrow> slot s' i = ?b" by blast
    moreover have "\<not> bs_valid (slot s' i)" if "bs_dev ?b = d \<and> bs_refcount ?b = 0"
    proof
      assume v: "bs_valid (slot s' i)"
      show False using e [OF v] v that False by simp
    qed
    ultimately show ?thesis by (metis insert_iff list.set(2))
  next
    case True
    let ?v = "?b\<lparr>bs_valid := False, bs_dirty := False, bs_dev := 0\<rparr>"
    let ?s = "set_slot i ?v (bc_unlink i s)"
    have l: "drop_loop d js n ?s = (held, s')" using Cons.prems(1) True by (simp add: Let_def)
    have sl: "slot ?s j = (if j = i then ?v else slot s j)" for j using Cons.prems(2) by (subst slot_set_slot) simp_all
    have pre: "\<forall>i \<in> set js. i < length (bc_slots ?s)" using Cons.prems(2) by simp
    note IH = Cons.IH [OF l pre]
    then have e: "bs_valid (slot s' j) \<Longrightarrow> slot s' j = slot ?s j" for j by blast
    have "bc_disk s' = bc_disk ?s" using IH by blast
    then have "bc_disk s' = bc_disk s" by (simp only: set_slot_simps bc_link_simps)
    moreover have i: "\<not> bs_valid (slot s' i)"
    proof
      assume v: "bs_valid (slot s' i)"
      show False using e [OF v] v sl [of i] by simp
    qed
    moreover have "slot ?s j = slot s j" if "j \<noteq> i" for j using sl [of j] that by simp
    ultimately show ?thesis using IH e by (metis insert_iff list.set(2))
  qed
qed simp

text \<open>C40: When the disk refuses every write, dropping a device throws away a sector that was marked dirty and
  released: afterwards it is neither in the cache nor on the disk, and the call reports nothing of it.\<close>

theorem bcache_invalidate_loses_write:
  assumes "bc_inv devs W s" and "bc_init s" and "d \<noteq> 0" and "\<And>n. bc_io s n = Some []"
    and "cached s i d l" and "bs_refcount (slot s i) = 0" and "bs_data (slot s i) \<noteq> bc_disk s d l"
  shows "(\<forall>j. \<not> cached (snd (bcache_invalidate devs d s)) j d l) \<and> bc_disk (snd (bcache_invalidate devs d s)) d l \<noteq> view s d l"
proof -
  obtain rc s1 where y: "bcache_sync devs d s = (rc, s1)" by (cases "bcache_sync devs d s")
  have s1: "bc_slots s1 = bc_slots s" "bc_disk s1 = bc_disk s"
  proof -
    have "bc_slots s1 = bc_slots s \<and> bc_disk s1 = bc_disk s"
    proof (cases "bd_write (devs d)")
      case True
      obtain f s2 where l: "sync_loop devs d [0..<BCACHE_SLOTS] 0 s = (f, s2)" by (cases "sync_loop devs d [0..<BCACHE_SLOTS] 0 s")
      then show ?thesis using y assms(2,3) True sync_all_fail [OF assms(4) l] flush_quiet [of s2 devs d] by (auto simp: bcache_sync_def quiet_def)
    qed (use y assms(2,3) in \<open>auto simp: bcache_sync_def\<close>)
    then show "bc_slots s1 = bc_slots s" "bc_disk s1 = bc_disk s" by simp_all
  qed
  obtain n s' where dl: "drop_loop d [0..<BCACHE_SLOTS] 0 s1 = (n, s')" by (cases "drop_loop d [0..<BCACHE_SLOTS] 0 s1")
  have len: "length (bc_slots s1) = BCACHE_SLOTS" using s1 sizesD(1) [OF bc_okD(1) [OF bc_invD(1) [OF assms(1)]]] by simp
  have pre: "\<forall>i \<in> set [0..<BCACHE_SLOTS]. i < length (bc_slots s1)" using len by simp
  note D = drop_loop_slots [OF dl pre]
  then have D1: "bc_disk s' = bc_disk s1" and D2: "bs_valid (slot s' j) \<Longrightarrow> slot s' j = slot s1 j" for j by blast+
  have i: "i \<in> set [0..<BCACHE_SLOTS]" "bs_dev (slot s1 i) = d" "bs_refcount (slot s1 i) = 0" using assms(5,6) s1(1) by (simp_all add: cached_def)
  then have D3: "\<not> bs_valid (slot s' i)" using D by blast
  have inval: "snd (bcache_invalidate devs d s) = s'" using assms(2,3) y dl by (simp add: bcache_invalidate_def)
  have "\<not> cached s' j d l" for j
  proof
    assume j: "cached s' j d l"
    then have v: "bs_valid (slot s' j)" by (rule cached_valid)
    have "cached s j d l" using j D2 [OF v] s1(1) by (simp add: cached_def)
    then have "j = i" using bc_okD(3) [OF bc_invD(1) [OF assms(1)]] assms(5) by (simp add: unique_def)
    then show False using D3 v by simp
  qed
  then show ?thesis using inval D1 s1 assms(7) view_cached [OF bc_invD(1) [OF assms(1)] assms(5)] by simp
qed

section \<open>A concrete machine\<close>

lemma init_loop_succeeds:
  "i + n = BCACHE_SLOTS \<Longrightarrow> free + (i + 7) div 8 = 128 \<Longrightarrow> \<exists>f s'. init_loop n i free s = (0, f, s')"
proof (induction n i free s rule: init_loop.induct)
  case (2 n i free s)
  have p: "BC_PER_FRAME = 8" by (simp add: BC_PER_FRAME_def FRAME_SIZE_def BC_SECTOR_def)
  have i: "i < 1024" using 2(2) by (simp add: BCACHE_SLOTS_def)
  have r: "(i mod 8 + 7) div 8 = (if i mod 8 = 0 then 0 else 1)"
    using mod_less_divisor [of 8 i] by (auto intro!: div_nat_eqI)
  have "(i + 7) div 8 = i div 8 + (i mod 8 + 7) div 8" using div_add1_eq [of i 7 8] by simp
  then have d: "free + i div 8 + (if i mod 8 = 0 then 0 else 1) = 128" using 2(3) r by simp
  have nz: "\<not> (i mod 8 = 0 \<and> free = 0)"
  proof
    assume a: "i mod 8 = 0 \<and> free = 0"
    then have "i div 8 = 128" using d by simp
    then show False using i a div_mult_mod_eq [of i 8] by simp
  qed
  have "(Suc i + 7) div 8 = i div 8 + 1" by simp
  then have "(if i mod 8 = 0 then free - 1 else free) + (Suc i + 7) div 8 = 128" using d nz by (simp split: if_splits)
  then show ?case using 2(1,2) nz p by simp
qed simp

definition demo_devs :: devices where
  "demo_devs d = \<lparr>bd_sector_size = 512, bd_sector_count = 1, bd_read = True, bd_write = True, bd_flush = True\<rparr>"

definition demo_blank :: "u8 list option \<Rightarrow> bcache" where
  "demo_blank f = \<lparr>bc_init = False,
     bc_slots = replicate BCACHE_SLOTS \<lparr>bs_dev = 0, bs_lba = 0, bs_data = replicate BC_SECTOR 0, bs_refcount = 0, bs_dirty = False, bs_tick = 0, bs_valid = False\<rparr>,
     bc_buckets = (\<lambda>h. []), bc_lru = 0, bc_hits = 0, bc_misses = 0, bc_evictions = 0, bc_flushes = 0, bc_ra_buf = replicate FRAME_SIZE 0,
     bc_ra_runs = 0, bc_ra_sectors = 0, bc_disk = (\<lambda>d l. replicate BC_SECTOR 7), bc_io = (\<lambda>n. f), bc_ios = 0,
     bc_blk = \<lparr>bk_reads = 0, bk_writes = 0, bk_flushes = 0, bk_sectors_read = 0, bk_sectors_written = 0, bk_errors = 0\<rparr>\<rparr>"

definition demo_cache :: bcache where
  "demo_cache = snd (snd (bcache_init 128 (demo_blank None)))"

lemma demo_blank: "blank (demo_blank f)"
  by (simp add: demo_blank_def blank_def sizes_ok_def)

lemma init_loop_frame: "bc_io (snd (snd (init_loop n i free s))) = bc_io s \<and> (fst (init_loop n i free s) = 0 \<longrightarrow> bc_init (snd (snd (init_loop n i free s))))"
  by (induction n i free s rule: init_loop.induct) (auto simp: set_slot_def)

lemma demo_session: "bc_session demo_devs demo_cache (\<lambda>d l. replicate BC_SECTOR 7) {}" and demo_io: "bc_io demo_cache n = None" "bc_init demo_cache"
  and demo_free: "\<forall>j < BCACHE_SLOTS. \<not> bs_valid (slot demo_cache j) \<and> bs_refcount (slot demo_cache j) = 0" "blank demo_cache"
    "bc_disk demo_cache = (\<lambda>d l. replicate BC_SECTOR 7)"
proof -
  obtain f s' where i: "init_loop BCACHE_SLOTS 0 128 (demo_blank None) = (0, f, s')" using init_loop_succeeds [of 0 BCACHE_SLOTS 128 "demo_blank None"] by auto
  have n: "\<not> bc_init (demo_blank None)" "bc_io (demo_blank None) = (\<lambda>n. None)" "bc_disk (demo_blank None) = (\<lambda>d l. replicate BC_SECTOR 7)"
    by (simp_all add: demo_blank_def)
  then have b: "bcache_init 128 (demo_blank None) = (0, f, s')" using i by (simp add: bcache_init_def)
  then have s': "demo_cache = s'" by (simp add: demo_cache_def)
  show "bc_session demo_devs demo_cache (\<lambda>d l. replicate BC_SECTOR 7) {}"
    using bc_session.start [OF demo_blank n(1) b, of demo_devs] n(3) s' by simp
  show "bc_io demo_cache n = None" "bc_init demo_cache" using init_loop_frame [of BCACHE_SLOTS 0 128 "demo_blank None"] i s' n(2) by simp_all
  show "\<forall>j < BCACHE_SLOTS. \<not> bs_valid (slot demo_cache j) \<and> bs_refcount (slot demo_cache j) = 0" "blank demo_cache"
    "bc_disk demo_cache = (\<lambda>d l. replicate BC_SECTOR 7)"
    using init_loop_ok [OF demo_blank _ _ i] s' n(3) by simp_all
qed

lemma demo_get: "\<exists>s'. bcache_get demo_devs 1 0 demo_cache = (Some 0, s')"
proof -
  have len: "length (bc_slots demo_cache) = BCACHE_SLOTS" "bc_buckets demo_cache h = []" for h using demo_free(2) by (simp_all add: blank_def sizes_ok_def)
  then obtain b bs where sl: "bc_slots demo_cache = b # bs" by (cases "bc_slots demo_cache") (auto simp: BCACHE_SLOTS_def)
  then have b: "\<not> bs_valid b" "bs_refcount b = 0" using demo_free(1) [rule_format, of 0] by (simp_all add: BCACHE_SLOTS_def)
  have up: "[Suc 0..<8] = Suc 0 # [2..<8]" by (simp add: upt_rec)
  show ?thesis using len(2) sl b demo_io
    by (simp add: bcache_get_def bcache_get_unlocked_def demo_devs_def BC_SECTOR_def find_entry_def Let_def pick_victim_def clean_victim_def evict_def bring_in_def
        bc_readahead_def ra_length_def BC_PER_FRAME_def FRAME_SIZE_def up blk_read_def next_io_def)
qed


lemma sync_none: "\<forall>i \<in> set js. \<not> bs_valid (slot s i) \<Longrightarrow> sync_loop devs d js n s = (n, s)"
  by (induction js) simp_all


definition demo_lost :: bcache where
  "demo_lost = bcache_release 0 (bcache_mark_dirty 0 (fill 0 1 0 (replicate BC_SECTOR 9) 1 ((demo_blank (Some []))\<lparr>bc_init := True\<rparr>)))"

theorem bcache_invalidate_loses_write_witness:
  "\<not> cached (snd (bcache_invalidate demo_devs 1 demo_lost)) 0 1 0 \<and> bc_disk (snd (bcache_invalidate demo_devs 1 demo_lost)) 1 0 \<noteq> view demo_lost 1 0"
proof -
  let ?s = "(demo_blank (Some []))\<lparr>bc_init := True\<rparr>"
  let ?f = "fill 0 1 0 (replicate BC_SECTOR 9) 1 ?s"
  have b: "blank ?s" using demo_blank [of "Some []"] by (simp add: blank_def sizes_ok_def)
  have n: "\<forall>j < BCACHE_SLOTS. \<not> bs_valid (slot ?s j) \<and> bs_refcount (slot ?s j) = 0" by (simp add: demo_blank_def)
  note B = blank_ok [OF b n]
  have z: "0 < BCACHE_SLOTS" by (simp add: BCACHE_SLOTS_def)
  have f: "bc_ok demo_devs {0} ?f" using fill_ok(1) [OF bc_invD(1) [OF B(1)] z, where d = 1 and l = 0 and data = "replicate BC_SECTOR 9" and W' = "{0}" and r = 1] n z by (auto simp: cached_def)
  have len: "0 < length (bc_slots ?s)" using z by (simp add: demo_blank_def)
  note sl = fill_slot [OF len]
  have "bc_inv demo_devs {0} ?f" using f n z by (auto simp: bc_inv_def held_ok_def sl)
  then have m: "bc_inv demo_devs {} (bcache_mark_dirty 0 ?f)" using mark_ok(1) [of demo_devs "{0}" ?f 0] z by (simp add: sl demo_devs_def)
  have inv: "bc_inv demo_devs {} demo_lost" unfolding demo_lost_def by (rule release_ok(1) [OF m z]) simp
  have "0 < length (bc_slots ?f)" using len by simp
  note sl' = slot_set_slot [OF this]
  have d: "demo_lost = set_slot 0 ((slot ?f 0)\<lparr>bs_dirty := True, bs_refcount := 0\<rparr>) ?f"
    using len by (simp add: demo_lost_def bcache_release_def bcache_mark_dirty_def sl) (simp add: set_slot_def fill_slot)
  have "cached demo_lost 0 1 0" "bs_refcount (slot demo_lost 0) = 0" "bc_io demo_lost n = Some []" "bc_init demo_lost"
    "bs_data (slot demo_lost 0) \<noteq> bc_disk demo_lost 1 0" for n
    using z by (simp_all add: d cached_def sl' sl) (simp_all add: fill_def set_slot_def bc_link_def Let_def demo_blank_def BC_SECTOR_def)
  then show ?thesis using bcache_invalidate_loses_write [OF inv, where d = 1 and i = 0 and l = 0] by simp
qed

end
