(* ===== verification/Spec2Isabelle.thy ===== *)
theory Spec2Isabelle
  imports Pmm_Spec Bpf_Spec Vma_Calls Fifo_Spec Sha256_Spec Charset Partition_Table
    Basic_Prog Bcache_Disk
begin

text \<open>
  A verification library for the kernel of D-OS (\<open>src/kernel\<close>).

  \<^bold>\<open>The program.\<close>  D-OS is a kernel in C for x86, x86-64 and ARM with its own desktop.  The library follows
  nine of its parts.  Memory: the frame allocator hands out physical frames, and the reservations of an
  address space decide what a program may map.  Storage: the block layer passes requests to the disk
  drivers, the sector cache keeps sectors over it, and partitions are devices inside a disk.  Processes:
  named pipes connect them, and bpf programs attached to a cgroup decide which devices they may open.
  Libraries: the formatter of the console, SHA-256 with its key derivation, and the character sets.  On
  top, the Tiny-BASIC interpreter, which uses the formatter for everything it prints.

  \<^bold>\<open>Conventions.\<close>  A C structure is a record, machine integers are words where wrap-around can matter, a
  NUL-terminated string is the list of its characters.  A C function is one definition that returns its
  result and the changed state; parts of a long function have definitions of their own, in the order of
  the code.  Locks are the atomicity of these definitions; where a call sleeps, each piece between two
  sleeps is a step of an inductive relation.  Code outside the modelled parts is a parameter.

  \<^bold>\<open>Theories.\<close>
  \<^item> \<open>Dos_Prelude\<close>: integer types, word lemmas, doubly linked lists.
  \<^item> \<open>Pmm\<close> (\<open>mem/pmm.c\<close>): zones, free lists, split and merge, the zone search, NUMA re-homing, seeding, the
    validator.  \<open>Pmm_Inv\<close>, \<open>Pmm_Buddy\<close> and \<open>Pmm_Api\<close> prove the invariant, \<open>Pmm_Spec\<close> what clients rely on:
    blocks are aligned, disjoint and never lost, allocation fails only when nothing fits, counters are
    exact, contiguous DMA memory stays below 4 GiB.  The locale \<open>frame_source\<close> is this contract; the
    buddy allocator is its instance.
  \<^item> \<open>Bpf\<close> and \<open>Bpf_Prog\<close> (\<open>core/bpf.c\<close>): verifier, interpreter, program and attachment tables, the
    \<open>bpf\<close> commands.  \<open>Bpf_Spec\<close>: a verified program ends and stays in bounds; reference counts are exact
    under every interleaving; the device check decides by all attached programs.
  \<^item> \<open>Vma\<close> (\<open>mem/vma.c\<close>, page-table operations of \<open>hal/x86_64/vmm.c\<close>), \<open>Vma_Spec\<close>, \<open>Vma_Calls\<close>: the list of
    ranges refines a map from addresses to rights, and each call changes the map as documented.
  \<^item> \<open>Fifo\<close> (\<open>core/fifo.c\<close>) and \<open>Fifo_Spec\<close>: the ring refines a byte queue (locale \<open>byte_queue\<close>); opens,
    reads, writes and closes keep a pipe consistent under every interleaving.
  \<^item> \<open>Sha256\<close> (\<open>core/sha256.c\<close>) and \<open>Sha256_Spec\<close>: streaming equals the standard's definition, HMAC and
    PBKDF2 equal those of their RFCs.  \<open>Charset\<close> (\<open>core/charset.c\<close>): round trip and buffer bounds.
  \<^item> \<open>Partition\<close> (\<open>core/partition.c\<close>), \<open>Partition_Spec\<close>, \<open>Partition_Table\<close>: a scan adds only partitions inside
    the disk, a written table is read back, also from the GPT backup, and partition I/O is confined.
  \<^item> \<open>Printf\<close> (\<open>core/printf.c\<close>): what is printed reads back as the arguments.
  \<^item> \<open>Basic\<close> and \<open>Basic_Stmt\<close> (\<open>core/basic.c\<close>): expressions, statements, the program store, runs, files and
    the prompt.  \<open>Basic_Expr\<close> shows that parsers consume their input and that fuel does not matter
    (locales \<open>inner\<close> and \<open>agree\<close>), \<open>Basic_Grammar\<close> that the parser computes the value of the expression
    tree, \<open>Basic_Safe\<close> and \<open>Basic_Prog\<close> that a session keeps its state well formed, that a stop request ends
    a run, and that a saved program loads back.
  \<^item> \<open>Bcache\<close> (\<open>core/block_cache.c\<close>, requests of \<open>core/block.c\<close>), \<open>Bcache_Spec\<close>, \<open>Bcache_Disk\<close>: hash chains,
    read-ahead, eviction, write-back.  The cache refines the disks: through every session, with any
    failures, a reader gets what was last stored; a successful sync is durable.

  \<^bold>\<open>Fuel and bounds.\<close>  Loops that may not end in C are \<open>partial_function (option)\<close> (\<open>ceil_log2\<close>, the bpf
  interpreter, the search for a free range, the hash loops); that they return is proved, for
  \<open>ceil_log2\<close> also when they do not.  The loop that seeds the free lists at boot is defined the same way;
  no theorem is about it.  The BASIC parser takes the length of its text as fuel, which is
  enough as every level consumes input; statements likewise.  A BASIC run takes the number of lines it
  may execute, since programs need not end, and a session the number of rounds.

  \<^bold>\<open>Errors the proofs show.\<close>  Some theorems state what the code does against its documentation: a bpf detach
  through a bad descriptor, a break at the end of the address space, a missed hang-up of a pipe, a size
  above 2 GiB frames in \<open>ceil_log2\<close>, the divide error in BASIC, and the write lost when a cached device is
  dropped after its writes failed.

  \<^bold>\<open>Not modelled.\<close>  In the modelled files: the boot memory map, printed statistics and self-test output,
  the registry of block devices, prefaulting and the destruction of address spaces, timing statistics.
  Whole parts: scheduling, interrupt entry, page tables on the other processors, drivers and the desktop
  work on hardware registers, stacks and pixels.  File systems, network, descriptors and event
  objects, credentials, program loading, the kernel heap and the page cache are ordinary C and are not
  modelled yet; where a modelled part calls them, they are parameters.
\<close>

end
